(* ===== verification/Sysmon_Prelude.thy ===== *)
theory Sysmon_Prelude
  imports Main "HOL-Library.Word"
begin

text \<open>
  Shared material of the sysmond development: the machine types of the C code (an LP64
  target, so \<open>unsigned long\<close>, \<open>size_t\<close> and \<open>time_t\<close> have 64 bits and \<open>int\<close> has 32),
  C strings as lists of characters without the terminating NUL, the printf directives and
  the strtol family the sources use, and the generic lemmas on them.
  The collection \<open>cstr\<close> holds the rewrite rules for C string primitives, \<open>frame\<close> the facts that
  an operation leaves a field alone.
\<close>

unbundle bit_operations_syntax

named_theorems cstr \<open>rewrite rules for C string primitives\<close>
named_theorems frame \<open>fields an operation leaves untouched\<close>

section \<open>Machine types\<close>

type_synonym byte = "8 word"
type_synonym u32 = "32 word"
type_synonym u64 = "64 word"

abbreviation (input) ULONG_MAX :: nat where "ULONG_MAX \<equiv> 18446744073709551615"
abbreviation (input) LONG_MAX :: int where "LONG_MAX \<equiv> 9223372036854775807"
abbreviation (input) LONG_MIN :: int where "LONG_MIN \<equiv> - 9223372036854775808"

text \<open>The cast \<open>(int)\<close> applied to a long: the low 32 bits, read as two's complement.\<close>

definition to_int32 :: "int \<Rightarrow> int" where
  "to_int32 x = (x + 2147483648) mod 4294967296 - 2147483648"

lemma to_int32_id: "- 2147483648 \<le> x \<Longrightarrow> x < 2147483648 \<Longrightarrow> to_int32 x = x"
  by (simp add: to_int32_def)

lemma to_int32_bounds: "- 2147483648 \<le> to_int32 x \<and> to_int32 x < 2147483648"
proof -
  have "0 \<le> (x + 2147483648) mod 4294967296" and "(x + 2147483648) mod 4294967296 < 4294967296"
    by simp_all
  then show ?thesis unfolding to_int32_def by linarith
qed

lemma unat_of_nat_len: "n < 2 ^ LENGTH('a) \<Longrightarrow> unat (of_nat n :: 'a::len word) = n"
  by (simp add: unat_of_nat)

text \<open>A byte of a packet as a character of a C string.\<close>

definition chr :: "byte \<Rightarrow> char" where
  "chr b = char_of (unat b)"

section \<open>Fixed-size destinations\<close>

text \<open>
  \<open>snprintf(dst, n, "%s", s)\<close> with \<open>n > 0\<close> stores the first \<open>n - 1\<close> characters and a NUL.
\<close>

definition fit :: "nat \<Rightarrow> string \<Rightarrow> string" where
  "fit n s = take (n - 1) s"

lemma length_fit: "0 < n \<Longrightarrow> length (fit n s) < n"
  by (simp add: fit_def)

lemma fit_id [cstr]: "length s < n \<Longrightarrow> fit n s = s"
  by (simp add: fit_def)

lemma fit_Nil [simp]: "fit n [] = []"
  by (simp add: fit_def)

lemma fit_eq_Nil: "1 < n \<Longrightarrow> (fit n s = []) = (s = [])"
  by (auto simp: fit_def)

lemma set_fit: "set (fit n s) \<subseteq> set s"
  by (auto simp: fit_def dest: in_set_takeD)

text \<open>\<open>strncmp(s, p, strlen(p)) == 0\<close>.\<close>

definition has_prefix :: "string \<Rightarrow> string \<Rightarrow> bool" where
  "has_prefix p s = (take (length p) s = p)"

lemma has_prefix_iff: "has_prefix p s \<longleftrightarrow> (\<exists>t. s = p @ t)"
  unfolding has_prefix_def by (metis append_eq_conv_conj append_take_drop_id)

text \<open>\<open>strchr(s, c)\<close>: the text before the first \<open>c\<close> and the text from it on, if there is one.\<close>

fun split_at :: "char \<Rightarrow> string \<Rightarrow> (string \<times> string) option" where
  "split_at c [] = None"
| "split_at c (x # xs) =
     (if x = c then Some ([], xs)
      else (case split_at c xs of None \<Rightarrow> None | Some (a, b) \<Rightarrow> Some (x # a, b)))"

lemma split_at_append: "c \<notin> set a \<Longrightarrow> split_at c (a @ c # b) = Some (a, b)"
  by (induction a) auto

lemma split_at_None: "(split_at c s = None) = (c \<notin> set s)"
  by (induction s) (auto split: option.splits)

lemma split_at_Some: "split_at c s = Some (a, b) \<Longrightarrow> s = a @ c # b \<and> c \<notin> set a"
  by (induction s arbitrary: a b) (auto split: if_splits option.splits)

section \<open>Reading lines\<close>

abbreviation (input) NEWLINE :: char where "NEWLINE \<equiv> CHR 0x0A"

text \<open>
  \<open>fgets(line, n + 1, fh)\<close>: up to \<open>n\<close> characters, not beyond a newline, and what is left of the file.
\<close>

definition fgets :: "nat \<Rightarrow> string \<Rightarrow> string \<times> string" where
  "fgets n s =
     (let l = takeWhile (\<lambda>c. c \<noteq> NEWLINE) s;
          k = (if length l < n \<and> length l < length s then Suc (length l) else n)
      in (take k s, drop k s))"

lemma fgets_shorter: "fgets n s = (l, r) \<Longrightarrow> 0 < n \<Longrightarrow> s \<noteq> [] \<Longrightarrow> length r < length s"
  by (auto simp: fgets_def Let_def split: if_splits)

lemma fgets_line:
  assumes "\<forall>c\<in>set l. c \<noteq> NEWLINE" "length l < n"
  shows "fgets n (l @ NEWLINE # rest) = (l @ [NEWLINE], rest)"
proof -
  have "takeWhile (\<lambda>c. c \<noteq> NEWLINE) (l @ NEWLINE # rest) = l" using assms(1) by (simp add: takeWhile_append)
  then show ?thesis using assms(2) by (simp add: fgets_def Let_def)
qed

section \<open>Printing numbers\<close>

text \<open>The directives \<open>%u\<close>, \<open>%lu\<close> on an unsigned value, \<open>%d\<close>, \<open>%ld\<close>, \<open>%lld\<close> on a signed one.\<close>

definition digit_char :: "nat \<Rightarrow> char" where
  "digit_char d = char_of (48 + d)"

fun dec_string :: "nat \<Rightarrow> string" where
  "dec_string n = (if n < 10 then [digit_char n] else dec_string (n div 10) @ [digit_char (n mod 10)])"

declare dec_string.simps [simp del]

definition int_string :: "int \<Rightarrow> string" where
  "int_string i = (if i < 0 then CHR ''-'' # dec_string (nat (- i)) else dec_string (nat i))"

text \<open>The directive \<open>%02x\<close> on a byte.\<close>

definition hex_char :: "nat \<Rightarrow> char" where
  "hex_char d = (if d < 10 then char_of (48 + d) else char_of (87 + d))"

definition hex2 :: "byte \<Rightarrow> string" where
  "hex2 b = [hex_char (unat b div 16), hex_char (unat b mod 16)]"

section \<open>Reading numbers\<close>

definition is_digit :: "char \<Rightarrow> bool" where
  "is_digit c = (48 \<le> (of_char c :: nat) \<and> (of_char c :: nat) \<le> 57)"

text \<open>\<open>isspace\<close> in the C locale.\<close>

definition is_space :: "char \<Rightarrow> bool" where
  "is_space c = ((of_char c :: nat) = 32 \<or> (9 \<le> (of_char c :: nat) \<and> (of_char c :: nat) \<le> 13))"

definition digit_val :: "char \<Rightarrow> nat" where
  "digit_val c = of_char c - 48"

fun digits_val :: "nat \<Rightarrow> string \<Rightarrow> nat" where
  "digits_val acc [] = acc"
| "digits_val acc (c # cs) = digits_val (acc * 10 + digit_val c) cs"

text \<open>
  The common front of \<open>strtol(s, &end, 10)\<close> and its relatives: white space, an optional sign,
  the longest run of digits. The result is the sign, the digits and what follows them; no
  digits means no conversion (\<open>end == s\<close>).
\<close>

definition scan_number :: "string \<Rightarrow> bool \<times> string \<times> string" where
  "scan_number s =
     (let t = dropWhile is_space s;
          neg = (case t of c # _ \<Rightarrow> c = CHR ''-'' | [] \<Rightarrow> False);
          u = (case t of c # r \<Rightarrow> if c = CHR ''-'' \<or> c = CHR ''+'' then r else t | [] \<Rightarrow> t)
      in (neg, takeWhile is_digit u, dropWhile is_digit u))"

text \<open>\<open>strtoul\<close>: saturates at \<open>ULONG_MAX\<close>; a minus sign negates modulo 2^64.\<close>

definition strtoul :: "string \<Rightarrow> nat" where
  "strtoul s =
     (case scan_number s of (neg, ds, _) \<Rightarrow>
        let v = digits_val 0 ds in
        if v > ULONG_MAX then ULONG_MAX
        else if neg then (2 ^ 64 - v) mod 2 ^ 64 else v)"

text \<open>\<open>strtol\<close> and \<open>strtoll\<close>: clamp to the range of a 64-bit signed integer.\<close>

definition strtol :: "string \<Rightarrow> int" where
  "strtol s =
     (case scan_number s of (neg, ds, _) \<Rightarrow>
        let v = (if neg then - int (digits_val 0 ds) else int (digits_val 0 ds)) in
        if v > LONG_MAX then LONG_MAX else if v < LONG_MIN then LONG_MIN else v)"

text \<open>Whether \<open>end == s\<close> after the call.\<close>

definition no_conversion :: "string \<Rightarrow> bool" where
  "no_conversion s = (case scan_number s of (_, ds, _) \<Rightarrow> ds = [])"

section \<open>Lemmas on numbers as text\<close>

lemma of_char_digit_char: "d < 10 \<Longrightarrow> (of_char (digit_char d) :: nat) = 48 + d"
  by (simp add: digit_char_def)

lemma is_digit_digit_char [simp]: "d < 10 \<Longrightarrow> is_digit (digit_char d)"
  by (simp add: is_digit_def of_char_digit_char)

lemma digit_val_digit_char [simp]: "d < 10 \<Longrightarrow> digit_val (digit_char d) = d"
  by (simp add: digit_val_def of_char_digit_char)

lemma dec_string_not_Nil [simp]: "dec_string n \<noteq> []"
  by (subst dec_string.simps) simp

lemma dec_string_digits: "c \<in> set (dec_string n) \<Longrightarrow> is_digit c"
proof (induction n rule: dec_string.induct)
  case (1 n)
  then show ?case
    by (subst (asm) dec_string.simps) (auto split: if_splits)
qed

lemma digits_val_append: "digits_val acc (a @ b) = digits_val (digits_val acc a) b"
  by (induction a arbitrary: acc) auto

lemma digits_val_dec_string: "digits_val 0 (dec_string n) = n"
proof (induction n rule: dec_string.induct)
  case (1 n)
  show ?case
  proof (cases "n < 10")
    case True
    then show ?thesis by (subst dec_string.simps) simp
  next
    case False
    with "1.IH" show ?thesis
      by (subst dec_string.simps) (simp add: digits_val_append)
  qed
qed

lemma takeWhile_digits: "(\<And>c. c \<in> set a \<Longrightarrow> is_digit c) \<Longrightarrow> takeWhile is_digit a = a"
  by simp

lemma dropWhile_digits: "(\<And>c. c \<in> set a \<Longrightarrow> is_digit c) \<Longrightarrow> dropWhile is_digit a = []"
  by simp

lemma digit_not_space: "is_digit c \<Longrightarrow> \<not> is_space c"
  by (auto simp: is_digit_def is_space_def)

lemma digit_not_sign: "is_digit c \<Longrightarrow> c \<noteq> CHR ''-'' \<and> c \<noteq> CHR ''+''"
  by (auto simp: is_digit_def)

lemma digit_plain: "is_digit c \<Longrightarrow> c \<noteq> CHR '' '' \<and> c \<noteq> CHR ''='' \<and> c \<noteq> CHR 0x0A"
  by (auto simp: is_digit_def)

lemma dec_string_Cons: "\<exists>c cs. dec_string n = c # cs \<and> is_digit c"
proof -
  obtain c cs where "dec_string n = c # cs"
    by (meson dec_string_not_Nil neq_Nil_conv)
  moreover from this have "is_digit c"
    using dec_string_digits[of c n] by simp
  ultimately show ?thesis by blast
qed

lemma scan_number_dec: "scan_number (dec_string n) = (False, dec_string n, [])"
proof -
  obtain c cs where c: "dec_string n = c # cs" "is_digit c"
    using dec_string_Cons by blast
  then have "dropWhile is_space (dec_string n) = dec_string n"
    by (simp add: digit_not_space)
  moreover have "takeWhile is_digit (dec_string n) = dec_string n"
    by (rule takeWhile_digits) (rule dec_string_digits)
  moreover have "dropWhile is_digit (dec_string n) = []"
    by (rule dropWhile_digits) (rule dec_string_digits)
  ultimately show ?thesis
    using c digit_not_sign[of c] by (simp add: scan_number_def Let_def)
qed

lemma scan_number_neg: "scan_number (CHR ''-'' # dec_string n) = (True, dec_string n, [])"
proof -
  have "takeWhile is_digit (dec_string n) = dec_string n"
    by (rule takeWhile_digits) (rule dec_string_digits)
  moreover have "dropWhile is_digit (dec_string n) = []"
    by (rule dropWhile_digits) (rule dec_string_digits)
  ultimately show ?thesis
    by (simp add: scan_number_def Let_def is_space_def)
qed

lemma strtoul_dec_string: "n \<le> ULONG_MAX \<Longrightarrow> strtoul (dec_string n) = n"
  by (simp add: strtoul_def scan_number_dec digits_val_dec_string)

lemma strtol_int_string: "LONG_MIN \<le> i \<Longrightarrow> i \<le> LONG_MAX \<Longrightarrow> strtol (int_string i) = i"
  by (cases "i < 0")
    (auto simp: strtol_def int_string_def scan_number_dec scan_number_neg digits_val_dec_string)

lemma strtoul_le: "strtoul s \<le> ULONG_MAX"
  by (auto simp: strtoul_def Let_def split: prod.splits)

lemma int_string_plain:
  "c \<in> set (int_string i) \<Longrightarrow> c \<noteq> CHR '' '' \<and> c \<noteq> CHR ''='' \<and> c \<noteq> CHR 0x0A"
  using digit_plain dec_string_digits by (fastforce simp: int_string_def split: if_splits)

lemma dec_string_plain:
  "c \<in> set (dec_string n) \<Longrightarrow> c \<noteq> CHR '' '' \<and> c \<noteq> CHR ''='' \<and> c \<noteq> CHR 0x0A"
  using digit_plain dec_string_digits by blast

lemma dec_string_length: "v < 10 ^ Suc k \<Longrightarrow> length (dec_string v) \<le> Suc k"
proof (induction k arbitrary: v)
  case 0
  then show ?case by (simp add: dec_string.simps)
next
  case (Suc k)
  have "v div 10 < 10 ^ Suc k" using Suc.prems by (intro less_mult_imp_div_less) (simp add: mult.commute)
  then show ?case using Suc.IH by (subst dec_string.simps) simp
qed

section \<open>Big-endian byte strings\<close>

text \<open>
  The reference meaning of a byte string as a number: unsigned, and as two's complement.
\<close>

definition be_nat :: "byte list \<Rightarrow> nat" where
  "be_nat bs = foldl (\<lambda>a b. a * 256 + unat b) 0 bs"

lemma foldl_be: "foldl (\<lambda>a b. a * 256 + unat (b::byte)) x bs = x * 256 ^ length bs + be_nat bs"
proof (induction bs arbitrary: x)
  case Nil
  then show ?case by (simp add: be_nat_def)
next
  case (Cons b bs)
  have "be_nat (b # bs) = unat b * 256 ^ length bs + be_nat bs"
    using Cons.IH[of "unat b"] by (simp add: be_nat_def)
  then show ?case
    using Cons.IH[of "x * 256 + unat b"] by (simp add: algebra_simps)
qed

lemma be_nat_Nil [simp]: "be_nat [] = 0"
  by (simp add: be_nat_def)

lemma be_nat_Cons: "be_nat (b # bs) = unat b * 256 ^ length bs + be_nat bs"
  using foldl_be[of "unat b" bs] by (simp add: be_nat_def)

lemma unat_byte_less: "unat (b :: byte) < 256"
  using unsigned_less[of b, where 'a = nat] by simp

lemma be_nat_bound: "be_nat bs < 256 ^ length bs"
proof (induction bs)
  case Nil
  then show ?case by simp
next
  case (Cons b bs)
  have "(unat b + 1) * 256 ^ length bs \<le> 256 * (256 ^ length bs :: nat)"
    using unat_byte_less[of b] by (intro mult_le_mono1) linarith
  moreover have "be_nat (b # bs) < (unat b + 1) * 256 ^ length bs"
    using Cons by (simp add: be_nat_Cons)
  ultimately show ?case by (simp add: less_le_trans)
qed

lemma byte_high_bit: "(b :: byte) AND 0x80 = 0 \<longleftrightarrow> unat b < 128"
proof -
  have "bit b 7 = bit (unat b) 7"
    by (simp only: bit_unsigned_iff) simp
  then have "bit b 7 = odd (unat b div 128)"
    by (simp add: bit_iff_odd[of "unat b"])
  moreover have "unat b div 128 = (if unat b < 128 then 0 else 1)"
    using unat_byte_less[of b] by (auto intro!: div_nat_eqI)
  ultimately show ?thesis
    using and_exp_eq_0_iff_not_bit[of b 7] by (simp split: if_splits)
qed

text \<open>Two's complement: a set top bit subtracts the weight of one more byte.\<close>

definition be_signed :: "byte list \<Rightarrow> int" where
  "be_signed bs = int (be_nat bs) - (if 128 \<le> unat (hd bs) then 256 ^ length bs else 0)"

lemma be_signed_bounds:
  assumes "bs \<noteq> []"
  shows "- (128 * 256 ^ (length bs - 1)) \<le> be_signed bs \<and> be_signed bs < 128 * 256 ^ (length bs - 1)"
proof -
  obtain b cs where bs: "bs = b # cs" using assms by (cases bs) auto
  define P :: int where "P = 256 ^ length cs"
  define u where "u = int (unat b)"
  define r where "r = int (be_nat cs)"
  have P: "256 ^ (length bs - 1) = P" by (simp add: bs P_def)
  have val: "be_signed bs = u * P + r - (if 128 \<le> u then 256 * P else 0)"
    by (simp add: be_signed_def bs be_nat_Cons u_def r_def P_def uint_nat del: of_nat_unat)
  have r: "0 \<le> r" "r < P"
    using be_nat_bound[of cs] by (simp_all add: r_def P_def)
  have u: "0 \<le> u" "u \<le> 255"
    using unsigned_less[of b, where 'a = int] by (simp_all add: u_def)
  define q where "q = u * P"
  have lo: "0 \<le> q \<and> q \<le> 127 * P" if "u < 128"
    unfolding q_def using that u r by (auto intro!: mult_right_mono mult_nonneg_nonneg)
  have hi: "128 * P \<le> q \<and> q \<le> 255 * P" if "128 \<le> u"
    unfolding q_def using that u r by (auto intro!: mult_right_mono)
  show ?thesis
    using r lo hi unfolding val P q_def[symmetric] by (cases "128 \<le> u") auto
qed

lemma power_256_mono: "k \<le> 7 \<Longrightarrow> (256::int) ^ k \<le> 72057594037927936"
  using power_increasing[of k 7 "256::int"] by simp

lemma mod_neg_pos: "x < 0 \<Longrightarrow> - m \<le> x \<Longrightarrow> x mod m = x + m" for x m :: int
  using mod_pos_pos_trivial[of "x + m" m] by simp

lemma shift_or_byte: "(push_bit 8 a OR ucast (b :: byte) :: u64) = a * 256 + ucast b"
proof -
  have "push_bit 8 a AND (ucast b :: u64) = 0"
    by (rule bit_eqI) (auto simp: bit_simps dest: bit_imp_le_length)
  then have "push_bit 8 a OR (ucast b :: u64) = push_bit 8 a + ucast b"
    by (simp add: disjunctive_add_eq_or)
  then show ?thesis by (simp add: push_bit_eq_mult)
qed

end
