(* ===== verification/Ring_Log.thy ===== *)
theory Ring_Log
  imports Sysmon_Prelude
begin

text \<open>
  The interface of a bounded history that sysmond keeps in two places: the recent traps of
  trapdecode.c and the packet loss samples of icmp.c. Both write into a fixed array at a head
  index that wraps. The locale states the contract in terms of the list of what is held,
  newest first, and derives what a run of writes leaves behind; the section before it holds
  the array facts with which both interpretations are discharged.
\<close>

section \<open>A fixed array with a wrapping head\<close>

definition ring_slot :: "nat \<Rightarrow> nat \<Rightarrow> nat \<Rightarrow> nat" where
  "ring_slot cap nxt age = (nxt + cap - 1 - age) mod cap"

definition ring_view :: "nat \<Rightarrow> 'e list \<Rightarrow> nat \<Rightarrow> nat \<Rightarrow> 'e list" where
  "ring_view cap arr nxt cnt = map (\<lambda>age. arr ! ring_slot cap nxt age) [0..<cnt]"

lemma ring_slot_less: "0 < cap \<Longrightarrow> ring_slot cap nxt age < cap"
  by (simp add: ring_slot_def)

lemma ring_slot_Suc:
  assumes "nxt < cap" "Suc age < cap"
  shows "ring_slot cap (Suc nxt mod cap) (Suc age) = ring_slot cap nxt age"
  using assms by (cases "Suc nxt = cap") (auto simp: ring_slot_def mod_if)

lemma ring_slot_0: "nxt < cap \<Longrightarrow> ring_slot cap (Suc nxt mod cap) 0 = nxt"
  by (cases "Suc nxt = cap") (auto simp: ring_slot_def)

lemma ring_slot_neq: "nxt < cap \<Longrightarrow> Suc age < cap \<Longrightarrow> ring_slot cap nxt age \<noteq> nxt"
  by (cases "age < nxt") (auto simp: ring_slot_def mod_if split: if_splits)

text \<open>One write, seen from outside: the new entry comes first and the oldest drops out of a full ring.\<close>

lemma ring_view_write:
  assumes "length arr = cap" "nxt < cap" "cnt \<le> cap"
  shows "ring_view cap (arr[nxt := e]) (Suc nxt mod cap) (if cnt < cap then Suc cnt else cnt) =
         take cap (e # ring_view cap arr nxt cnt)"
proof (rule nth_equalityI)
  show "length (ring_view cap (arr[nxt := e]) (Suc nxt mod cap) (if cnt < cap then Suc cnt else cnt)) =
        length (take cap (e # ring_view cap arr nxt cnt))"
    using assms by (simp add: ring_view_def)
next
  fix i
  assume "i < length (ring_view cap (arr[nxt := e]) (Suc nxt mod cap) (if cnt < cap then Suc cnt else cnt))"
  then have i: "i < (if cnt < cap then Suc cnt else cnt)" by (simp add: ring_view_def)
  show "ring_view cap (arr[nxt := e]) (Suc nxt mod cap) (if cnt < cap then Suc cnt else cnt) ! i =
        take cap (e # ring_view cap arr nxt cnt) ! i"
  proof (cases i)
    case 0
    then show ?thesis using assms i by (simp add: ring_view_def ring_slot_0 del: upt_Suc)
  next
    case (Suc j)
    with assms i have j: "j < cnt" "Suc j < cap" by (auto split: if_splits)
    with assms have "nxt \<noteq> ring_slot cap nxt j" by (metis ring_slot_neq)
    then show ?thesis using assms i j Suc
      by (simp add: ring_view_def ring_slot_Suc del: upt_Suc)
  qed
qed

section \<open>The contract of a bounded history\<close>

text \<open>
  \<open>stamp\<close> is what a write records: the entry may depend on the state, as a sequence number does.
\<close>

fun stamps :: "('a \<Rightarrow> 's \<Rightarrow> 'e) \<Rightarrow> ('a \<Rightarrow> 's \<Rightarrow> 's) \<Rightarrow> 'a list \<Rightarrow> 's \<Rightarrow> 'e list" where
  "stamps stamp add [] s = []"
| "stamps stamp add (a # as) s = stamp a s # stamps stamp add as (add a s)"

lemma length_stamps [simp]: "length (stamps stamp add as s) = length as"
  by (induction as arbitrary: s) simp_all

locale bounded_log =
  fixes cap :: nat
    and inv :: "'s \<Rightarrow> bool"
    and held :: "'s \<Rightarrow> 'e list"
    and stamp :: "'a \<Rightarrow> 's \<Rightarrow> 'e"
    and add :: "'a \<Rightarrow> 's \<Rightarrow> 's"
  assumes inv_add: "inv s \<Longrightarrow> inv (add a s)"
    and held_add: "inv s \<Longrightarrow> held (add a s) = take cap (stamp a s # held s)"
    and held_cap: "inv s \<Longrightarrow> length (held s) \<le> cap"
begin

lemma inv_adds: "inv s \<Longrightarrow> inv (fold add as s)"
  by (induction as arbitrary: s) (simp_all add: inv_add)

lemma held_adds: "inv s \<Longrightarrow> held (fold add as s) = take cap (rev (stamps stamp add as s) @ held s)"
proof (induction as arbitrary: s)
  case Nil
  then show ?case by (simp add: held_cap)
next
  case (Cons a as)
  have "held (fold add (a # as) s) = take cap (rev (stamps stamp add as (add a s)) @ held (add a s))"
    using Cons.IH [OF inv_add [OF Cons.prems]] by simp
  also have "\<dots> = take cap (rev (stamps stamp add as (add a s)) @ stamp a s # held s)"
    by (simp add: held_add [OF Cons.prems] min_def)
  finally show ?case by simp
qed

lemma held_count: "inv s \<Longrightarrow> length (held (fold add as s)) = min cap (length as + length (held s))"
  by (simp add: held_adds min.commute)

text \<open>The last \<open>cap\<close> writes are all there, in order; older ones are gone once enough were made.\<close>

lemma held_recent:
  "inv s \<Longrightarrow> cap \<le> length as \<Longrightarrow> held (fold add as s) = take cap (rev (stamps stamp add as s))"
  by (simp add: held_adds)

end

end
