(* ===== verification/Ber_Reader.thy ===== *)
theory Ber_Reader
  imports Sysmon_Prelude
begin

text \<open>
  The BER reader of \<^verbatim>\<open>src/trapdecode.c\<close>, shared by the trap decoder and the SNMP client:
  the cursor, \<open>snmp_ber_next\<close>, the two integer readers, the OID printer and the octet-string
  printer. Every access to the packet goes through \<open>ber_getbyte\<close>, whose result \<open>Fault\<close> stands
  for a read outside the buffer, so that \<open>never Fault\<close> is a statement about the guards of the
  code. \<open>Reject\<close> is the C function's FALSE.
\<close>

section \<open>Outcomes\<close>

datatype 'a outcome = Fault | Reject | Got 'a

fun and_then :: "'a outcome \<Rightarrow> ('a \<Rightarrow> 'b outcome) \<Rightarrow> 'b outcome" where
  "and_then Fault f = Fault"
| "and_then Reject f = Reject"
| "and_then (Got x) f = f x"

lemma and_then_Got: "and_then m f = Got y \<longleftrightarrow> (\<exists>x. m = Got x \<and> f x = Got y)"
  by (cases m) auto

lemma and_then_Fault: "and_then m f = Fault \<longleftrightarrow> m = Fault \<or> (\<exists>x. m = Got x \<and> f x = Fault)"
  by (cases m) auto

section \<open>The cursor\<close>

text \<open>
  \<open>struct ber_cursor\<close>: the list \<open>cbuf\<close> holds the \<open>len\<close> bytes the cursor may look at, so the
  field \<open>len\<close> of the struct is \<open>length cbuf\<close>.
\<close>

record ber_cursor =
  cbuf :: "byte list"
  cpos :: nat

definition snmp_ber_open :: "byte list \<Rightarrow> ber_cursor" where
  "snmp_ber_open buf = \<lparr>cbuf = buf, cpos = 0\<rparr>"

definition remaining :: "ber_cursor \<Rightarrow> nat" where
  "remaining c = length (cbuf c) - cpos c"

text \<open>\<open>c->buf[c->pos++]\<close>\<close>

definition ber_getbyte :: "ber_cursor \<Rightarrow> (byte \<times> ber_cursor) outcome" where
  "ber_getbyte c =
     (if cpos c < length (cbuf c) then Got (cbuf c ! cpos c, c\<lparr>cpos := cpos c + 1\<rparr>) else Fault)"

text \<open>The loop that collects the bytes of a long-form length.\<close>

fun ber_len_bytes :: "nat \<Rightarrow> u64 \<Rightarrow> ber_cursor \<Rightarrow> (u64 \<times> ber_cursor) outcome" where
  "ber_len_bytes 0 l c = Got (l, c)"
| "ber_len_bytes (Suc n) l c =
     and_then (ber_getbyte c) (\<lambda>(b, c). ber_len_bytes n (push_bit 8 l OR ucast b) c)"

definition snmp_ber_next :: "ber_cursor \<Rightarrow> (byte \<times> byte list \<times> ber_cursor) outcome" where
  "snmp_ber_next c =
     (if cpos c \<ge> length (cbuf c) then Reject else
      and_then (ber_getbyte c) (\<lambda>(t, c).
      if t AND 0x1f = 0x1f then Reject else
      if cpos c \<ge> length (cbuf c) then Reject else
      and_then (ber_getbyte c) (\<lambda>(b, c).
      and_then
        (if b AND 0x80 \<noteq> 0 then
           (let n = unat (b AND 0x7f) in
            if n = 0 \<or> n > 4 then Reject
            else if cpos c + n > length (cbuf c) then Reject
            else ber_len_bytes n 0 c)
         else Got (ucast b, c))
        (\<lambda>(l, c).
          if unat l > length (cbuf c) - cpos c then Reject
          else Got (t, take (unat l) (drop (cpos c) (cbuf c)), c\<lparr>cpos := cpos c + unat l\<rparr>)))))"

section \<open>Integers\<close>

text \<open>The accumulation \<open>acc = (acc << 8) | v[i]\<close>.\<close>

fun be_acc :: "u64 \<Rightarrow> byte list \<Rightarrow> u64" where
  "be_acc acc [] = acc"
| "be_acc acc (b # bs) = be_acc (push_bit 8 acc OR ucast b) bs"

definition snmp_ber_int :: "byte list \<Rightarrow> int" where
  "snmp_ber_int v =
     (if length v = 0 \<or> length v > 8 then 0
      else let acc = be_acc (if hd v AND 0x80 \<noteq> 0 then - 1 else 0) v
           in if unat acc \<le> nat LONG_MAX then uint acc else - uint (NOT acc) - 1)"

definition snmp_ber_uint :: "byte list \<Rightarrow> u64" where
  "snmp_ber_uint v = (if length v = 0 \<or> length v > 8 then 0 else be_acc 0 v)"

section \<open>Object identifiers and octet strings as text\<close>

abbreviation (input) TRAP_MAX_SUBIDS :: nat where "TRAP_MAX_SUBIDS \<equiv> 64"

text \<open>
  The loop of \<open>snmp_ber_oid_str\<close> over the bytes after the first, with its variables \<open>sub\<close>,
  \<open>shifted\<close>, \<open>subids\<close> and the text written so far (\<open>used\<close> is its length).
\<close>

fun oid_loop :: "nat \<Rightarrow> byte list \<Rightarrow> u64 \<Rightarrow> nat \<Rightarrow> nat \<Rightarrow> string \<Rightarrow> string" where
  "oid_loop outlen [] sub shifted subids out = out"
| "oid_loop outlen (b # bs) sub shifted subids out =
     (if shifted > 4 then oid_loop outlen bs 0 0 subids out
      else
        let sub = push_bit 7 sub OR (ucast b AND 0x7f); shifted = shifted + 1 in
        if b AND 0x80 \<noteq> 0 then oid_loop outlen bs sub shifted subids out
        else if subids + 1 > TRAP_MAX_SUBIDS then out
        else
          let part = fit 24 (CHR ''.'' # dec_string (unat sub)) in
          if length out + length part + 1 \<ge> outlen then out
          else oid_loop outlen bs 0 0 (subids + 1) (out @ part))"

definition oid_head :: "byte \<Rightarrow> string" where
  "oid_head b =
     (if unat b \<ge> 80 then ''.2.'' @ dec_string (unat b - 80)
      else ''.'' @ dec_string (unat b div 40) @ ''.'' @ dec_string (unat b mod 40))"

definition snmp_ber_oid_str :: "byte list \<Rightarrow> nat \<Rightarrow> string" where
  "snmp_ber_oid_str v outlen =
     (if outlen = 0 then []
      else case v of [] \<Rightarrow> [] | b # bs \<Rightarrow> oid_loop outlen bs 0 0 0 (fit outlen (oid_head b)))"

definition printable_byte :: "byte \<Rightarrow> bool" where
  "printable_byte b = (b = 9 \<or> b = 10 \<or> b = 13 \<or> (0x20 \<le> unat b \<and> unat b \<le> 0x7e))"

text \<open>
  \<open>ber_string_str\<close>: text when every byte is printable (control bytes as spaces), hex otherwise.
  The first loop stops at \<open>used + 1 < outlen\<close>, the second writes two digits while
  \<open>used + 3 < outlen\<close>.
\<close>

fun hex_loop :: "nat \<Rightarrow> byte list \<Rightarrow> string \<Rightarrow> string" where
  "hex_loop outlen [] out = out"
| "hex_loop outlen (b # bs) out =
     (if length out + 3 < outlen then hex_loop outlen bs (out @ hex2 b) else out)"

definition ber_string_str :: "byte list \<Rightarrow> nat \<Rightarrow> string" where
  "ber_string_str v outlen =
     (if outlen = 0 then []
      else if list_all printable_byte v
      then map (\<lambda>b. if unat b < 0x20 then CHR '' '' else chr b) (take (outlen - 1) v)
      else hex_loop outlen v [])"

section \<open>Reading never leaves the buffer\<close>

lemma ber_getbyte_Got:
  "ber_getbyte c = Got (b, c') \<longleftrightarrow>
     cpos c < length (cbuf c) \<and> b = cbuf c ! cpos c \<and> c' = c\<lparr>cpos := cpos c + 1\<rparr>"
  by (auto simp: ber_getbyte_def)

lemma ber_getbyte_Fault: "ber_getbyte c = Fault \<longleftrightarrow> length (cbuf c) \<le> cpos c"
  by (auto simp: ber_getbyte_def)

lemma ber_getbyte_not_Reject [simp]: "ber_getbyte c \<noteq> Reject"
  by (simp add: ber_getbyte_def)

lemma ber_len_bytes_Got:
  "ber_len_bytes n l c = Got (l', c') \<Longrightarrow> c' = c\<lparr>cpos := cpos c + n\<rparr>"
proof (induction n arbitrary: l c)
  case 0
  then show ?case by simp
next
  case (Suc n)
  from Suc.prems obtain b :: byte where
    "ber_len_bytes n (push_bit 8 l OR ucast b) (c\<lparr>cpos := cpos c + 1\<rparr>) = Got (l', c')"
    by (auto simp: and_then_Got ber_getbyte_Got)
  from Suc.IH[OF this] show ?case by simp
qed

lemma ber_len_bytes_runs:
  "cpos c + n \<le> length (cbuf c) \<Longrightarrow>
     ber_len_bytes n l c = Got (be_acc l (take n (drop (cpos c) (cbuf c))), c\<lparr>cpos := cpos c + n\<rparr>)"
proof (induction n arbitrary: l c)
  case 0
  then show ?case by simp
next
  case (Suc n)
  then have "ber_getbyte c = Got (cbuf c ! cpos c, c\<lparr>cpos := cpos c + 1\<rparr>)"
    by (simp add: ber_getbyte_def)
  moreover have "take (Suc n) (drop (cpos c) (cbuf c))
      = cbuf c ! cpos c # take n (drop (cpos c + 1) (cbuf c))"
    using Suc.prems by (simp add: take_Suc_conv_app_nth Cons_nth_drop_Suc[symmetric])
  ultimately show ?case
    using Suc by simp
qed

lemma snmp_ber_next_no_Fault: "snmp_ber_next c \<noteq> Fault"
  by (auto simp: snmp_ber_next_def and_then_Fault ber_getbyte_Fault ber_getbyte_Got
      ber_len_bytes_runs Let_def split: if_splits)

lemma snmp_ber_next_Got:
  assumes "snmp_ber_next c = Got (t, v, c')"
  shows "cbuf c' = cbuf c" and "cpos c + 2 + length v \<le> cpos c'"
    and "cpos c' \<le> length (cbuf c)" and "v = take (length v) (drop (cpos c' - length v) (cbuf c))"
    and "t AND 0x1f \<noteq> 0x1f"
  using assms
  by (auto simp: snmp_ber_next_def and_then_Got ber_getbyte_Got Let_def
      dest!: ber_len_bytes_Got split: if_splits)

section \<open>What the integer readers compute\<close>

lemma be_acc_eq: "be_acc acc bs = acc * 256 ^ length bs + of_nat (be_nat bs)"
proof (induction bs arbitrary: acc)
  case Nil
  then show ?case by simp
next
  case (Cons b bs)
  have "(ucast b :: u64) = of_nat (unat b)"
    by simp
  then show ?case
    using Cons.IH[of "acc * 256 + ucast b"]
    by (simp add: shift_or_byte be_nat_Cons algebra_simps)
qed


lemma snmp_ber_int_eq:
  assumes "v \<noteq> []" and "length v \<le> 8"
  shows "snmp_ber_int v = be_signed v"
proof -
  define x where "x = be_signed v"
  define acc :: u64 where "acc = be_acc (if hd v AND 0x80 \<noteq> 0 then - 1 else 0) v"
  have acc: "acc = word_of_int x"
    by (auto simp: acc_def x_def be_acc_eq be_signed_def byte_high_bit)
  have "(256::int) ^ (length v - 1) \<le> 72057594037927936"
    using assms by (intro power_256_mono) auto
  then have range: "- 9223372036854775808 \<le> x \<and> x < 9223372036854775808"
    using be_signed_bounds[OF assms(1)] unfolding x_def by linarith
  have u: "uint acc = (if 0 \<le> x then x else x + 18446744073709551616)"
    using range by (auto simp: acc uint_word_of_int mod_neg_pos)
  have "0 \<le> uint acc" and "uint acc < 18446744073709551616"
    using unsigned_less[of acc, where 'a = int] by simp_all
  then have m: "(- uint acc - 1) mod 18446744073709551616 = 18446744073709551615 - uint acc"
    by (subst mod_neg_pos) linarith+
  have n: "uint (NOT acc) = 18446744073709551615 - uint acc"
    using unsigned_not_eq[of acc, where 'a = int] m
    by (simp add: take_bit_eq_mod not_eq_complement)
  have le: "unat acc \<le> nat LONG_MAX \<longleftrightarrow> uint acc \<le> LONG_MAX"
    by (simp add: uint_nat del: of_nat_unat)
  have "snmp_ber_int v = (if uint acc \<le> LONG_MAX then uint acc else - uint (NOT acc) - 1)"
    using assms le by (simp only: snmp_ber_int_def Let_def acc_def[symmetric]) simp
  also have "\<dots> = x"
    unfolding n using u range by (auto split: if_splits)
  finally show ?thesis by (simp add: x_def)
qed


lemma snmp_ber_uint_eq:
  assumes "v \<noteq> []" and "length v \<le> 8"
  shows "unat (snmp_ber_uint v) = be_nat v"
proof -
  have "be_nat v < 256 ^ 8"
    using be_nat_bound[of v] assms(2) by (meson less_le_trans power_increasing one_le_numeral)
  then show ?thesis
    using assms by (simp add: snmp_ber_uint_def be_acc_eq unat_of_nat)
qed

section \<open>Bounds of the printers\<close>

lemma oid_loop_length: "length out < outlen \<Longrightarrow> length (oid_loop outlen bs sub sh ids out) < outlen"
  by (induction outlen bs sub sh ids out rule: oid_loop.induct) (auto simp: Let_def)

definition oid_char :: "char \<Rightarrow> bool" where
  "oid_char c = (c = CHR ''.'' \<or> is_digit c)"

lemma oid_char_dec: "c \<in> set (dec_string n) \<Longrightarrow> oid_char c"
  by (simp add: oid_char_def dec_string_digits)

lemma oid_loop_chars:
  "\<forall>c \<in> set out. oid_char c \<Longrightarrow> c \<in> set (oid_loop outlen bs sub sh ids out) \<Longrightarrow> oid_char c"
proof (induction outlen bs sub sh ids out rule: oid_loop.induct)
  case (1 outlen sub shifted subids out)
  then show ?case by simp
next
  case (2 outlen b bs sub shifted subids out)
  have "\<forall>c \<in> set (fit 24 (CHR ''.'' # dec_string n)). oid_char c" for n
    using set_fit[of 24 "CHR ''.'' # dec_string n"] oid_char_dec by (force simp: oid_char_def)
  with 2 show ?case by (auto simp: Let_def ball_Un split: if_splits)
qed

lemma oid_head_chars: "c \<in> set (oid_head b) \<Longrightarrow> oid_char c"
  by (auto simp: oid_head_def oid_char_dec split: if_splits) (auto simp: oid_char_def is_digit_def)

lemma snmp_ber_oid_str_length: "0 < outlen \<Longrightarrow> length (snmp_ber_oid_str v outlen) < outlen"
  by (cases v) (auto simp: snmp_ber_oid_str_def intro!: oid_loop_length length_fit)

lemma snmp_ber_oid_str_chars: "c \<in> set (snmp_ber_oid_str v outlen) \<Longrightarrow> oid_char c"
proof -
  have "\<forall>c \<in> set (fit outlen (oid_head b)). oid_char c" for b
    using set_fit oid_head_chars by blast
  then show "c \<in> set (snmp_ber_oid_str v outlen) \<Longrightarrow> oid_char c"
    by (auto simp: snmp_ber_oid_str_def split: if_splits list.splits dest: oid_loop_chars[rotated])
qed

text \<open>A character that is safe in a log line, an XML document or a mail: graphic ASCII or a space.\<close>

definition text_char :: "char \<Rightarrow> bool" where
  "text_char c = (0x20 \<le> (of_char c :: nat) \<and> (of_char c :: nat) \<le> 0x7e)"

lemma text_char_digit: "is_digit c \<Longrightarrow> text_char c"
  by (simp add: text_char_def is_digit_def)

lemma text_char_chr: "0x20 \<le> unat b \<Longrightarrow> unat b \<le> 0x7e \<Longrightarrow> text_char (chr b)"
  by (simp add: text_char_def chr_def)

lemma text_char_hex: "d < 16 \<Longrightarrow> text_char (hex_char d)"
  by (simp add: text_char_def hex_char_def)

lemma text_char_hex2: "c \<in> set (hex2 b) \<Longrightarrow> text_char c"
  using unat_byte_less[of b] by (auto simp: hex2_def intro!: text_char_hex)

lemma hex_loop_length: "length out < outlen \<Longrightarrow> length (hex_loop outlen bs out) < outlen"
  by (induction bs arbitrary: out) (auto simp: hex2_def)

lemma hex_loop_chars: "\<forall>c \<in> set out. text_char c \<Longrightarrow> c \<in> set (hex_loop outlen bs out) \<Longrightarrow> text_char c"
proof (induction bs arbitrary: out)
  case Nil
  then show ?case by simp
next
  case (Cons b bs)
  then have "\<forall>c \<in> set (out @ hex2 b). text_char c"
    using text_char_hex2 by auto
  with Cons.IH[of "out @ hex2 b"] Cons.prems show ?case by (simp split: if_splits)
qed

lemma ber_string_str_length: "0 < outlen \<Longrightarrow> length (ber_string_str v outlen) < outlen"
  by (auto simp: ber_string_str_def intro: hex_loop_length)

lemma ber_string_str_chars: "c \<in> set (ber_string_str v outlen) \<Longrightarrow> text_char c"
proof -
  have space: "text_char CHR '' ''"
    by (simp add: text_char_def)
  have byte: "text_char (chr b)" if "printable_byte b" "\<not> unat b < 0x20" for b
    using that by (auto simp: printable_byte_def intro!: text_char_chr)
  show "c \<in> set (ber_string_str v outlen) \<Longrightarrow> text_char c"
    using space byte hex_loop_chars[of "[]" c outlen v]
    by (auto simp: ber_string_str_def list_all_iff split: if_splits dest!: in_set_takeD)
qed

section \<open>Reading back a well-formed element\<close>

text \<open>
  The definite-length form the SNMP writer produces: one length byte below 128, else
  \<open>0x82\<close> and two bytes.
\<close>

definition tlv_header :: "byte \<Rightarrow> nat \<Rightarrow> byte list" where
  "tlv_header t n =
     (if n < 128 then [t, of_nat n] else [t, 0x82, of_nat (n div 256), of_nat (n mod 256)])"

definition tlv :: "byte \<Rightarrow> byte list \<Rightarrow> byte list" where
  "tlv t v = tlv_header t (length v) @ v"

definition ctail :: "ber_cursor \<Rightarrow> byte list" where
  "ctail c = drop (cpos c) (cbuf c)"

abbreviation advance :: "ber_cursor \<Rightarrow> nat \<Rightarrow> ber_cursor" where
  "advance c n \<equiv> c\<lparr>cpos := cpos c + n\<rparr>"

lemma ctail_open [simp]: "ctail (snmp_ber_open b) = b"
  by (simp add: ctail_def snmp_ber_open_def)

lemma ctail_advance: "ctail (advance c n) = drop n (ctail c)"
  by (simp add: ctail_def add.commute)

lemma length_ctail: "length (ctail c) = length (cbuf c) - cpos c"
  by (simp add: ctail_def)

lemma ber_getbyte_ctail: "ctail c = b # bs \<Longrightarrow> ber_getbyte c = Got (b, advance c 1)"
proof -
  assume *: "ctail c = b # bs"
  then have "cpos c < length (cbuf c)"
    using length_ctail[of c] by simp
  moreover from this * have "cbuf c ! cpos c = b"
    by (simp add: ctail_def nth_via_drop)
  ultimately show ?thesis by (simp add: ber_getbyte_def)
qed

lemma unat_of_nat_byte: "n < 256 \<Longrightarrow> unat (of_nat n :: byte) = n"
  by (simp add: unat_of_nat)

lemma ucast_of_nat_byte: "n < 256 \<Longrightarrow> (ucast (of_nat n :: byte) :: u64) = of_nat n"
  by (metis of_nat_unat unat_of_nat_byte)

lemma snmp_ber_next_tlv:
  assumes "ctail c = tlv t v @ rest" and "t AND 0x1f \<noteq> 0x1f" and "length v < 65536"
  shows "snmp_ber_next c = Got (t, v, advance c (length (tlv t v)))"
proof (cases "length v < 128")
  case True
  let ?b = "of_nat (length v) :: byte"
  have tail: "ctail c = t # ?b # v @ rest"
    using assms(1) True by (simp add: tlv_def tlv_header_def)
  have len: "cpos c + 2 + length v \<le> length (cbuf c)"
    using arg_cong[OF tail, of length] length_ctail[of c] by simp
  have "ber_getbyte c = Got (t, advance c 1)"
    using tail by (rule ber_getbyte_ctail)
  moreover have "ber_getbyte (advance c 1) = Got (?b, advance c 2)"
    using ber_getbyte_ctail[of "advance c 1" ?b "v @ rest"] tail ctail_advance[of c 1]
    by (simp add: numeral_2_eq_2)
  moreover have "?b AND 0x80 = 0"
    using True by (simp add: byte_high_bit unat_of_nat_byte)
  moreover have "unat (ucast ?b :: u64) = length v"
    using True by (simp add: ucast_of_nat_byte unat_of_nat)
  moreover have "take (length v) (drop (cpos c + 2) (cbuf c)) = v"
    using tail ctail_advance[of c 2] by (simp add: ctail_def numeral_2_eq_2)
  ultimately show ?thesis
    using len assms(2) True by (simp add: snmp_ber_next_def tlv_def tlv_header_def)
next
  case False
  let ?hi = "of_nat (length v div 256) :: byte" and ?lo = "of_nat (length v mod 256) :: byte"
  have tail: "ctail c = t # 0x82 # ?hi # ?lo # v @ rest"
    using assms(1) False by (simp add: tlv_def tlv_header_def)
  have len: "cpos c + 4 + length v \<le> length (cbuf c)"
    using arg_cong[OF tail, of length] length_ctail[of c] by simp
  have "ber_getbyte c = Got (t, advance c 1)"
    using tail by (rule ber_getbyte_ctail)
  moreover have "ber_getbyte (advance c 1) = Got (0x82, advance c 2)"
    using ber_getbyte_ctail[of "advance c 1"] tail ctail_advance[of c 1]
    by (simp add: numeral_2_eq_2)
  moreover have "ber_len_bytes 2 0 (advance c 2) = Got (of_nat (length v), advance c 4)"
  proof -
    have "take 2 (drop (cpos c + 2) (cbuf c)) = [?hi, ?lo]"
      using tail ctail_advance[of c 2] by (simp add: ctail_def numeral_2_eq_2)
    moreover have "be_acc 0 [?hi, ?lo] = of_nat (length v)"
    proof -
      have "be_nat [?hi, ?lo] = length v"
        using assms(3) by (simp add: be_nat_Cons unat_of_nat_byte)
      then show ?thesis by (simp add: be_acc_eq)
    qed
    ultimately show ?thesis
      using ber_len_bytes_runs[of "advance c 2" 2 0] len by simp
  qed
  moreover have "unat (of_nat (length v) :: u64) = length v"
    using assms(3) by (simp add: unat_of_nat)
  moreover have "take (length v) (drop (cpos c + 4) (cbuf c)) = v"
    using tail ctail_advance[of c 4] by (simp add: ctail_def)
  ultimately show ?thesis
    using len assms(2) False by (simp add: snmp_ber_next_def tlv_def tlv_header_def Let_def)
qed

lemma ctail_after_tlv:
  "ctail c = tlv t v @ rest \<Longrightarrow> ctail (advance c (length (tlv t v))) = rest"
  by (simp add: ctail_advance)

section \<open>The interface to the decoders\<close>

text \<open>
  What the two decoders rely on: a reader never leaves the buffer, and an element it returns
  used up its payload and at least a tag and a length byte of what was left.
\<close>

fun tlv_run :: "('c \<Rightarrow> (byte \<times> byte list \<times> 'c) outcome) \<Rightarrow> nat \<Rightarrow> 'c \<Rightarrow> (byte \<times> byte list) list" where
  "tlv_run rd 0 c = []"
| "tlv_run rd (Suc n) c =
     (case rd c of Got (t, v, c') \<Rightarrow> (t, v) # tlv_run rd n c' | _ \<Rightarrow> [])"

locale tlv_reader =
  fixes read :: "'c \<Rightarrow> (byte \<times> byte list \<times> 'c) outcome"
    and left :: "'c \<Rightarrow> nat"
  assumes read_safe: "read c \<noteq> Fault"
    and read_consumes: "read c = Got (t, v, c') \<Longrightarrow> left c' + length v + 2 \<le> left c"
begin

lemma read_cases:
  obtains (reject) "read c = Reject" | (got) t v c' where "read c = Got (t, v, c')"
  using read_safe[of c] by (cases "read c") auto

lemma run_bounded: "2 * length (tlv_run read n c) + sum_list (map (length \<circ> snd) (tlv_run read n c)) \<le> left c"
proof (induction n arbitrary: c)
  case 0
  then show ?case by simp
next
  case (Suc n)
  show ?case
  proof (cases c rule: read_cases)
    case reject
    then show ?thesis by simp
  next
    case (got t v c')
    with Suc.IH[of c'] read_consumes[OF got] show ?thesis by simp
  qed
qed

end

interpretation ber: tlv_reader snmp_ber_next remaining
proof
  show "snmp_ber_next c \<noteq> Fault" for c
    by (rule snmp_ber_next_no_Fault)
  show "remaining c' + length v + 2 \<le> remaining c" if "snmp_ber_next c = Got (t, v, c')" for c t v c'
    using snmp_ber_next_Got(1,2,3)[OF that] by (simp add: remaining_def)
qed

end
