(* ===== verification/Trap_Decode.thy ===== *)
theory Trap_Decode
  imports Ber_Reader
begin

text \<open>
  The trap decoder of \<^verbatim>\<open>src/trapdecode.c\<close>: the tables of well-known names, the printer of one
  varbind value, the varbind loop, the classification and \<open>decode_snmp_trap\<close> itself, which
  turns any UDP payload into a \<open>trap_content\<close>. Character arrays of the struct are strings cut to
  the array's size with \<open>fit\<close>; an empty string is an array whose first byte is NUL.
\<close>

section \<open>Tags and tables\<close>

abbreviation (input) BER_INTEGER :: byte where "BER_INTEGER \<equiv> 0x02"
abbreviation (input) BER_OCTETSTR :: byte where "BER_OCTETSTR \<equiv> 0x04"
abbreviation (input) BER_NULL :: byte where "BER_NULL \<equiv> 0x05"
abbreviation (input) BER_OID :: byte where "BER_OID \<equiv> 0x06"
abbreviation (input) BER_SEQUENCE :: byte where "BER_SEQUENCE \<equiv> 0x30"
abbreviation (input) BER_IPADDRESS :: byte where "BER_IPADDRESS \<equiv> 0x40"
abbreviation (input) BER_COUNTER32 :: byte where "BER_COUNTER32 \<equiv> 0x41"
abbreviation (input) BER_GAUGE32 :: byte where "BER_GAUGE32 \<equiv> 0x42"
abbreviation (input) BER_TIMETICKS :: byte where "BER_TIMETICKS \<equiv> 0x43"
abbreviation (input) BER_OPAQUE :: byte where "BER_OPAQUE \<equiv> 0x44"
abbreviation (input) BER_COUNTER64 :: byte where "BER_COUNTER64 \<equiv> 0x46"
abbreviation (input) BER_NOSUCHOBJECT :: byte where "BER_NOSUCHOBJECT \<equiv> 0x80"
abbreviation (input) BER_NOSUCHINSTANCE :: byte where "BER_NOSUCHINSTANCE \<equiv> 0x81"
abbreviation (input) BER_ENDOFMIBVIEW :: byte where "BER_ENDOFMIBVIEW \<equiv> 0x82"
abbreviation (input) PDU_TRAP_V1 :: byte where "PDU_TRAP_V1 \<equiv> 0xa4"
abbreviation (input) PDU_INFORM :: byte where "PDU_INFORM \<equiv> 0xa6"
abbreviation (input) PDU_TRAP_V2 :: byte where "PDU_TRAP_V2 \<equiv> 0xa7"

abbreviation (input) TRAP_MAX_VARBIND :: nat where "TRAP_MAX_VARBIND \<equiv> 16"
abbreviation (input) TRAP_OID_LEN :: nat where "TRAP_OID_LEN \<equiv> 192"
abbreviation (input) TRAP_VAL_LEN :: nat where "TRAP_VAL_LEN \<equiv> 160"
abbreviation (input) TRAP_NAME_LEN :: nat where "TRAP_NAME_LEN \<equiv> 48"
abbreviation (input) IP_ADDR_STR_SIZE :: nat where "IP_ADDR_STR_SIZE \<equiv> 20"

definition trap_oid_exact :: "(string \<times> string) list" where
  "trap_oid_exact =
    [(''.1.3.6.1.2.1.1.3.0'', ''sysUpTime''),
     (''.1.3.6.1.6.3.1.1.4.1.0'', ''snmpTrapOID''),
     (''.1.3.6.1.6.3.1.1.4.3.0'', ''snmpTrapEnterprise''),
     (''.1.3.6.1.2.1.1.1.0'', ''sysDescr''),
     (''.1.3.6.1.2.1.1.5.0'', ''sysName''),
     (''.1.3.6.1.2.1.1.6.0'', ''sysLocation'')]"

definition trap_oid_prefix :: "(string \<times> string) list" where
  "trap_oid_prefix =
    [(''.1.3.6.1.2.1.2.2.1.1.'', ''ifIndex''),
     (''.1.3.6.1.2.1.2.2.1.2.'', ''ifDescr''),
     (''.1.3.6.1.2.1.2.2.1.3.'', ''ifType''),
     (''.1.3.6.1.2.1.2.2.1.7.'', ''ifAdminStatus''),
     (''.1.3.6.1.2.1.2.2.1.8.'', ''ifOperStatus''),
     (''.1.3.6.1.2.1.31.1.1.1.1.'', ''ifName''),
     (''.1.3.6.1.2.1.31.1.1.1.18.'', ''ifAlias''),
     (''.1.3.6.1.6.3.18.1.3.'', ''snmpTrapAddress''),
     (''.1.3.6.1.6.3.18.1.4.'', ''snmpTrapCommunity'')]"

record standard_trap =
  st_oid :: string
  st_generic :: int
  st_name :: string
  st_severity :: string
  st_category :: string
  st_desc :: string

definition trap_standard :: "standard_trap list" where
  "trap_standard =
    [\<lparr>st_oid = ''.1.3.6.1.6.3.1.1.5.1'', st_generic = 0, st_name = ''coldStart'',
      st_severity = ''warning'', st_category = ''restart'',
      st_desc = ''Device cold started - it was power cycled or reloaded''\<rparr>,
     \<lparr>st_oid = ''.1.3.6.1.6.3.1.1.5.2'', st_generic = 1, st_name = ''warmStart'',
      st_severity = ''warning'', st_category = ''restart'',
      st_desc = ''Device warm started - its agent reinitialised''\<rparr>,
     \<lparr>st_oid = ''.1.3.6.1.6.3.1.1.5.3'', st_generic = 2, st_name = ''linkDown'',
      st_severity = ''critical'', st_category = ''link'', st_desc = ''An interface went down''\<rparr>,
     \<lparr>st_oid = ''.1.3.6.1.6.3.1.1.5.4'', st_generic = 3, st_name = ''linkUp'',
      st_severity = ''informational'', st_category = ''link'', st_desc = ''An interface came back up''\<rparr>,
     \<lparr>st_oid = ''.1.3.6.1.6.3.1.1.5.5'', st_generic = 4, st_name = ''authenticationFailure'',
      st_severity = ''warning'', st_category = ''security'',
      st_desc = ''SNMP authentication failure - wrong community, or a poller that should not be there''\<rparr>,
     \<lparr>st_oid = ''.1.3.6.1.6.3.1.1.5.6'', st_generic = 5, st_name = ''egpNeighborLoss'',
      st_severity = ''warning'', st_category = ''routing'', st_desc = ''An EGP neighbour was lost''\<rparr>]"

definition trap_vendors :: "(nat \<times> string) list" where
  "trap_vendors =
    [(9, ''Cisco''), (11, ''Hewlett-Packard''), (674, ''Dell''), (1916, ''Extreme Networks''),
     (2011, ''Huawei''), (2636, ''Juniper''), (3375, ''F5''), (4526, ''NETGEAR''),
     (6027, ''Dell Force10''), (8072, ''Net-SNMP''), (14988, ''MikroTik''), (25506, ''H3C''),
     (30065, ''Arista''), (41112, ''Ubiquiti'')]"

definition if_status_name :: "int \<Rightarrow> string option" where
  "if_status_name v =
     (if v = 1 then Some ''up'' else if v = 2 then Some ''down'' else if v = 3 then Some ''testing''
      else if v = 4 then Some ''unknown'' else if v = 5 then Some ''dormant''
      else if v = 6 then Some ''notPresent'' else if v = 7 then Some ''lowerLayerDown'' else None)"

section \<open>The decoded trap\<close>

record trap_varbind =
  vb_oid :: string
  vb_name :: string
  vb_type :: string
  vb_value :: string
  vb_note :: string

record trap_content =
  t_version :: int
  t_decoded :: bool
  t_alertable :: bool
  t_inform :: bool
  t_community :: string
  t_trap_oid :: string
  t_enterprise :: string
  t_agent :: string
  t_name :: string
  t_description :: string
  t_severity :: string
  t_category :: string
  t_vendor :: string
  t_iface :: string
  t_ifindex :: int
  t_generic :: int
  t_specific :: int
  t_uptime :: nat
  vbs :: "trap_varbind list"

text \<open>\<open>nvarbinds\<close> is the number of entries of \<open>vb\<close> in use: the length of the list \<open>vbs\<close>.\<close>

abbreviation nvarbinds :: "trap_content \<Rightarrow> nat" where "nvarbinds t \<equiv> length (vbs t)"

section \<open>Values, names and vendors\<close>

definition dotted_quad :: "byte list \<Rightarrow> string" where
  "dotted_quad v = dec_string (unat (v ! 0)) @ ''.'' @ dec_string (unat (v ! 1)) @ ''.''
     @ dec_string (unat (v ! 2)) @ ''.'' @ dec_string (unat (v ! 3))"

definition ticks_note :: "nat \<Rightarrow> string" where
  "ticks_note t = dec_string (t div 8640000) @ ''d '' @ dec_string ((t div 360000) mod 24) @ ''h ''
     @ dec_string ((t div 6000) mod 60) @ ''m '' @ dec_string ((t div 100) mod 60) @ ''s''"

text \<open>The type name, the value and the note \<open>ber_value_str\<close> leaves behind.\<close>

definition ber_value_str :: "byte \<Rightarrow> byte list \<Rightarrow> nat \<Rightarrow> nat \<Rightarrow> nat \<Rightarrow> string \<times> string \<times> string" where
  "ber_value_str tag v typelen outlen notelen =
     (if tag = BER_INTEGER then
        (fit typelen ''INTEGER'', fit outlen (int_string (snmp_ber_int v)), [])
      else if tag = BER_OCTETSTR then (fit typelen ''STRING'', ber_string_str v outlen, [])
      else if tag = BER_NULL then (fit typelen ''NULL'', [], [])
      else if tag = BER_OID then (fit typelen ''OID'', snmp_ber_oid_str v outlen, [])
      else if tag = BER_IPADDRESS then
        (fit typelen ''IpAddress'',
         if length v = 4 then fit outlen (dotted_quad v) else ber_string_str v outlen, [])
      else if tag = BER_COUNTER32 then
        (fit typelen ''Counter32'', fit outlen (dec_string (unat (snmp_ber_uint v))), [])
      else if tag = BER_GAUGE32 then
        (fit typelen ''Gauge32'', fit outlen (dec_string (unat (snmp_ber_uint v))), [])
      else if tag = BER_TIMETICKS then
        (let ticks = unat (snmp_ber_uint v) in
         (fit typelen ''TimeTicks'', fit outlen (dec_string ticks), fit notelen (ticks_note ticks)))
      else if tag = BER_COUNTER64 then
        (fit typelen ''Counter64'', fit outlen (dec_string (unat (snmp_ber_uint v))), [])
      else if tag = BER_OPAQUE then (fit typelen ''Opaque'', ber_string_str v outlen, [])
      else if tag = BER_NOSUCHOBJECT then (fit typelen ''noSuchObject'', [], [])
      else if tag = BER_NOSUCHINSTANCE then (fit typelen ''noSuchInstance'', [], [])
      else if tag = BER_ENDOFMIBVIEW then (fit typelen ''endOfMibView'', [], [])
      else (fit typelen (''tag 0x'' @ hex2 tag), ber_string_str v outlen, []))"

definition name_oid :: "string \<Rightarrow> nat \<Rightarrow> string" where
  "name_oid oid outlen =
     (case find (\<lambda>e. oid = fst e) trap_oid_exact of
        Some e \<Rightarrow> fit outlen (snd e)
      | None \<Rightarrow>
         (case find (\<lambda>e. has_prefix (fst e) oid) trap_oid_prefix of
            Some e \<Rightarrow> fit outlen (snd e)
          | None \<Rightarrow> []))"

definition ENT_PREFIX :: string where "ENT_PREFIX = ''.1.3.6.1.4.1.''"

definition name_vendor :: "string \<Rightarrow> nat \<Rightarrow> string" where
  "name_vendor oid outlen =
     (if \<not> has_prefix ENT_PREFIX oid then []
      else
        let rest = drop (length ENT_PREFIX) oid in
        if no_conversion rest then []
        else
          (case find (\<lambda>e. fst e = strtoul rest) trap_vendors of
             Some e \<Rightarrow> fit outlen (snd e)
           | None \<Rightarrow> []))"

section \<open>The varbind list\<close>

text \<open>What one varbind contributes to the trap: the if-chain at the end of the loop body.\<close>

definition varbind_facts :: "trap_varbind \<Rightarrow> trap_content \<Rightarrow> trap_varbind \<times> trap_content" where
  "varbind_facts b out =
     (if vb_name b = ''snmpTrapOID'' \<and> vb_value b \<noteq> [] then
        (b, out\<lparr>t_trap_oid := fit TRAP_OID_LEN (vb_value b)\<rparr>)
      else if vb_name b = ''sysUpTime'' then (b, out\<lparr>t_uptime := strtoul (vb_value b)\<rparr>)
      else if vb_name b = ''snmpTrapEnterprise'' \<and> t_enterprise out = [] then
        (b, out\<lparr>t_enterprise := fit TRAP_OID_LEN (vb_value b)\<rparr>)
      else if vb_name b = ''ifIndex'' then (b, out\<lparr>t_ifindex := to_int32 (strtol (vb_value b))\<rparr>)
      else if vb_name b = ''ifName'' \<or> vb_name b = ''ifDescr'' \<or> vb_name b = ''ifAlias'' then
        (b, if t_iface out = [] \<or> vb_name b = ''ifName''
            then out\<lparr>t_iface := fit 64 (vb_value b)\<rparr> else out)
      else if vb_name b = ''ifOperStatus'' \<or> vb_name b = ''ifAdminStatus'' then
        (case if_status_name (strtol (vb_value b)) of
           Some s \<Rightarrow> (b\<lparr>vb_note := fit TRAP_VAL_LEN s\<rparr>, out)
         | None \<Rightarrow> (b, out))
      else (b, out))"

definition add_varbind :: "string \<Rightarrow> byte \<Rightarrow> byte list \<Rightarrow> trap_content \<Rightarrow> trap_content" where
  "add_varbind oid vtag vval out =
     (case ber_value_str vtag vval 16 TRAP_VAL_LEN TRAP_VAL_LEN of (ty, value, nt) \<Rightarrow>
      (case varbind_facts \<lparr>vb_oid = oid, vb_name = name_oid oid TRAP_NAME_LEN, vb_type = ty,
              vb_value = value, vb_note = nt\<rparr> out of
         (b, out) \<Rightarrow> out\<lparr>vbs := vbs out @ [b]\<rparr>))"

text \<open>
  The body of the loop: \<open>Reject\<close> is the \<open>break\<close>. A varbind that breaks off after its OID was
  written is not counted in \<open>nvarbinds\<close>, so what it left in the array is not part of the result.
\<close>

definition decode_one :: "ber_cursor \<Rightarrow> trap_content \<Rightarrow> (trap_content \<times> ber_cursor) outcome" where
  "decode_one list out =
     and_then (snmp_ber_next list) (\<lambda>(tag, val, list).
     if tag \<noteq> BER_SEQUENCE then Reject else
     and_then (snmp_ber_next (snmp_ber_open val)) (\<lambda>(tag, vval, vb).
     if tag \<noteq> BER_OID then Reject else
     let oid = snmp_ber_oid_str vval TRAP_OID_LEN in
     and_then (snmp_ber_next vb) (\<lambda>(vtag, vval, vb). Got (add_varbind oid vtag vval out, list))))"

fun decode_loop :: "nat \<Rightarrow> ber_cursor \<Rightarrow> trap_content \<Rightarrow> trap_content outcome" where
  "decode_loop 0 list out = Got out"
| "decode_loop (Suc k) list out =
     (case decode_one list out of
        Fault \<Rightarrow> Fault
      | Reject \<Rightarrow> Got out
      | Got (out, list) \<Rightarrow> decode_loop k list out)"

text \<open>The loop runs while \<open>nvarbinds < TRAP_MAX_VARBIND\<close>, and each turn that does not break adds one.\<close>

definition decode_varbinds :: "ber_cursor \<Rightarrow> trap_content \<Rightarrow> trap_content outcome" where
  "decode_varbinds pdu out =
     (case snmp_ber_next pdu of
        Fault \<Rightarrow> Fault
      | Reject \<Rightarrow> Got out
      | Got (tag, val, _) \<Rightarrow>
          if tag \<noteq> BER_SEQUENCE then Got out
          else decode_loop (TRAP_MAX_VARBIND - nvarbinds out) (snmp_ber_open val) out)"

section \<open>Classification\<close>

definition standard_hit :: "trap_content \<Rightarrow> standard_trap \<Rightarrow> bool" where
  "standard_hit out e =
     ((t_trap_oid out \<noteq> [] \<and> t_trap_oid out = st_oid e)
      \<or> (t_version out = 0 \<and> t_generic out = st_generic e))"

definition classify_name :: "trap_content \<Rightarrow> trap_content" where
  "classify_name out =
     (case find (standard_hit out) trap_standard of
        Some e \<Rightarrow>
          out\<lparr>t_name := fit TRAP_NAME_LEN (st_name e), t_severity := fit 16 (st_severity e),
              t_category := fit 24 (st_category e), t_description := fit TRAP_VAL_LEN (st_desc e)\<rparr>
      | None \<Rightarrow>
          out\<lparr>t_name := fit TRAP_NAME_LEN
                (if t_version out = 0 \<and> t_generic out = 6
                 then ''enterpriseSpecific('' @ int_string (t_specific out) @ '')''
                 else if t_trap_oid out \<noteq> [] then ''enterpriseSpecific'' else ''trap''),
              t_severity := fit 16 ''warning'', t_category := fit 24 ''vendor'',
              t_description := fit TRAP_VAL_LEN
                (''Vendor-specific trap ''
                 @ take 100 (if t_trap_oid out \<noteq> [] then t_trap_oid out else t_enterprise out)
                 @ '' - see the vendor MIB for its meaning'')\<rparr>)"

definition classify_vendor :: "trap_content \<Rightarrow> trap_content" where
  "classify_vendor out =
     (let out = (if t_enterprise out \<noteq> [] then out\<lparr>t_vendor := name_vendor (t_enterprise out) 32\<rparr> else out)
      in if t_vendor out = [] \<and> t_trap_oid out \<noteq> []
         then out\<lparr>t_vendor := name_vendor (t_trap_oid out) 32\<rparr> else out)"

definition classify_iface :: "trap_content \<Rightarrow> trap_content" where
  "classify_iface out =
     (let out = (if t_iface out = [] \<and> t_ifindex out \<ge> 0
                 then out\<lparr>t_iface := fit 64 (''ifIndex '' @ int_string (t_ifindex out))\<rparr> else out)
      in if t_iface out \<noteq> [] \<and> t_category out = ''link''
         then out\<lparr>t_description := fit TRAP_VAL_LEN
                    (take 100 (fit TRAP_VAL_LEN (t_description out)) @ '': '' @ take 50 (t_iface out))\<rparr>
         else out)"

definition classify_trap :: "trap_content \<Rightarrow> trap_content" where
  "classify_trap out = classify_iface (classify_vendor (classify_name out))"

section \<open>The whole decoder\<close>

definition blank_trap :: trap_content where
  "blank_trap =
     \<lparr>t_version = - 1, t_decoded = False, t_alertable = False, t_inform = False, t_community = [],
      t_trap_oid = [], t_enterprise = [], t_agent = [], t_name = ''undecoded'',
      t_description = ''Trap could not be decoded (malformed or unsupported packet)'',
      t_severity = ''warning'', t_category = ''trap'', t_vendor = [], t_iface = [],
      t_ifindex = - 1, t_generic = - 1, t_specific = 0, t_uptime = 0, vbs = []\<rparr>"

text \<open>
  One guarded read: \<open>if (!snmp_ber_next(&c, &t, &v, &l) || t != tag) return FALSE\<close>, where
  returning keeps what has been written to \<open>out\<close>.
\<close>

definition take_tlv ::
    "ber_cursor \<Rightarrow> (byte \<Rightarrow> bool) \<Rightarrow> trap_content
     \<Rightarrow> (byte \<Rightarrow> byte list \<Rightarrow> ber_cursor \<Rightarrow> (bool \<times> trap_content) outcome)
     \<Rightarrow> (bool \<times> trap_content) outcome" where
  "take_tlv c ok out k =
     (case snmp_ber_next c of
        Fault \<Rightarrow> Fault
      | Reject \<Rightarrow> Got (False, out)
      | Got (t, v, c') \<Rightarrow> if ok t then k t v c' else Got (False, out))"

definition v1_trap_oid :: "trap_content \<Rightarrow> trap_content" where
  "v1_trap_oid out =
     (if t_generic out = 6 then
        let suffix = fit 24 (''.0.'' @ int_string (t_specific out)) in
        if length (t_enterprise out) + length suffix < TRAP_OID_LEN
        then out\<lparr>t_trap_oid := fit TRAP_OID_LEN (take 160 (t_enterprise out) @ take 24 suffix)\<rparr>
        else out\<lparr>t_trap_oid := fit TRAP_OID_LEN (t_enterprise out)\<rparr>
      else if 0 \<le> t_generic out \<and> t_generic out \<le> 5 then
        out\<lparr>t_trap_oid := fit TRAP_OID_LEN (''.1.3.6.1.6.3.1.1.5.'' @ int_string (t_generic out + 1))\<rparr>
      else out)"

definition decode_finish :: "ber_cursor \<Rightarrow> trap_content \<Rightarrow> (bool \<times> trap_content) outcome" where
  "decode_finish pdu out =
     and_then (decode_varbinds pdu out)
       (\<lambda>out. Got (True, (classify_trap out)\<lparr>t_decoded := True, t_alertable := True\<rparr>))"

definition decode_v1 :: "ber_cursor \<Rightarrow> trap_content \<Rightarrow> (bool \<times> trap_content) outcome" where
  "decode_v1 pdu out =
     take_tlv pdu (\<lambda>t. t = BER_OID) out (\<lambda>_ v pdu.
     let out = out\<lparr>t_enterprise := snmp_ber_oid_str v TRAP_OID_LEN\<rparr> in
     take_tlv pdu (\<lambda>_. True) out (\<lambda>t v pdu.
     let out = (if t = BER_IPADDRESS \<and> length v = 4
                then out\<lparr>t_agent := fit IP_ADDR_STR_SIZE (dotted_quad v)\<rparr> else out) in
     take_tlv pdu (\<lambda>t. t = BER_INTEGER) out (\<lambda>_ v pdu.
     let out = out\<lparr>t_generic := to_int32 (snmp_ber_int v)\<rparr> in
     take_tlv pdu (\<lambda>t. t = BER_INTEGER) out (\<lambda>_ v pdu.
     let out = out\<lparr>t_specific := to_int32 (snmp_ber_int v)\<rparr> in
     take_tlv pdu (\<lambda>_. True) out (\<lambda>t v pdu.
     let out = (if t = BER_TIMETICKS then out\<lparr>t_uptime := unat (snmp_ber_uint v)\<rparr> else out) in
     decode_finish pdu (v1_trap_oid out))))))"

definition decode_v2 :: "bool \<Rightarrow> ber_cursor \<Rightarrow> trap_content \<Rightarrow> (bool \<times> trap_content) outcome" where
  "decode_v2 is_inform pdu out =
     (let out = out\<lparr>t_inform := is_inform\<rparr> in
     take_tlv pdu (\<lambda>t. t = BER_INTEGER) out (\<lambda>_ _ pdu.
     take_tlv pdu (\<lambda>t. t = BER_INTEGER) out (\<lambda>_ _ pdu.
     take_tlv pdu (\<lambda>t. t = BER_INTEGER) out (\<lambda>_ _ pdu.
     decode_finish pdu out))))"

definition decode_pdu :: "byte \<Rightarrow> byte list \<Rightarrow> trap_content \<Rightarrow> (bool \<times> trap_content) outcome" where
  "decode_pdu tag val out =
     (if tag = PDU_TRAP_V1 then decode_v1 (snmp_ber_open val) out
      else if tag = PDU_TRAP_V2 \<or> tag = PDU_INFORM then decode_v2 (tag = PDU_INFORM) (snmp_ber_open val) out
      else Got (False, out\<lparr>t_name := fit TRAP_NAME_LEN ''non-trap'',
                 t_description := fit TRAP_VAL_LEN
                   (''SNMP PDU type 0x'' @ hex2 tag @ '' on the trap port - not a trap'')\<rparr>))"

text \<open>
  \<open>decode_snmp_trap\<close>. A NULL buffer and a length of 0 are both the empty list; \<open>out\<close> is a
  result here, so the test for a NULL \<open>out\<close> has no counterpart.
\<close>

definition decode_snmp_trap :: "byte list \<Rightarrow> (bool \<times> trap_content) outcome" where
  "decode_snmp_trap buf =
     (if buf = [] then Got (False, blank_trap)
      else
        take_tlv (snmp_ber_open buf) (\<lambda>t. t = BER_SEQUENCE) blank_trap (\<lambda>_ val _.
        take_tlv (snmp_ber_open val) (\<lambda>t. t = BER_INTEGER) blank_trap (\<lambda>_ val seq.
        let out = blank_trap\<lparr>t_version := to_int32 (snmp_ber_int val)\<rparr> in
        if t_version out = 3 then
          Got (False, out\<lparr>t_name := ''snmpv3Trap'', t_category := ''trap'',
                 t_description := ''SNMPv3 trap received - sysmond does not hold the v3 keys to decode it'',
                 t_alertable := True\<rparr>)
        else if t_version out \<noteq> 0 \<and> t_version out \<noteq> 1 then Got (False, out)
        else
          take_tlv seq (\<lambda>t. t = BER_OCTETSTR) out (\<lambda>_ val seq.
          let out = out\<lparr>t_community := ber_string_str val 64\<rparr> in
          take_tlv seq (\<lambda>_. True) out (\<lambda>tag val _. decode_pdu tag val out)))))"

section \<open>Printable, bounded fields\<close>

definition texty :: "string \<Rightarrow> bool" where
  "texty s = list_all text_char s"

definition safe_field :: "nat \<Rightarrow> string \<Rightarrow> bool" where
  "safe_field n s = (length s < n \<and> texty s)"

lemma texty_Nil [simp]: "texty []"
  by (simp add: texty_def)

lemma texty_append [simp]: "texty (a @ b) = (texty a \<and> texty b)"
  by (simp add: texty_def)

lemma texty_Cons [simp]: "texty (c # s) = (text_char c \<and> texty s)"
  by (simp add: texty_def)

lemma texty_take [simp]: "texty s \<Longrightarrow> texty (take n s)"
  by (auto simp: texty_def list_all_iff dest: in_set_takeD)

lemma texty_fit [simp]: "texty s \<Longrightarrow> texty (fit n s)"
  by (auto simp: fit_def)

lemma texty_dec [simp]: "texty (dec_string n)"
  by (simp add: texty_def list_all_iff text_char_digit dec_string_digits)

lemma text_char_minus: "text_char CHR ''-''"
  by (simp add: text_char_def)

lemma texty_int [simp]: "texty (int_string i)"
  by (simp add: int_string_def text_char_minus)

lemma texty_hex2 [simp]: "texty (hex2 b)"
  by (simp add: texty_def list_all_iff text_char_hex2)

lemma texty_oid [simp]: "texty (snmp_ber_oid_str v n)"
  by (auto simp: texty_def list_all_iff oid_char_def text_char_digit dest!: snmp_ber_oid_str_chars)
    (simp add: text_char_def)

lemma texty_string [simp]: "texty (ber_string_str v n)"
  by (simp add: texty_def list_all_iff ber_string_str_chars)

lemma safe_fit [intro!]: "0 < n \<Longrightarrow> texty s \<Longrightarrow> safe_field n (fit n s)"
  by (simp add: safe_field_def length_fit)

lemma safe_Nil [simp]: "0 < n \<Longrightarrow> safe_field n []"
  by (simp add: safe_field_def)

lemma safe_oid [simp]: "0 < n \<Longrightarrow> safe_field n (snmp_ber_oid_str v n)"
  by (simp add: safe_field_def snmp_ber_oid_str_length)

lemma safe_string [simp]: "0 < n \<Longrightarrow> safe_field n (ber_string_str v n)"
  by (simp add: safe_field_def ber_string_str_length)

lemma safe_texty: "safe_field n s \<Longrightarrow> texty s"
  by (simp add: safe_field_def)

definition vb_wf :: "trap_varbind \<Rightarrow> bool" where
  "vb_wf b = (safe_field TRAP_OID_LEN (vb_oid b) \<and> safe_field TRAP_NAME_LEN (vb_name b)
     \<and> safe_field 16 (vb_type b) \<and> safe_field TRAP_VAL_LEN (vb_value b)
     \<and> safe_field TRAP_VAL_LEN (vb_note b))"

text \<open>Every array of the struct holds a terminated, printable string, and at most 16 varbinds are kept.\<close>

definition trap_wf :: "trap_content \<Rightarrow> bool" where
  "trap_wf t =
     (safe_field 64 (t_community t) \<and> safe_field TRAP_OID_LEN (t_trap_oid t)
      \<and> safe_field TRAP_OID_LEN (t_enterprise t) \<and> safe_field IP_ADDR_STR_SIZE (t_agent t)
      \<and> safe_field TRAP_NAME_LEN (t_name t) \<and> safe_field TRAP_VAL_LEN (t_description t)
      \<and> safe_field 16 (t_severity t) \<and> safe_field 24 (t_category t) \<and> safe_field 32 (t_vendor t)
      \<and> safe_field 64 (t_iface t) \<and> nvarbinds t \<le> TRAP_MAX_VARBIND \<and> list_all vb_wf (vbs t))"

lemma texty_table_names:
  "(a, s) \<in> set trap_oid_exact \<Longrightarrow> texty s"
  "(a, s) \<in> set trap_oid_prefix \<Longrightarrow> texty s"
  "(n, s) \<in> set trap_vendors \<Longrightarrow> texty s"
  by (auto simp: trap_oid_exact_def trap_oid_prefix_def trap_vendors_def text_char_def)

lemma find_set: "find P xs = Some x \<Longrightarrow> x \<in> set xs"
  by (metis find_Some_iff nth_mem)

lemma safe_name_oid [intro]: "0 < n \<Longrightarrow> safe_field n (name_oid oid n)"
  by (auto simp: name_oid_def split: option.splits dest!: find_set dest: texty_table_names)

lemma safe_name_vendor [intro]: "0 < n \<Longrightarrow> safe_field n (name_vendor oid n)"
  by (auto simp: name_vendor_def Let_def split: option.splits dest!: find_set dest: texty_table_names)

lemma ber_value_str_safe:
  assumes "ber_value_str tag v tn on nn = (ty, val, note)" "0 < tn" "0 < on" "0 < nn"
  shows "safe_field tn ty" "safe_field on val" "safe_field nn note"
  using assms
  by (auto simp: ber_value_str_def Let_def dotted_quad_def ticks_note_def text_char_def
      split: if_splits)

lemma texty_if_status: "if_status_name v = Some s \<Longrightarrow> texty s"
  by (auto simp: if_status_name_def text_char_def split: if_splits)

lemma trap_wf_updates:
  assumes "trap_wf out"
  shows "safe_field 192 s \<Longrightarrow> trap_wf (out\<lparr>t_trap_oid := s\<rparr>)"
    and "safe_field 192 s \<Longrightarrow> trap_wf (out\<lparr>t_enterprise := s\<rparr>)"
    and "safe_field 64 s \<Longrightarrow> trap_wf (out\<lparr>t_iface := s\<rparr>)"
    and "trap_wf (out\<lparr>t_uptime := n\<rparr>)" and "trap_wf (out\<lparr>t_ifindex := i\<rparr>)"
  using assms by (simp_all add: trap_wf_def)

lemma varbind_facts_trap_wf:
  assumes "vb_wf b" "trap_wf out"
  shows "trap_wf (snd (varbind_facts b out))"
proof -
  have "safe_field n (fit n (vb_value b))" if "0 < n" for n
    using assms(1) that by (auto simp: vb_wf_def safe_texty)
  then show ?thesis
    unfolding varbind_facts_def using assms(2) by (simp add: trap_wf_updates split: option.split)
qed

lemma vb_wf_note: "vb_wf b \<Longrightarrow> safe_field 160 s \<Longrightarrow> vb_wf (b\<lparr>vb_note := s\<rparr>)"
  by (simp add: vb_wf_def)

lemma varbind_facts_vb_wf: "vb_wf b \<Longrightarrow> vb_wf (fst (varbind_facts b out))"
  unfolding varbind_facts_def
  by (simp add: vb_wf_note texty_if_status safe_fit split: option.split)

lemma varbind_facts_vbs: "vbs (snd (varbind_facts b out)) = vbs out"
  unfolding varbind_facts_def by (simp split: option.split)

lemma add_varbind_wf:
  assumes "safe_field TRAP_OID_LEN oid" "trap_wf out" "nvarbinds out < TRAP_MAX_VARBIND"
  shows "trap_wf (add_varbind oid vtag vval out)"
    and "nvarbinds (add_varbind oid vtag vval out) = Suc (nvarbinds out)"
proof -
  obtain ty vl nt where v: "ber_value_str vtag vval 16 TRAP_VAL_LEN TRAP_VAL_LEN = (ty, vl, nt)"
    by (rule prod_cases3)
  let ?b = "\<lparr>vb_oid = oid, vb_name = name_oid oid TRAP_NAME_LEN, vb_type = ty, vb_value = vl, vb_note = nt\<rparr>"
  obtain b o2 where f: "varbind_facts ?b out = (b, o2)"
    by fastforce
  have "vb_wf ?b"
    using assms(1) ber_value_str_safe[OF v] by (simp add: vb_wf_def safe_name_oid)
  then have "vb_wf b" "trap_wf o2" "vbs o2 = vbs out"
    using f varbind_facts_vb_wf[of ?b out] varbind_facts_trap_wf[of ?b out] varbind_facts_vbs[of ?b out] assms(2)
    by simp_all
  with assms(3) v f
  show "trap_wf (add_varbind oid vtag vval out)"
    and "nvarbinds (add_varbind oid vtag vval out) = Suc (nvarbinds out)"
    by (simp_all add: trap_wf_def add_varbind_def)
qed

lemma decode_one_no_Fault: "decode_one list out \<noteq> Fault"
  by (auto simp: decode_one_def and_then_Fault Let_def snmp_ber_next_no_Fault split: if_splits)

lemma decode_one_Got:
  assumes "decode_one list out = Got (out', list')"
  obtains tag val ov vtag vval where "snmp_ber_next list = Got (tag, val, list')"
    "out' = add_varbind (snmp_ber_oid_str ov TRAP_OID_LEN) vtag vval out"
  using assms by (auto simp: decode_one_def and_then_Got Let_def split: if_splits)

lemma decode_one_wf:
  assumes "decode_one list out = Got (out', list')" "trap_wf out" "nvarbinds out < TRAP_MAX_VARBIND"
  shows "trap_wf out' \<and> nvarbinds out' = Suc (nvarbinds out)"
  by (rule decode_one_Got[OF assms(1)]) (use assms(2,3) in \<open>simp add: add_varbind_wf\<close>)

lemma decode_loop_wf:
  "trap_wf out \<Longrightarrow> nvarbinds out + k \<le> TRAP_MAX_VARBIND \<Longrightarrow>
     \<exists>out'. decode_loop k list out = Got out' \<and> trap_wf out'"
proof (induction k arbitrary: list out)
  case 0
  then show ?case by simp
next
  case (Suc k)
  show ?case
  proof (cases "decode_one list out")
    case Fault
    then show ?thesis by (simp add: decode_one_no_Fault)
  next
    case Reject
    with Suc.prems show ?thesis by simp
  next
    case (Got p)
    obtain out' list' where p: "p = (out', list')" by (cases p)
    have "trap_wf out'" "nvarbinds out' = Suc (nvarbinds out)"
      using decode_one_wf[of list out out' list'] Got p Suc.prems by simp_all
    with Suc.IH[of out' list'] Suc.prems Got p show ?thesis by simp
  qed
qed


lemma decode_varbinds_wf:
  assumes "trap_wf out"
  shows "\<exists>out'. decode_varbinds pdu out = Got out' \<and> trap_wf out'"
proof -
  have "nvarbinds out \<le> TRAP_MAX_VARBIND"
    using assms by (simp add: trap_wf_def)
  then show ?thesis
    using assms decode_loop_wf[of out "TRAP_MAX_VARBIND - nvarbinds out"] snmp_ber_next_no_Fault[of pdu]
    by (cases "snmp_ber_next pdu") (auto simp: decode_varbinds_def)
qed

lemma texty_standard:
  "e \<in> set trap_standard \<Longrightarrow>
     texty (st_name e) \<and> texty (st_severity e) \<and> texty (st_category e) \<and> texty (st_desc e)"
  by (auto simp: trap_standard_def text_char_def)

lemma trap_wf_named:
  "trap_wf out \<Longrightarrow> texty a \<Longrightarrow> texty b \<Longrightarrow> texty c \<Longrightarrow> texty d \<Longrightarrow>
     trap_wf (out\<lparr>t_name := fit 48 a, t_severity := fit 16 b, t_category := fit 24 c, t_description := fit 160 d\<rparr>)"
  by (simp add: trap_wf_def safe_fit)

lemma classify_name_wf: "trap_wf out \<Longrightarrow> trap_wf (classify_name out)"
proof (cases "find (standard_hit out) trap_standard")
  case None
  assume wf: "trap_wf out"
  then have "texty (t_trap_oid out)" "texty (t_enterprise out)"
    by (auto simp: trap_wf_def safe_texty)
  with wf None show ?thesis
    unfolding classify_name_def by (auto intro!: trap_wf_named simp: text_char_def)
next
  case (Some e)
  then have "e \<in> set trap_standard" by (rule find_set)
  with Some show "trap_wf out \<Longrightarrow> ?thesis"
    unfolding classify_name_def using texty_standard[of e] by (auto intro!: trap_wf_named)
qed

lemma classify_vendor_wf: "trap_wf out \<Longrightarrow> trap_wf (classify_vendor out)"
  by (auto simp: classify_vendor_def trap_wf_def Let_def)

lemma classify_iface_wf: "trap_wf out \<Longrightarrow> trap_wf (classify_iface out)"
  by (auto simp: classify_iface_def trap_wf_def Let_def text_char_def safe_texty)

lemma classify_trap_wf: "trap_wf out \<Longrightarrow> trap_wf (classify_trap out)"
  by (simp add: classify_trap_def classify_name_wf classify_vendor_wf classify_iface_wf)

section \<open>The contract of the decoder\<close>

text \<open>
  What a caller may rely on, whatever the packet was. \<open>alertable\<close> holds exactly for a packet
  that decoded as a trap or for an SNMPv3 message; the result is printable in any case.
\<close>

definition trap_report :: "bool \<Rightarrow> trap_content \<Rightarrow> bool" where
  "trap_report r t =
     (trap_wf t \<and> t_decoded t = r \<and> t_alertable t = (r \<or> t_version t = 3)
      \<and> (r \<longrightarrow> t_version t = 0 \<or> t_version t = 1)
      \<and> t_name t \<noteq> [] \<and> t_description t \<noteq> []
      \<and> t_severity t \<in> {''critical'', ''warning'', ''informational''})"

definition reports :: "(bool \<times> trap_content) outcome \<Rightarrow> bool" where
  "reports m = (\<exists>r t. m = Got (r, t) \<and> trap_report r t)"

lemma reports_Got [simp]: "reports (Got (r, t)) = trap_report r t"
  by (simp add: reports_def)

lemma take_tlv_reports:
  assumes "trap_report False out" and "\<And>t v c'. ok t \<Longrightarrow> reports (k t v c')"
  shows "reports (take_tlv c ok out k)"
  using assms snmp_ber_next_no_Fault[of c]
  by (cases "snmp_ber_next c") (auto simp: take_tlv_def)

text \<open>The decoder's intermediate records: nothing decided yet, version known to be 0 or 1.\<close>

definition pending :: "trap_content \<Rightarrow> bool" where
  "pending t =
     (trap_wf t \<and> \<not> t_decoded t \<and> \<not> t_alertable t \<and> (t_version t = 0 \<or> t_version t = 1)
      \<and> t_name t \<noteq> [] \<and> t_description t \<noteq> [] \<and> t_severity t = ''warning'')"

lemma pending_report: "pending t \<Longrightarrow> trap_report False t"
  by (auto simp: pending_def trap_report_def)

lemma varbind_facts_version: "t_version (snd (varbind_facts b out)) = t_version out"
  unfolding varbind_facts_def by (simp split: option.split)

lemma add_varbind_version: "t_version (add_varbind oid vtag vval out) = t_version out"
  unfolding add_varbind_def
  by (simp add: case_prod_beta varbind_facts_version)

lemma decode_loop_version: "decode_loop k list out = Got out' \<Longrightarrow> t_version out' = t_version out"
proof (induction k arbitrary: list out)
  case (Suc k)
  then show ?case
    by (auto split: outcome.splits elim!: decode_one_Got simp: add_varbind_version)
qed simp

lemma decode_varbinds_version: "decode_varbinds pdu out = Got out' \<Longrightarrow> t_version out' = t_version out"
  by (auto simp: decode_varbinds_def decode_loop_version split: outcome.splits if_splits)

lemma standard_entries:
  "e \<in> set trap_standard \<Longrightarrow> st_name e \<noteq> [] \<and> st_desc e \<noteq> []
     \<and> fit 16 (st_severity e) \<in> {''critical'', ''warning'', ''informational''}"
  by (auto simp: trap_standard_def fit_def)

lemma classify_name_report:
  "t_name (classify_name out) \<noteq> []" "t_description (classify_name out) \<noteq> []"
  "t_severity (classify_name out) \<in> {''critical'', ''warning'', ''informational''}"
  by (auto simp: classify_name_def fit_eq_Nil standard_entries fit_id
      split: option.splits dest!: find_set dest: standard_entries)

lemma classify_name_version: "t_version (classify_name out) = t_version out"
  by (simp add: classify_name_def split: option.split)

lemma classify_vendor_frame [frame]:
  "t_name (classify_vendor out) = t_name out" "t_severity (classify_vendor out) = t_severity out"
  "t_category (classify_vendor out) = t_category out" "t_version (classify_vendor out) = t_version out"
  "t_description (classify_vendor out) = t_description out"
  by (simp_all add: classify_vendor_def Let_def)

lemma classify_iface_frame [frame]:
  "t_name (classify_iface out) = t_name out" "t_severity (classify_iface out) = t_severity out"
  "t_category (classify_iface out) = t_category out" "t_version (classify_iface out) = t_version out"
  by (simp_all add: classify_iface_def Let_def)

lemma classify_iface_description: "t_description out \<noteq> [] \<Longrightarrow> t_description (classify_iface out) \<noteq> []"
  by (simp add: classify_iface_def Let_def fit_eq_Nil)

lemma classify_trap_report:
  "t_name (classify_trap out) \<noteq> []" "t_description (classify_trap out) \<noteq> []"
  "t_severity (classify_trap out) \<in> {''critical'', ''warning'', ''informational''}"
  "t_version (classify_trap out) = t_version out"
  using classify_name_report[of out]
  by (simp_all add: classify_trap_def frame classify_iface_description classify_name_version)

lemma decode_finish_reports: "pending out \<Longrightarrow> reports (decode_finish pdu out)"
proof -
  assume p: "pending out"
  then obtain out' where out': "decode_varbinds pdu out = Got out'" "trap_wf out'"
    using decode_varbinds_wf by (auto simp: pending_def)
  have "trap_wf (classify_trap out')"
    using out' by (simp add: classify_trap_wf)
  then show ?thesis
    using p out' decode_varbinds_version[OF out'(1)] classify_trap_report[of out']
    by (auto simp: decode_finish_def trap_report_def pending_def trap_wf_def)
qed

lemma pending_updates:
  assumes "pending out"
  shows "pending (out\<lparr>t_enterprise := snmp_ber_oid_str v 192\<rparr>)"
    and "pending (out\<lparr>t_generic := i\<rparr>)" and "pending (out\<lparr>t_specific := i\<rparr>)"
    and "pending (out\<lparr>t_uptime := n\<rparr>)" and "pending (out\<lparr>t_inform := b\<rparr>)"
    and "pending (out\<lparr>t_agent := fit 20 (dotted_quad v)\<rparr>)"
    and "pending (out\<lparr>t_community := ber_string_str v 64\<rparr>)"
    and "pending (v1_trap_oid out)"
  using assms
  by (auto simp: pending_def trap_wf_def dotted_quad_def v1_trap_oid_def Let_def text_char_def safe_texty)

lemma pending_if: "pending a \<Longrightarrow> pending b \<Longrightarrow> pending (if P then a else b)"
  by simp

lemma decode_v1_reports: "pending out \<Longrightarrow> reports (decode_v1 pdu out)"
  unfolding decode_v1_def Let_def
  by (intro take_tlv_reports decode_finish_reports pending_report pending_updates pending_if)

lemma decode_v2_reports: "pending out \<Longrightarrow> reports (decode_v2 i pdu out)"
  unfolding decode_v2_def Let_def
  by (intro take_tlv_reports decode_finish_reports pending_report pending_updates)

lemma decode_pdu_reports: "pending out \<Longrightarrow> reports (decode_pdu tag val out)"
proof -
  assume p: "pending out"
  then have "trap_report False (out\<lparr>t_name := fit 48 ''non-trap'',
      t_description := fit 160 (''SNMP PDU type 0x'' @ hex2 tag @ '' on the trap port - not a trap'')\<rparr>)"
    by (auto simp: pending_def trap_report_def trap_wf_def text_char_def fit_eq_Nil)
  with p show ?thesis
    by (auto simp: decode_pdu_def decode_v1_reports decode_v2_reports)
qed

lemma blank_trap_wf: "trap_wf blank_trap"
  by (simp add: blank_trap_def trap_wf_def safe_field_def text_char_def)

lemma blank_trap_report: "trap_report False blank_trap"
  using blank_trap_wf by (simp add: trap_report_def) (simp add: blank_trap_def)

lemma blank_trap_pending: "v = 0 \<or> v = 1 \<Longrightarrow> pending (blank_trap\<lparr>t_version := v\<rparr>)"
  using blank_trap_wf by (auto simp: pending_def trap_wf_def) (auto simp: blank_trap_def)

lemma decode_snmp_trap_reports: "reports (decode_snmp_trap buf)"
proof -
  have v3: "trap_report False (blank_trap\<lparr>t_version := 3, t_name := ''snmpv3Trap'', t_category := ''trap'',
      t_description := ''SNMPv3 trap received - sysmond does not hold the v3 keys to decode it'',
      t_alertable := True\<rparr>)"
    using blank_trap_wf by (auto simp: trap_report_def trap_wf_def safe_field_def text_char_def)
      (simp_all add: blank_trap_def)
  have other: "trap_report False (blank_trap\<lparr>t_version := v\<rparr>)" if "v \<noteq> 3" for v
    using that blank_trap_report by (auto simp: trap_report_def trap_wf_def blank_trap_def)
  show ?thesis
    unfolding decode_snmp_trap_def Let_def
    using v3 other
    by (auto intro!: take_tlv_reports blank_trap_report decode_pdu_reports pending_report
        pending_updates blank_trap_pending simp del: trap_content.update_convs)
qed

section \<open>Well-formed version 2c notifications\<close>

text \<open>The reference encoding of a varbind, of the PDU body and of the whole message.\<close>

definition vb_tlv :: "byte list \<times> byte \<times> byte list \<Rightarrow> byte list" where
  "vb_tlv b = (case b of (oid, t, v) \<Rightarrow> tlv BER_SEQUENCE (tlv BER_OID oid @ tlv t v))"

definition v2_pdu :: "byte list \<Rightarrow> byte list \<Rightarrow> byte list \<Rightarrow> (byte list \<times> byte \<times> byte list) list \<Rightarrow> byte list" where
  "v2_pdu rid es ei bs =
     tlv BER_INTEGER rid @ tlv BER_INTEGER es @ tlv BER_INTEGER ei @ tlv BER_SEQUENCE (concat (map vb_tlv bs))"

definition v2_message ::
    "byte \<Rightarrow> byte list \<Rightarrow> byte list \<Rightarrow> byte list \<Rightarrow> byte list \<Rightarrow> (byte list \<times> byte \<times> byte list) list \<Rightarrow> byte list" where
  "v2_message pdutag comm rid es ei bs =
     tlv BER_INTEGER [1] @ tlv BER_OCTETSTR comm @ tlv pdutag (v2_pdu rid es ei bs)"

definition add_varbinds :: "(byte list \<times> byte \<times> byte list) list \<Rightarrow> trap_content \<Rightarrow> trap_content" where
  "add_varbinds bs out = foldl (\<lambda>acc (oid, t, v). add_varbind (snmp_ber_oid_str oid TRAP_OID_LEN) t v acc) out bs"

lemma length_tlv: "length v < length (tlv t v)"
  by (simp add: tlv_def tlv_header_def)

lemma decode_one_tlv:
  assumes "ctail c = vb_tlv (oid, t, v) @ rest" "length (vb_tlv (oid, t, v)) < 65536" "t AND 0x1f \<noteq> 0x1f"
  shows "decode_one c out = Got (add_varbind (snmp_ber_oid_str oid TRAP_OID_LEN) t v out,
           advance c (length (vb_tlv (oid, t, v))))"
proof -
  let ?body = "tlv BER_OID oid @ tlv t v"
  have len: "length ?body < 65536" "length oid < 65536" "length v < 65536"
    using assms(2) length_tlv[of ?body BER_SEQUENCE] length_tlv[of oid BER_OID] length_tlv[of v t]
    by (auto simp: vb_tlv_def)
  have "snmp_ber_next c = Got (BER_SEQUENCE, ?body, advance c (length (vb_tlv (oid, t, v))))"
    using snmp_ber_next_tlv[of c BER_SEQUENCE ?body rest] assms(1) len by (simp add: vb_tlv_def)
  moreover have first: "snmp_ber_next (snmp_ber_open ?body)
      = Got (BER_OID, oid, advance (snmp_ber_open ?body) (length (tlv BER_OID oid)))"
    using len by (intro snmp_ber_next_tlv[where rest = "tlv t v"]) simp_all
  moreover have "ctail (advance (snmp_ber_open ?body) (length (tlv BER_OID oid))) = tlv t v"
    by (rule ctail_after_tlv) simp
  then have "\<exists>c'. snmp_ber_next (advance (snmp_ber_open ?body) (length (tlv BER_OID oid))) = Got (t, v, c')"
    using snmp_ber_next_tlv[of _ t v "[]"] assms(3) len by simp
  ultimately show ?thesis
    by (auto simp: decode_one_def Let_def)
qed

lemma decode_loop_tlvs:
  assumes "ctail c = concat (map vb_tlv bs)" "length bs \<le> k"
    and "\<forall>(oid, t, v) \<in> set bs. t AND 0x1f \<noteq> 0x1f"
    and "length (concat (map vb_tlv bs)) < 65536"
  shows "decode_loop k c out = Got (add_varbinds bs out)"
  using assms
proof (induction bs arbitrary: c k out)
  case Nil
  then have "length (cbuf c) \<le> cpos c"
    using length_ctail[of c] by simp
  then have "snmp_ber_next c = Reject"
    by (simp add: snmp_ber_next_def)
  then show ?case
    by (cases k) (simp_all add: decode_one_def add_varbinds_def)
next
  case (Cons b bs)
  obtain oid t v where b: "b = (oid, t, v)" by (rule prod_cases3)
  obtain k' where k: "k = Suc k'" using Cons.prems(2) by (cases k) auto
  have one: "decode_one c out = Got (add_varbind (snmp_ber_oid_str oid TRAP_OID_LEN) t v out,
      advance c (length (vb_tlv b)))"
    using Cons.prems b decode_one_tlv[of c oid t v "concat (map vb_tlv bs)" out] by simp
  moreover have "ctail (advance c (length (vb_tlv b))) = concat (map vb_tlv bs)"
    using Cons.prems(1) by (simp add: ctail_advance)
  ultimately show ?case
    using Cons.IH[of _ k'] Cons.prems b k by (simp add: add_varbinds_def)
qed

lemma take_tlv_reads:
  assumes "ctail c = tlv t v @ rest" "t AND 0x1f \<noteq> 0x1f" "length v < 65536" "ok t"
  shows "take_tlv c ok out k = k t v (advance c (length (tlv t v)))"
  using snmp_ber_next_tlv[OF assms(1,2,3)] assms(4) by (simp add: take_tlv_def)

text \<open>Every part of a message is shorter than the message.\<close>

lemma v2_message_lengths:
  assumes "length (v2_message pdutag comm rid es ei bs) < 65536"
  shows "length comm < 65536" "length (v2_pdu rid es ei bs) < 65536" "length rid < 65536"
    "length es < 65536" "length ei < 65536" "length (concat (map vb_tlv bs)) < 65536"
  using assms length_tlv[of comm BER_OCTETSTR] length_tlv[of "v2_pdu rid es ei bs" pdutag]
    length_tlv[of rid BER_INTEGER] length_tlv[of es BER_INTEGER] length_tlv[of ei BER_INTEGER]
    length_tlv[of "concat (map vb_tlv bs)" BER_SEQUENCE]
  by (simp_all add: v2_message_def v2_pdu_def)

lemma decode_v2_packet:
  assumes "length (v2_message pdutag comm rid es ei bs) < 65536" "length bs \<le> TRAP_MAX_VARBIND - nvarbinds out"
    and "\<forall>(oid, t, v) \<in> set bs. t AND 0x1f \<noteq> 0x1f"
  shows "decode_v2 i (snmp_ber_open (v2_pdu rid es ei bs)) out
    = Got (True, (classify_trap (add_varbinds bs (out\<lparr>t_inform := i\<rparr>)))\<lparr>t_decoded := True, t_alertable := True\<rparr>)"
proof -
  note len = v2_message_lengths[OF assms(1)]
  let ?out = "out\<lparr>t_inform := i\<rparr>"
  let ?bs = "tlv BER_SEQUENCE (concat (map vb_tlv bs))"
  let ?c0 = "snmp_ber_open (v2_pdu rid es ei bs)"
  let ?c1 = "advance ?c0 (length (tlv BER_INTEGER rid))"
  let ?c2 = "advance ?c1 (length (tlv BER_INTEGER es))"
  let ?c3 = "advance ?c2 (length (tlv BER_INTEGER ei))"
  have c0: "ctail ?c0 = tlv BER_INTEGER rid @ tlv BER_INTEGER es @ tlv BER_INTEGER ei @ ?bs"
    by (simp add: v2_pdu_def)
  have c1: "ctail ?c1 = tlv BER_INTEGER es @ tlv BER_INTEGER ei @ ?bs"
    using c0 by (rule ctail_after_tlv)
  have c2: "ctail ?c2 = tlv BER_INTEGER ei @ ?bs"
    using c1 by (rule ctail_after_tlv)
  have c3: "ctail ?c3 = ?bs"
    using ctail_after_tlv[of ?c2 BER_INTEGER ei ?bs] c2 by simp
  have "snmp_ber_next ?c3 = Got (BER_SEQUENCE, concat (map vb_tlv bs), advance ?c3 (length ?bs))"
    using c3 len(6) by (intro snmp_ber_next_tlv[where rest = "[]"]) simp_all
  moreover have "decode_loop (TRAP_MAX_VARBIND - nvarbinds ?out) (snmp_ber_open (concat (map vb_tlv bs))) ?out
      = Got (add_varbinds bs ?out)"
    using assms(2,3) len(6) by (intro decode_loop_tlvs) simp_all
  ultimately have "decode_varbinds ?c3 ?out = Got (add_varbinds bs ?out)"
    by (simp add: decode_varbinds_def)
  then show ?thesis
    using take_tlv_reads[OF c0] take_tlv_reads[OF c1] take_tlv_reads[OF c2] len
    by (simp add: decode_v2_def decode_finish_def)
qed

lemma decode_v2_message:
  assumes "length (v2_message pdutag comm rid es ei bs) < 65536" "length bs \<le> TRAP_MAX_VARBIND"
    and "\<forall>(oid, t, v) \<in> set bs. t AND 0x1f \<noteq> 0x1f"
    and "pdutag = PDU_TRAP_V2 \<or> pdutag = PDU_INFORM"
  shows "decode_snmp_trap (tlv BER_SEQUENCE (v2_message pdutag comm rid es ei bs))
    = Got (True, (classify_trap (add_varbinds bs
        (blank_trap\<lparr>t_version := 1, t_community := ber_string_str comm 64, t_inform := (pdutag = PDU_INFORM)\<rparr>)))
          \<lparr>t_decoded := True, t_alertable := True\<rparr>)"
proof -
  note len = v2_message_lengths[OF assms(1)]
  let ?msg = "v2_message pdutag comm rid es ei bs"
  let ?out = "blank_trap\<lparr>t_version := 1, t_community := ber_string_str comm 64\<rparr>"
  let ?s0 = "snmp_ber_open ?msg"
  let ?s1 = "advance ?s0 (length (tlv BER_INTEGER [1]))"
  let ?s2 = "advance ?s1 (length (tlv BER_OCTETSTR comm))"
  have m0: "ctail (snmp_ber_open (tlv BER_SEQUENCE ?msg)) = tlv BER_SEQUENCE ?msg @ []"
    by simp
  have s0: "ctail ?s0 = tlv BER_INTEGER [1] @ tlv BER_OCTETSTR comm @ tlv pdutag (v2_pdu rid es ei bs)"
    by (simp add: v2_message_def)
  have s1: "ctail ?s1 = tlv BER_OCTETSTR comm @ tlv pdutag (v2_pdu rid es ei bs)"
    using s0 by (rule ctail_after_tlv)
  have s2: "ctail ?s2 = tlv pdutag (v2_pdu rid es ei bs) @ []"
    using ctail_after_tlv[OF s1] by simp
  have tag: "pdutag AND 0x1f \<noteq> 0x1f"
    using assms(4) by auto
  have ver: "to_int32 (snmp_ber_int [1]) = 1"
    by (simp add: snmp_ber_int_eq be_signed_def be_nat_Cons to_int32_def)
  have pdu: "decode_pdu pdutag (v2_pdu rid es ei bs) ?out
      = decode_v2 (pdutag = PDU_INFORM) (snmp_ber_open (v2_pdu rid es ei bs)) ?out"
    using assms(4) by (auto simp: decode_pdu_def)
  have "nvarbinds ?out = 0"
    by (simp add: blank_trap_def)
  then show ?thesis
    using take_tlv_reads[OF m0 _ assms(1)] take_tlv_reads[OF s0] take_tlv_reads[OF s1 _ len(1)]
      take_tlv_reads[OF s2 tag len(2)] ver pdu decode_v2_packet[OF assms(1) _ assms(3), of ?out] assms(2) tag
    by (simp add: decode_snmp_trap_def tlv_def tlv_header_def)
qed


section \<open>Version 1 and version 2c name the six standard traps alike\<close>

lemma int_string_small: "0 \<le> i \<Longrightarrow> i < 10 \<Longrightarrow> int_string i = [digit_char (nat i)]"
  by (simp add: int_string_def dec_string.simps)

lemma standard_table:
  "list_all (\<lambda>m. st_generic (trap_standard ! m) = int m
     \<and> st_oid (trap_standard ! m) = ''.1.3.6.1.6.3.1.1.5.'' @ [digit_char (m + 1)]) [0..<6]"
  "length trap_standard = 6" "distinct (map st_oid trap_standard)"
  by code_simp+

lemma standard_row:
  "m < 6 \<Longrightarrow> st_generic (trap_standard ! m) = int m"
  "m < 6 \<Longrightarrow> st_oid (trap_standard ! m) = ''.1.3.6.1.6.3.1.1.5.'' @ [digit_char (m + 1)]"
  using standard_table(1) by (auto simp: list_all_iff)

lemma v1_standard_oid:
  assumes "0 \<le> t_generic out" "t_generic out \<le> 5"
  shows "t_trap_oid (v1_trap_oid out) = st_oid (trap_standard ! nat (t_generic out))"
proof -
  have "int_string (t_generic out + 1) = [digit_char (nat (t_generic out) + 1)]"
    using assms by (simp add: int_string_small nat_add_distrib)
  with assms standard_row(2)[of "nat (t_generic out)"] show ?thesis
    by (simp add: v1_trap_oid_def fit_id)
qed

lemma find_standard_oid:
  assumes "n < 6" "t_trap_oid out = st_oid (trap_standard ! n)"
    and "t_version out = 0 \<Longrightarrow> t_generic out = int n"
  shows "find (standard_hit out) trap_standard = Some (trap_standard ! n)"
proof -
  have "standard_hit out (trap_standard ! n)"
    unfolding standard_hit_def assms(2) using standard_row(2)[OF assms(1)] by simp
  moreover have "\<not> standard_hit out (trap_standard ! m)" if "m < n" for m
  proof -
    have "st_oid (trap_standard ! m) \<noteq> st_oid (trap_standard ! n)"
      using that assms(1) nth_eq_iff_index_eq[OF standard_table(3), of m n] by (simp add: standard_table(2))
    moreover have "st_generic (trap_standard ! m) \<noteq> int n"
      using that assms(1) standard_row(1)[of m] by simp
    ultimately show ?thesis
      using assms(2,3) unfolding standard_hit_def by metis
  qed
  ultimately show ?thesis
    unfolding find_Some_iff using assms(1) standard_table(2) by (intro exI[of _ n]) simp
qed

lemma classify_trap_standard:
  assumes "find (standard_hit out) trap_standard = Some e"
  shows "t_name (classify_trap out) = fit 48 (st_name e)"
    "t_severity (classify_trap out) = fit 16 (st_severity e)"
    "t_category (classify_trap out) = fit 24 (st_category e)"
  using assms by (simp_all add: classify_trap_def frame classify_name_def)


section \<open>Properties\<close>


text \<open>
  Only a real notification can page: the record is alertable exactly when the packet
  decoded as a version 1 or version 2c trap, or is an SNMPv3 message the daemon cannot open.
\<close>

theorem decode_snmp_trap_alertable:
  assumes "decode_snmp_trap buf = Got (r, t)"
  shows "t_decoded t = r \<and> (t_alertable t \<longleftrightarrow> (r \<and> (t_version t = 0 \<or> t_version t = 1)) \<or> t_version t = 3)"
  using decode_snmp_trap_reports[of buf] assms by (auto simp: trap_report_def)

theorem decode_snmp_trap_alertable_witness:
  "t_decoded blank_trap = False \<and> (t_alertable blank_trap \<longleftrightarrow>
     (False \<and> (t_version blank_trap = 0 \<or> t_version blank_trap = 1)) \<or> t_version blank_trap = 3)"
proof -
  have "decode_snmp_trap [] = Got (False, blank_trap)"
    by (simp add: decode_snmp_trap_def)
  from decode_snmp_trap_alertable[OF this] show ?thesis by simp
qed


definition linkdown_varbinds :: "(byte list \<times> byte \<times> byte list) list" where
  "linkdown_varbinds =
     [([43, 6, 1, 6, 3, 1, 1, 4, 1, 0], BER_OID, [43, 6, 1, 6, 3, 1, 1, 5, 3])]"


text \<open>
  The six standard traps mean the same in both protocol versions: a version 1 trap with
  generic number 0 to 5 gets the name, severity and category that a version 2c trap with the
  equivalent snmpTrapOID gets.
\<close>

theorem v1_v2_same_classification:
  assumes "t_version a = 0" "0 \<le> t_generic a" "t_generic a \<le> 5"
    and "t_version b = 1" "t_trap_oid b = t_trap_oid (v1_trap_oid a)"
  shows "t_name (classify_trap (v1_trap_oid a)) = t_name (classify_trap b)
    \<and> t_severity (classify_trap (v1_trap_oid a)) = t_severity (classify_trap b)
    \<and> t_category (classify_trap (v1_trap_oid a)) = t_category (classify_trap b)"
proof -
  let ?n = "nat (t_generic a)"
  have oid: "t_trap_oid (v1_trap_oid a) = st_oid (trap_standard ! ?n)"
    using assms(2,3) by (rule v1_standard_oid)
  have "t_version (v1_trap_oid a) = 0" "t_generic (v1_trap_oid a) = t_generic a"
    using assms(1) by (simp_all add: v1_trap_oid_def Let_def)
  then have "find (standard_hit (v1_trap_oid a)) trap_standard = Some (trap_standard ! ?n)"
    using oid assms(2,3) by (intro find_standard_oid) auto
  moreover have "find (standard_hit b) trap_standard = Some (trap_standard ! ?n)"
    using oid assms by (intro find_standard_oid) auto
  ultimately show ?thesis
    by (simp add: classify_trap_standard)
qed

lemma digit_char_3: "digit_char 3 = CHR ''3''"
  by code_simp

theorem v1_v2_same_classification_witness:
  "t_name (classify_trap (v1_trap_oid (blank_trap\<lparr>t_version := 0, t_generic := 2\<rparr>)))
     = t_name (classify_trap (blank_trap\<lparr>t_version := 1, t_trap_oid := ''.1.3.6.1.6.3.1.1.5.3''\<rparr>))
   \<and> t_severity (classify_trap (v1_trap_oid (blank_trap\<lparr>t_version := 0, t_generic := 2\<rparr>)))
     = t_severity (classify_trap (blank_trap\<lparr>t_version := 1, t_trap_oid := ''.1.3.6.1.6.3.1.1.5.3''\<rparr>))
   \<and> t_category (classify_trap (v1_trap_oid (blank_trap\<lparr>t_version := 0, t_generic := 2\<rparr>)))
     = t_category (classify_trap (blank_trap\<lparr>t_version := 1, t_trap_oid := ''.1.3.6.1.6.3.1.1.5.3''\<rparr>))"
  by (rule v1_v2_same_classification) (simp_all add: v1_trap_oid_def int_string_small digit_char_3 fit_id)

text \<open>
  The composite OID of a version 1 enterprise trap is cut at 160 characters of the
  enterprise OID even where enterprise and suffix fit the field whole.
\<close>

theorem v1_composite_oid_cut:
  assumes "t_generic out = 6" "160 < length (t_enterprise out)"
    and "length (t_enterprise out) + length (fit 24 (''.0.'' @ int_string (t_specific out))) < TRAP_OID_LEN"
  shows "t_trap_oid (v1_trap_oid out)
      = take 160 (t_enterprise out) @ fit 24 (''.0.'' @ int_string (t_specific out))
    \<and> t_trap_oid (v1_trap_oid out) \<noteq> t_enterprise out @ fit 24 (''.0.'' @ int_string (t_specific out))"
proof -
  let ?s = "fit 24 (''.0.'' @ int_string (t_specific out))"
  have "length ?s < 24" by (rule length_fit) simp
  then have eq: "t_trap_oid (v1_trap_oid out) = take 160 (t_enterprise out) @ ?s"
    using assms by (simp add: v1_trap_oid_def Let_def fit_id)
  moreover have "length (take 160 (t_enterprise out) @ ?s) < length (t_enterprise out @ ?s)"
    using assms(2) by simp
  ultimately show ?thesis by (metis nat_neq_iff)
qed

definition long_enterprise :: trap_content where
  "long_enterprise = blank_trap\<lparr>t_generic := 6, t_specific := 5, t_enterprise := replicate 170 CHR ''1''\<rparr>"

theorem v1_composite_oid_cut_witness:
  "t_trap_oid (v1_trap_oid long_enterprise)
      = take 160 (t_enterprise long_enterprise) @ fit 24 (''.0.'' @ int_string (t_specific long_enterprise))
    \<and> t_trap_oid (v1_trap_oid long_enterprise)
      \<noteq> t_enterprise long_enterprise @ fit 24 (''.0.'' @ int_string (t_specific long_enterprise))"
  by (rule v1_composite_oid_cut) (simp_all add: long_enterprise_def int_string_small fit_def)

end
