(* ===== verification/Trap_History.thy ===== *)
theory Trap_History
  imports Ring_Log Trap_Decode
begin

text \<open>
  The recent trap history at the end of trapdecode.c: a ring of \<open>TRAP_HISTORY_MAX\<close> records with
  a wrapping write index, a fill count and a total that numbers the records from 1. The
  sequence number lets a client that asks for everything after N find out which traps the
  ring had overwritten before it asked. The ring is an interpretation of the bounded history
  interface, and the client-side reasoning rests on the facts of that interpretation.
\<close>

section \<open>State\<close>

abbreviation (input) TRAP_HISTORY_MAX :: nat where "TRAP_HISTORY_MAX \<equiv> 128"
abbreviation (input) OBJECT_NAME_SIZE :: nat where "OBJECT_NAME_SIZE \<equiv> 128"

record trap_record =
  r_seq :: u64
  r_source :: string
  r_when :: int
  r_bytes :: int
  r_matched :: string
  r_alert_enabled :: bool
  r_alert_sent :: bool
  r_content :: trap_content

text \<open>
  The file-scope variables of trapdecode.c. A slot never written holds the zero record of
  static storage.
\<close>

record trap_history =
  trap_ring :: "trap_record list"
  trap_ring_count :: nat
  trap_ring_next :: nat
  trap_ring_total :: u64

definition zero_content :: trap_content where
  "zero_content =
     \<lparr>t_version = 0, t_decoded = False, t_alertable = False, t_inform = False, t_community = [],
      t_trap_oid = [], t_enterprise = [], t_agent = [], t_name = [], t_description = [],
      t_severity = [], t_category = [], t_vendor = [], t_iface = [],
      t_ifindex = 0, t_generic = 0, t_specific = 0, t_uptime = 0, vbs = []\<rparr>"

definition zero_record :: trap_record where
  "zero_record =
     \<lparr>r_seq = 0, r_source = [], r_when = 0, r_bytes = 0, r_matched = [],
      r_alert_enabled = False, r_alert_sent = False, r_content = zero_content\<rparr>"

definition trap_history_init :: trap_history where
  "trap_history_init =
     \<lparr>trap_ring = replicate TRAP_HISTORY_MAX zero_record, trap_ring_count = 0,
      trap_ring_next = 0, trap_ring_total = 0\<rparr>"

section \<open>Operations\<close>

text \<open>The arguments of \<open>trap_history_add\<close>; a NULL pointer is \<open>None\<close>.\<close>

record trap_arrival =
  a_source :: "string option"
  a_when :: int
  a_bytes :: int
  a_content :: "trap_content option"
  a_matched :: "string option"
  a_alert_enabled :: bool
  a_alert_sent :: bool

definition trap_history_entry :: "trap_arrival \<Rightarrow> trap_history \<Rightarrow> trap_record" where
  "trap_history_entry a h =
     \<lparr>r_seq = trap_ring_total h + 1,
      r_source = fit IP_ADDR_STR_SIZE (case a_source a of Some s \<Rightarrow> s | None \<Rightarrow> []),
      r_when = a_when a,
      r_bytes = a_bytes a,
      r_matched = (case a_matched a of Some m \<Rightarrow> fit OBJECT_NAME_SIZE m | None \<Rightarrow> []),
      r_alert_enabled = a_alert_enabled a,
      r_alert_sent = a_alert_sent a,
      r_content = (case a_content a of Some c \<Rightarrow> c | None \<Rightarrow> zero_content)\<rparr>"

definition trap_history_add :: "trap_arrival \<Rightarrow> trap_history \<Rightarrow> trap_history" where
  "trap_history_add a h =
     \<lparr>trap_ring = (trap_ring h)[trap_ring_next h := trap_history_entry a h],
      trap_ring_count = (if trap_ring_count h < TRAP_HISTORY_MAX then trap_ring_count h + 1
                         else trap_ring_count h),
      trap_ring_next = (trap_ring_next h + 1) mod TRAP_HISTORY_MAX,
      trap_ring_total = trap_ring_total h + 1\<rparr>"

definition trap_history_count :: "trap_history \<Rightarrow> nat" where
  "trap_history_count h = trap_ring_count h"

definition trap_history_total :: "trap_history \<Rightarrow> u64" where
  "trap_history_total h = trap_ring_total h"

text \<open>The loop \<open>while (idx < 0) idx += TRAP_HISTORY_MAX\<close>.\<close>

function wrap_idx :: "int \<Rightarrow> int" where
  "wrap_idx idx = (if idx < 0 then wrap_idx (idx + 128) else idx)"
  by pat_completeness auto
termination by (relation "measure (\<lambda>idx. nat (- idx))") auto

declare wrap_idx.simps [simp del]

definition trap_history_get :: "int \<Rightarrow> trap_history \<Rightarrow> trap_record option" where
  "trap_history_get age h =
     (if age < 0 \<or> age \<ge> int (trap_ring_count h) then None
      else Some (trap_ring h ! nat (wrap_idx (int (trap_ring_next h) - 1 - age))))"

definition trap_history_oldest_seq :: "trap_history \<Rightarrow> u64" where
  "trap_history_oldest_seq h =
     (case trap_history_get (int (trap_ring_count h) - 1) h of Some r \<Rightarrow> r_seq r | None \<Rightarrow> 0)"

section \<open>Invariant and view\<close>

text \<open>The records held, newest first, and what is true of the ring between operations.\<close>

definition trap_held :: "trap_history \<Rightarrow> trap_record list" where
  "trap_held h = ring_view TRAP_HISTORY_MAX (trap_ring h) (trap_ring_next h) (trap_ring_count h)"

definition numbered :: "trap_history \<Rightarrow> bool" where
  "numbered h = (\<forall>i < length (trap_held h). r_seq (trap_held h ! i) = trap_ring_total h - of_nat i)"

definition trap_history_wf :: "trap_history \<Rightarrow> bool" where
  "trap_history_wf h =
     (length (trap_ring h) = TRAP_HISTORY_MAX \<and> trap_ring_next h < TRAP_HISTORY_MAX
      \<and> trap_ring_count h \<le> TRAP_HISTORY_MAX \<and> numbered h)"

lemma length_trap_held [simp]: "length (trap_held h) = trap_ring_count h"
  by (simp add: trap_held_def ring_view_def)

lemma trap_held_add:
  "trap_history_wf h \<Longrightarrow>
   trap_held (trap_history_add a h) = take TRAP_HISTORY_MAX (trap_history_entry a h # trap_held h)"
  unfolding trap_held_def trap_history_add_def trap_history_wf_def
  using ring_view_write [of "trap_ring h" 128 "trap_ring_next h" "trap_ring_count h" "trap_history_entry a h"]
  by (cases "trap_ring_count h < 128") simp_all

lemma numbered_add:
  assumes "trap_history_wf h"
  shows "numbered (trap_history_add a h)"
  unfolding numbered_def
proof (intro allI impI)
  fix i assume "i < length (trap_held (trap_history_add a h))"
  then have i: "i < Suc (trap_ring_count h)" "i < 128"
    using assms by (auto simp: trap_history_add_def trap_history_wf_def split: if_splits)
  have old: "r_seq (trap_held h ! j) = trap_ring_total h - of_nat j" if "j < trap_ring_count h" for j
    using assms that by (simp add: trap_history_wf_def numbered_def)
  have tot: "trap_ring_total (trap_history_add a h) = trap_ring_total h + 1"
    by (simp add: trap_history_add_def)
  show "r_seq (trap_held (trap_history_add a h) ! i) = trap_ring_total (trap_history_add a h) - of_nat i"
    using i old [of "i - 1"]
    by (cases i) (simp_all add: trap_held_add [OF assms] tot trap_history_entry_def)
qed

lemma trap_history_wf_add: "trap_history_wf h \<Longrightarrow> trap_history_wf (trap_history_add a h)"
  using numbered_add [of h a] by (simp add: trap_history_wf_def trap_history_add_def)

lemma trap_history_wf_init: "trap_history_wf trap_history_init"
  by (simp add: trap_history_wf_def trap_history_init_def numbered_def)

interpretation traps: bounded_log TRAP_HISTORY_MAX trap_history_wf trap_held trap_history_entry trap_history_add
proof unfold_locales
  fix s :: trap_history and a
  assume wf: "trap_history_wf s"
  show "trap_history_wf (trap_history_add a s)" by (rule trap_history_wf_add [OF wf])
  show "trap_held (trap_history_add a s) = take TRAP_HISTORY_MAX (trap_history_entry a s # trap_held s)"
    by (rule trap_held_add [OF wf])
  show "length (trap_held s) \<le> TRAP_HISTORY_MAX" using wf by (simp add: trap_history_wf_def)
qed

section \<open>Reading the history\<close>

lemma wrap_idx_mod: "- 128 \<le> idx \<Longrightarrow> idx < 128 \<Longrightarrow> wrap_idx idx = idx mod 128"
proof (cases "idx < 0")
  case True
  assume lo: "- 128 \<le> idx"
  have "wrap_idx idx = wrap_idx (idx + 128)" using True by (subst wrap_idx.simps) simp
  also have "\<dots> = idx + 128" using lo by (subst wrap_idx.simps) simp
  also have "\<dots> = (idx + 128) mod 128" using True lo by (intro mod_pos_pos_trivial [symmetric]) auto
  finally show ?thesis by simp
next
  case False
  assume "idx < 128"
  with False show ?thesis by (subst wrap_idx.simps) simp
qed

lemma trap_history_get_held:
  assumes "trap_history_wf h"
  shows "trap_history_get age h =
         (if 0 \<le> age \<and> age < int (length (trap_held h)) then Some (trap_held h ! nat age) else None)"
proof (cases "0 \<le> age \<and> age < int (trap_ring_count h)")
  case True
  then obtain k where k: "age = int k" "k < trap_ring_count h" by (metis nonneg_int_cases of_nat_less_iff)
  have b: "trap_ring_count h \<le> 128" "trap_ring_next h < 128"
    using assms by (auto simp: trap_history_wf_def)
  have "wrap_idx (int (trap_ring_next h) - 1 - int k) = (int (trap_ring_next h) - 1 - int k) mod 128"
    using k b by (intro wrap_idx_mod) auto
  also have "\<dots> = (int (trap_ring_next h) - 1 - int k + 128) mod 128" by (simp only: mod_add_self2)
  also have "int (trap_ring_next h) - 1 - int k + 128 = int (trap_ring_next h + 128 - 1 - k)"
    using k b by simp
  finally have "nat (wrap_idx (int (trap_ring_next h) - 1 - int k)) = ring_slot 128 (trap_ring_next h) k"
    by (simp add: ring_slot_def nat_mod_distrib zmod_int [symmetric])
  then show ?thesis using k by (simp add: trap_history_get_def trap_held_def ring_view_def)
next
  case False
  then show ?thesis by (auto simp: trap_history_get_def)
qed

lemma oldest_seq_eq:
  assumes "trap_history_wf h"
  shows "trap_history_oldest_seq h =
         (if trap_ring_count h = 0 then 0 else trap_ring_total h - of_nat (trap_ring_count h) + 1)"
proof (cases "trap_ring_count h")
  case 0
  then show ?thesis by (simp add: trap_history_oldest_seq_def trap_history_get_def)
next
  case (Suc n)
  then have "r_seq (trap_held h ! n) = trap_ring_total h - of_nat n"
    using assms by (simp add: trap_history_wf_def numbered_def)
  then show ?thesis using Suc
    by (simp add: trap_history_oldest_seq_def trap_history_get_held [OF assms])
qed

lemma stamps_seq:
  "i < length as \<Longrightarrow>
   r_seq (stamps trap_history_entry trap_history_add as h ! i) = trap_ring_total h + of_nat (Suc i)"
proof (induction as arbitrary: i h)
  case (Cons a as)
  then show ?case
    by (cases i) (simp_all add: trap_history_entry_def trap_history_add_def algebra_simps)
qed simp

lemma fold_add_total: "trap_ring_total (fold trap_history_add as h) = trap_ring_total h + of_nat (length as)"
  by (induction as arbitrary: h) (simp_all add: trap_history_add_def algebra_simps)

text \<open>
  C38. After any sequence of arrivals the history answers exactly the last 128 of them, newest
  first: reading by age returns the arrival of that age with all its fields (source and matched
  name cut to their buffers), and NULL beyond the oldest one held or for a negative age.
\<close>

theorem trap_history_last_128:
  "trap_history_get age (fold trap_history_add as trap_history_init) =
     (if 0 \<le> age \<and> age < int (min 128 (length as))
      then Some (rev (stamps trap_history_entry trap_history_add as trap_history_init) ! nat age) else None)"
proof -
  let ?h = "fold trap_history_add as trap_history_init"
  have wf: "trap_history_wf ?h" by (rule traps.inv_adds [OF trap_history_wf_init])
  have "trap_held trap_history_init = []" by (simp add: trap_held_def ring_view_def trap_history_init_def)
  then have held: "trap_held ?h = take 128 (rev (stamps trap_history_entry trap_history_add as trap_history_init))"
    using traps.held_adds [OF trap_history_wf_init, of as] by simp
  show ?thesis
    unfolding trap_history_get_held [OF wf] held by auto
qed

lemma held_seqs:
  assumes wf: "trap_history_wf h" and c: "trap_ring_count h \<le> unat (trap_ring_total h)"
  shows "unat ` r_seq ` set (trap_held h) =
         {unat (trap_ring_total h) - trap_ring_count h <.. unat (trap_ring_total h)}"
proof -
  let ?N = "unat (trap_ring_total h)" and ?c = "trap_ring_count h"
  have seq: "unat (r_seq (trap_held h ! i)) = ?N - i" if "i < ?c" for i
  proof -
    have "i \<le> ?N" using that c by simp
    then have "unat (of_nat i :: u64) = i"
      by (intro unat_of_nat_len order.strict_trans1 [OF _ unsigned_less [of "trap_ring_total h"]]) simp
    with \<open>i \<le> ?N\<close> have "unat (trap_ring_total h - of_nat i) = ?N - i"
      by (subst unat_sub) (simp_all add: word_le_nat_alt)
    then show ?thesis using wf that by (simp add: trap_history_wf_def numbered_def)
  qed
  have "unat ` r_seq ` set (trap_held h) = (\<lambda>i. ?N - i) ` {..< ?c}"
    by (auto simp: set_conv_nth image_def seq) (metis seq)+
  also have "\<dots> = {?N - ?c <.. ?N}"
  proof (intro equalityI subsetI)
    fix k assume "k \<in> {?N - ?c <.. ?N}"
    then show "k \<in> (\<lambda>i. ?N - i) ` {..< ?c}" using c by (intro image_eqI [of _ _ "?N - k"]) auto
  qed (use c in auto)
  finally show ?thesis .
qed

lemma fold_add_count:
  "trap_ring_count (fold trap_history_add as trap_history_init) = min 128 (length as)"
proof -
  have "trap_ring_count trap_history_init = 0" by (simp add: trap_history_init_def)
  then show ?thesis using traps.held_count [OF trap_history_wf_init, of as] by simp
qed

text \<open>
  Gap detection. A client that has seen the numbers up to \<open>n\<close> and then reads the total and
  the oldest number held knows, from these two figures alone, exactly how many of the arrivals
  since then it can no longer read: the ring has lost \<open>oldest - n - 1\<close> of them, and none when
  the oldest number is at most \<open>n + 1\<close>. (Stated for runs of fewer than \<open>2 ^ 64\<close> arrivals.)
\<close>

theorem trap_history_gap:
  fixes as :: "trap_arrival list" and n :: nat
  assumes "length as < 2 ^ 64" "n \<le> length as" "as \<noteq> []"
    and h: "h = fold trap_history_add as trap_history_init"
  shows "unat (trap_history_total h) = length as
    \<and> unat (trap_history_oldest_seq h) = length as - min 128 (length as) + 1
    \<and> card {k. n < k \<and> k \<le> length as \<and> (\<forall>r \<in> set (trap_held h). unat (r_seq r) \<noteq> k)} =
        unat (trap_history_oldest_seq h) - n - 1"
proof (intro conjI)
  let ?N = "length as" and ?c = "min 128 (length as)"
  have wf: "trap_history_wf h" unfolding h by (rule traps.inv_adds [OF trap_history_wf_init])
  have N: "unat (trap_ring_total h) = ?N"
    using assms(1) by (simp add: h fold_add_total trap_history_init_def unat_of_nat_len)
  have c: "trap_ring_count h = ?c" unfolding h by (rule fold_add_count)
  show "unat (trap_history_total h) = ?N" by (simp add: trap_history_total_def N)
  have "trap_ring_total h = of_nat ?N" using N by (metis of_nat_unat ucast_id)
  then have "trap_history_oldest_seq h = of_nat (?N - ?c + 1)"
    using assms(3) oldest_seq_eq [OF wf] c by (cases as) simp_all
  then show oldest: "unat (trap_history_oldest_seq h) = ?N - ?c + 1"
    using assms(1,3) by (simp only:, intro unat_of_nat_len) (cases as, auto)
  have "{k. n < k \<and> k \<le> ?N \<and> (\<forall>r \<in> set (trap_held h). unat (r_seq r) \<noteq> k)} =
        {n<..?N} - unat ` r_seq ` set (trap_held h)" by auto
  also have "\<dots> = {n<..?N - ?c}" by (subst held_seqs [OF wf]) (auto simp: N c)
  finally show "card {k. n < k \<and> k \<le> ?N \<and> (\<forall>r \<in> set (trap_held h). unat (r_seq r) \<noteq> k)} =
        unat (trap_history_oldest_seq h) - n - 1" by (simp add: oldest)
qed

text \<open>The property at 130 arrivals, of which a client had seen one: two are lost to it.\<close>

theorem trap_history_gap_witness:
  "card {k. 0 < k \<and> k \<le> 130 \<and>
      (\<forall>r \<in> set (trap_held (fold trap_history_add
          (replicate 130 \<lparr>a_source = None, a_when = 0, a_bytes = 40, a_content = None, a_matched = None,
              a_alert_enabled = False, a_alert_sent = False\<rparr>) trap_history_init)).
         unat (r_seq r) \<noteq> k)} = 2"
  using trap_history_gap [OF _ _ _ refl, of
    "replicate 130 \<lparr>a_source = None, a_when = 0, a_bytes = 40, a_content = None, a_matched = None,
              a_alert_enabled = False, a_alert_sent = False\<rparr>" 0]
  by (simp del: replicate.simps)

end
