(* ===== verification/Lib_Names.thy ===== *)
theory Lib_Names
  imports Ber_Reader "HOL-Library.Signed_Division"
begin

text \<open>
  The naming and formatting helpers of lib.c: check types and SNMP test types between their
  configuration words and their numbers, result codes as text, errno values as result codes,
  site names, and the printed form of an outage's length. The numeric constants are those of
  config.h.
\<close>

section \<open>Constants of config.h\<close>

abbreviation (input) SYSM_TYPE_TCP :: int where "SYSM_TYPE_TCP \<equiv> 1"
abbreviation (input) SYSM_TYPE_UDP :: int where "SYSM_TYPE_UDP \<equiv> 2"
abbreviation (input) SYSM_TYPE_PING :: int where "SYSM_TYPE_PING \<equiv> 3"
abbreviation (input) SYSM_TYPE_SNMP :: int where "SYSM_TYPE_SNMP \<equiv> 4"
abbreviation (input) SYSM_TYPE_NNTP :: int where "SYSM_TYPE_NNTP \<equiv> 5"
abbreviation (input) SYSM_TYPE_SMTP :: int where "SYSM_TYPE_SMTP \<equiv> 6"
abbreviation (input) SYSM_TYPE_IMAP :: int where "SYSM_TYPE_IMAP \<equiv> 7"
abbreviation (input) SYSM_TYPE_POP3 :: int where "SYSM_TYPE_POP3 \<equiv> 8"
abbreviation (input) SYSM_TYPE_X500 :: int where "SYSM_TYPE_X500 \<equiv> 9"
abbreviation (input) SYSM_TYPE_POP2 :: int where "SYSM_TYPE_POP2 \<equiv> 10"
abbreviation (input) SYSM_TYPE_BOOTP :: int where "SYSM_TYPE_BOOTP \<equiv> 11"
abbreviation (input) SYSM_TYPE_DNS :: int where "SYSM_TYPE_DNS \<equiv> 12"
abbreviation (input) SYSM_TYPE_WWW :: int where "SYSM_TYPE_WWW \<equiv> 13"
abbreviation (input) SYSM_TYPE_RADIUS :: int where "SYSM_TYPE_RADIUS \<equiv> 14"
abbreviation (input) SYSM_TYPE_HTTPS :: int where "SYSM_TYPE_HTTPS \<equiv> 15"
abbreviation (input) SYSM_TYPE_SYSM :: int where "SYSM_TYPE_SYSM \<equiv> 16"
abbreviation (input) SYSM_TYPE_SSHD :: int where "SYSM_TYPE_SSHD \<equiv> 17"
abbreviation (input) SYSM_TYPE_IRCD :: int where "SYSM_TYPE_IRCD \<equiv> 18"
abbreviation (input) SYSM_TYPE_PING_LATENCY :: int where "SYSM_TYPE_PING_LATENCY \<equiv> 19"
abbreviation (input) SYSM_TYPE_PINGv6 :: int where "SYSM_TYPE_PINGv6 \<equiv> 20"
abbreviation (input) SYSM_TYPE_PKTLOSS :: int where "SYSM_TYPE_PKTLOSS \<equiv> 22"

abbreviation (input) SYSM_ERR :: int where "SYSM_ERR \<equiv> - 2"
abbreviation (input) SYSM_OK :: int where "SYSM_OK \<equiv> 0"
abbreviation (input) SYSM_CONNREF :: int where "SYSM_CONNREF \<equiv> 1"
abbreviation (input) SYSM_NETUNRCH :: int where "SYSM_NETUNRCH \<equiv> 2"
abbreviation (input) SYSM_HOSTDOWN :: int where "SYSM_HOSTDOWN \<equiv> 3"
abbreviation (input) SYSM_TIMEDOUT :: int where "SYSM_TIMEDOUT \<equiv> 4"
abbreviation (input) SYSM_NODNS :: int where "SYSM_NODNS \<equiv> 5"
abbreviation (input) SYSM_UNPINGABLE :: int where "SYSM_UNPINGABLE \<equiv> 6"
abbreviation (input) SYSM_THROTTLED :: int where "SYSM_THROTTLED \<equiv> 7"
abbreviation (input) SYSM_NOAUTH :: int where "SYSM_NOAUTH \<equiv> 8"
abbreviation (input) SYSM_NORESP :: int where "SYSM_NORESP \<equiv> 9"
abbreviation (input) SYSM_INPROG :: int where "SYSM_INPROG \<equiv> 10"
abbreviation (input) SYSM_BAD_AUTH :: int where "SYSM_BAD_AUTH \<equiv> 11"
abbreviation (input) SYSM_BAD_RESP :: int where "SYSM_BAD_RESP \<equiv> 12"
abbreviation (input) X500_WEDGED :: int where "X500_WEDGED \<equiv> 13"
abbreviation (input) SYSM_KILLED :: int where "SYSM_KILLED \<equiv> 14"
abbreviation (input) SYSM_RTT_HIGH :: int where "SYSM_RTT_HIGH \<equiv> 16"
abbreviation (input) SYSM_SNMP_REBOOT :: int where "SYSM_SNMP_REBOOT \<equiv> 17"
abbreviation (input) SYSM_SNMP_HIGH :: int where "SYSM_SNMP_HIGH \<equiv> 18"
abbreviation (input) SYSM_SNMP_LOW :: int where "SYSM_SNMP_LOW \<equiv> 19"
abbreviation (input) SYSM_SNMP_OOR :: int where "SYSM_SNMP_OOR \<equiv> 20"
abbreviation (input) SYSM_SNMP_NOTEXACT :: int where "SYSM_SNMP_NOTEXACT \<equiv> 21"
abbreviation (input) SYSM_SNMP_HIGHRATE :: int where "SYSM_SNMP_HIGHRATE \<equiv> 22"
abbreviation (input) SYSM_PKTLOSS_EXCEED :: int where "SYSM_PKTLOSS_EXCEED \<equiv> 23"
abbreviation (input) SYSM_SNMP_TRAP :: int where "SYSM_SNMP_TRAP \<equiv> 24"
abbreviation (input) SYSM_JITTER_HIGH :: int where "SYSM_JITTER_HIGH \<equiv> 25"

abbreviation (input) SYSM_CONTACT_DOWN :: int where "SYSM_CONTACT_DOWN \<equiv> 1"
abbreviation (input) SYSM_CONTACT_UP :: int where "SYSM_CONTACT_UP \<equiv> 2"

section \<open>Site names\<close>

definition sitename_char :: "char \<Rightarrow> bool" where
  "sitename_char c =
     (let n = (of_char c :: nat) in
       (97 \<le> n \<and> n \<le> 122) \<or> (65 \<le> n \<and> n \<le> 90) \<or> (48 \<le> n \<and> n \<le> 57)
       \<or> c = CHR ''-'' \<or> c = CHR ''_'')"

definition valid_sitename :: "string option \<Rightarrow> bool" where
  "valid_sitename nm =
     (case nm of None \<Rightarrow> False | Some s \<Rightarrow> s \<noteq> [] \<and> list_all sitename_char s)"

section \<open>The length of an outage as text\<close>

text \<open>
  The divisions are those of C on signed numbers (towards zero); the products are taken in
  \<open>int\<close>, which has 32 bits. \<open>%-2.2d\<close> prints at least two digits.
\<close>

definition pad2 :: "int \<Rightarrow> string" where
  "pad2 i =
     (let ds = dec_string (nat \<bar>i\<bar>);
          p = (if length ds < 2 then CHR ''0'' # ds else ds)
      in if i < 0 then CHR ''-'' # p else p)"

definition difftime_dd :: "int \<Rightarrow> int \<Rightarrow> int" where
  "difftime_dd timedown now = to_int32 (((now - timedown) sdiv 86400) smod 86400)"

definition difftime_hh :: "int \<Rightarrow> int \<Rightarrow> int" where
  "difftime_hh timedown now =
     to_int32 (((now - timedown - to_int32 (difftime_dd timedown now * 86400)) sdiv 3600) smod 3600)"

definition difftime_mm :: "int \<Rightarrow> int \<Rightarrow> int" where
  "difftime_mm timedown now =
     to_int32 (((now - timedown -
        to_int32 (difftime_dd timedown now * 86400 + difftime_hh timedown now * 3600)) sdiv 60) smod 60)"

definition str_difftime_sec :: "int \<Rightarrow> int \<Rightarrow> string" where
  "str_difftime_sec timedown now =
     (if timedown = 0 then ''Never''
      else fit 24 (pad2 (difftime_dd timedown now) @ ''d'' @ pad2 (difftime_hh timedown now) @ ''h'' @
                   pad2 (difftime_mm timedown now) @ ''m'' @
                   pad2 (to_int32 ((now - timedown) smod 60)) @ ''s''))"

definition str_difftime :: "int \<Rightarrow> int \<Rightarrow> string" where
  "str_difftime timedown now =
     (if timedown = 0 then ''Never''
      else fit 18 (pad2 (difftime_dd timedown now) @ '':'' @ pad2 (difftime_hh timedown now) @ '':'' @
                   pad2 (difftime_mm timedown now)))"

section \<open>Result codes\<close>

definition errtostr :: "int \<Rightarrow> string" where
  "errtostr v =
     (if v = SYSM_CONNREF then ''Conn Ref''
      else if v = SYSM_NETUNRCH then ''Net Unrch''
      else if v = SYSM_HOSTDOWN then ''Host Down''
      else if v = SYSM_TIMEDOUT then ''Conn Timed Out''
      else if v = SYSM_NODNS then ''No DNS Entry''
      else if v = SYSM_UNPINGABLE then ''Unpingable''
      else if v = SYSM_THROTTLED then ''Thrttl''
      else if v = SYSM_NOAUTH then ''No Auth''
      else if v = SYSM_NORESP then ''No Srvr Resp''
      else if v = SYSM_INPROG then ''Conn in prog''
      else if v = SYSM_BAD_AUTH then ''Bad Auth''
      else if v = SYSM_BAD_RESP then ''Bad Resp''
      else if v = X500_WEDGED then ''Wedged''
      else if v = SYSM_KILLED then ''Internal-Killed''
      else if v = SYSM_OK then ''up''
      else if v = SYSM_RTT_HIGH then ''RTT too high''
      else if v = SYSM_SNMP_REBOOT then ''hostRebooted''
      else if v = SYSM_SNMP_HIGH then ''HIGH''
      else if v = SYSM_SNMP_LOW then ''LOW''
      else if v = SYSM_SNMP_OOR then ''Out Of Range''
      else if v = SYSM_SNMP_NOTEXACT then ''Not Exact''
      else if v = SYSM_SNMP_HIGHRATE then ''High Rate''
      else if v = SYSM_PKTLOSS_EXCEED then ''Pkt Loss High''
      else if v = SYSM_SNMP_TRAP then ''SNMP Trap''
      else if v = SYSM_JITTER_HIGH then ''Jitter too high''
      else ''ERROR'')"

text \<open>The errno values the function distinguishes; every other one is \<open>EOTHER\<close> with its number.\<close>

datatype errno_t =
    ECONNREFUSED | EINTR | ENETUNREACH | EHOSTDOWN | EHOSTUNREACH | ETIMEDOUT | EALREADY
  | EINPROGRESS | EOTHER int

fun errno_to_error :: "errno_t \<Rightarrow> int" where
  "errno_to_error ECONNREFUSED = SYSM_CONNREF"
| "errno_to_error EINTR = SYSM_CONNREF"
| "errno_to_error ENETUNREACH = SYSM_NETUNRCH"
| "errno_to_error EHOSTDOWN = SYSM_HOSTDOWN"
| "errno_to_error EHOSTUNREACH = SYSM_HOSTDOWN"
| "errno_to_error ETIMEDOUT = SYSM_TIMEDOUT"
| "errno_to_error EALREADY = SYSM_INPROG"
| "errno_to_error EINPROGRESS = SYSM_INPROG"
| "errno_to_error (EOTHER n) = - 1"

definition yes_no :: "int \<Rightarrow> string" where
  "yes_no v = (if v = 1 then ''Yes'' else ''No'')"

text \<open>The index runs to \<open>strlen\<close> inclusive, so asking for NUL counts the terminator.\<close>

definition str_cnt :: "string \<Rightarrow> char \<Rightarrow> nat" where
  "str_cnt s c = count_list s c + (if c = char_of (0 :: nat) then 1 else 0)"

section \<open>Type names\<close>

text \<open>
  The front both parsers share: up to the colon if there is one, else at most 250 characters,
  into a buffer of 256. The copy up to a colon has no bound of its own, so more than 256
  characters before it are written past the buffer.
\<close>

definition type_word :: "string \<Rightarrow> string outcome" where
  "type_word sent =
     (case split_at CHR '':'' sent of
        Some (w, _) \<Rightarrow> if length w > 256 then Fault else Got (take 255 w)
      | None \<Rightarrow> Got (take 250 sent))"

definition snmp_type_to_name :: "int \<Rightarrow> string" where
  "snmp_type_to_name t =
     (if t = 1 then ''reboot'' else if t = 2 then ''high'' else if t = 3 then ''low''
      else if t = 4 then ''range'' else if t = 5 then ''exact'' else if t = 6 then ''compare''
      else if t = 7 then ''rate'' else ''snmp_type_to_name(ERROR)'')"

definition snmp_type_of_word :: "string \<Rightarrow> int" where
  "snmp_type_of_word w =
     (if length w = 3 then (if w = ''low'' then 3 else - 1)
      else if length w = 4 then (if w = ''high'' then 2 else if w = ''rate'' then 7 else - 1)
      else if length w = 5 then (if w = ''exact'' then 5 else if w = ''range'' then 4 else - 1)
      else if length w = 6 then (if w = ''reboot'' then 1 else - 1)
      else if length w = 7 then (if w = ''compare'' then 6 else - 1)
      else - 1)"

definition name_to_snmp_type :: "string \<Rightarrow> int outcome" where
  "name_to_snmp_type sent = and_then (type_word sent) (\<lambda>w. Got (snmp_type_of_word w))"

text \<open>\<open>disable_icmp\<close> is the global of that name.\<close>

definition type_of_word :: "bool \<Rightarrow> string \<Rightarrow> int" where
  "type_of_word disable_icmp w =
     (if length w = 3 then
        (if w = ''tcp'' then SYSM_TYPE_TCP else if w = ''udp'' then SYSM_TYPE_UDP
         else if w = ''dns'' then SYSM_TYPE_DNS else if w = ''www'' then SYSM_TYPE_WWW
         else if w = ''ssh'' then SYSM_TYPE_SSHD
         else if w = ''rtt'' \<and> \<not> disable_icmp then SYSM_TYPE_PING_LATENCY else - 1)
      else if length w = 4 then
        (if w = ''imap'' then SYSM_TYPE_IMAP else if w = ''http'' then SYSM_TYPE_WWW
         else if w = ''ping'' \<and> \<not> disable_icmp then SYSM_TYPE_PING
         else if w = ''ping6'' \<and> \<not> disable_icmp then SYSM_TYPE_PINGv6
         else if w = ''icmp6'' \<and> \<not> disable_icmp then SYSM_TYPE_PINGv6
         else if w = ''snmp'' then SYSM_TYPE_SNMP else if w = ''nntp'' then SYSM_TYPE_NNTP
         else if w = ''pop2'' then SYSM_TYPE_POP2 else if w = ''smtp'' then SYSM_TYPE_SMTP
         else if w = ''pop3'' then SYSM_TYPE_POP3 else if w = ''ircd'' then SYSM_TYPE_IRCD else - 1)
      else if length w = 5 then (if w = ''bootp'' then SYSM_TYPE_BOOTP else - 1)
      else if length w = 6 then
        (if w = ''radius'' then SYSM_TYPE_RADIUS else if w = ''sysmon'' then SYSM_TYPE_SYSM
         else if w = ''pingv6'' \<and> \<not> disable_icmp then SYSM_TYPE_PINGv6
         else if w = ''pingv4'' \<and> \<not> disable_icmp then SYSM_TYPE_PING else - 1)
      else if length w = 7 then
        (if w = ''pktloss'' \<and> \<not> disable_icmp then SYSM_TYPE_PKTLOSS else - 1)
      else if length w = 9 then (if w = ''umichx500'' then SYSM_TYPE_X500 else - 1)
      else - 1)"

definition name_to_type :: "bool \<Rightarrow> string \<Rightarrow> int outcome" where
  "name_to_type disable_icmp sent =
     and_then (type_word sent) (\<lambda>w. Got (type_of_word disable_icmp w))"

definition type_to_name :: "int \<Rightarrow> string" where
  "type_to_name t =
     (if t = SYSM_TYPE_TCP then ''tcp'' else if t = SYSM_TYPE_UDP then ''udp''
      else if t = SYSM_TYPE_PING then ''ping'' else if t = SYSM_TYPE_SNMP then ''snmp''
      else if t = SYSM_TYPE_NNTP then ''nntp'' else if t = SYSM_TYPE_SMTP then ''smtp''
      else if t = SYSM_TYPE_IMAP then ''imap'' else if t = SYSM_TYPE_POP3 then ''pop3''
      else if t = SYSM_TYPE_X500 then ''x500'' else if t = SYSM_TYPE_POP2 then ''pop2''
      else if t = SYSM_TYPE_BOOTP then ''bootp'' else if t = SYSM_TYPE_DNS then ''dns''
      else if t = SYSM_TYPE_WWW then ''www'' else if t = SYSM_TYPE_RADIUS then ''radius''
      else if t = SYSM_TYPE_HTTPS then ''https'' else if t = SYSM_TYPE_SYSM then ''sysmon''
      else if t = SYSM_TYPE_SSHD then ''ssh'' else if t = SYSM_TYPE_IRCD then ''ircd''
      else if t = SYSM_TYPE_PINGv6 then ''pingv6'' else if t = SYSM_TYPE_PKTLOSS then ''pktloss''
      else if t = SYSM_TYPE_PING_LATENCY then ''rtt''
      else ''ERROR'')"

section \<open>Words and numbers name each other\<close>

lemma type_word_plain: "CHR '':'' \<notin> set w \<Longrightarrow> length w \<le> 250 \<Longrightarrow> type_word w = Got w"
  by (simp add: type_word_def split_at_None [THEN iffD2])

lemma type_word_colon:
  "CHR '':'' \<notin> set w \<Longrightarrow>
   type_word (w @ CHR '':'' # r) = (if length w > 256 then Fault else Got (take 255 w))"
  by (simp add: type_word_def split_at_append)

text \<open>
  A family of words for numbers, read with an optional \<open>:suffix\<close>: the contract of the two pairs
  of functions of lib.c.
\<close>

locale word_codec =
  fixes parse :: "string \<Rightarrow> int outcome"
    and of_word :: "string \<Rightarrow> int"
    and show_word :: "int \<Rightarrow> string"
    and codes :: "int set"
  assumes parse_word: "parse s = and_then (type_word s) (\<lambda>w. Got (of_word w))"
    and shown: "t \<in> codes \<Longrightarrow> of_word (show_word t) = t"
    and plain: "t \<in> codes \<Longrightarrow> CHR '':'' \<notin> set (show_word t) \<and> length (show_word t) \<le> 250"
begin

lemma parse_shown: "t \<in> codes \<Longrightarrow> parse (show_word t) = Got t"
  by (simp add: parse_word type_word_plain plain shown)

lemma parse_shown_suffix: "t \<in> codes \<Longrightarrow> parse (show_word t @ CHR '':'' # r) = Got t"
proof -
  assume t: "t \<in> codes"
  then have "length (show_word t) \<le> 250" by (simp add: plain)
  then have "\<not> 256 < length (show_word t)" "take 255 (show_word t) = show_word t" by simp_all
  then show ?thesis by (simp add: parse_word type_word_colon plain t shown)
qed

lemma show_inj: "inj_on show_word codes"
  by (metis inj_onI shown)

end

definition known_types :: "int set" where
  "known_types = {1, 2, 3, 4, 5, 6, 7, 8, 10, 11, 12, 13, 14, 16, 17, 18, 19, 20, 22}"

definition icmp_types :: "int set" where
  "icmp_types = {3, 19, 20, 22}"

lemma if_memI: "(c \<Longrightarrow> a \<in> S) \<Longrightarrow> b \<in> S \<Longrightarrow> (if c then a else b) \<in> S"
  by simp

lemma type_of_word_range: "type_of_word d w \<in> insert (- 1) (insert 9 (known_types - (if d then icmp_types else {})))"
  unfolding type_of_word_def by (intro if_memI) (simp_all add: known_types_def icmp_types_def)

interpretation types: word_codec "name_to_type d" "type_of_word d" type_to_name "known_types - (if d then icmp_types else {})"
proof unfold_locales
  fix t assume t: "t \<in> known_types - (if d then icmp_types else {})"
  show "type_of_word d (type_to_name t) = t"
    using t by (auto simp: known_types_def icmp_types_def type_to_name_def type_of_word_def split: if_splits)
  show "CHR '':'' \<notin> set (type_to_name t) \<and> length (type_to_name t) \<le> 250"
    using t by (auto simp: known_types_def type_to_name_def)
qed (simp add: name_to_type_def)

interpretation snmp_types: word_codec name_to_snmp_type snmp_type_of_word snmp_type_to_name "{1..7}"
proof unfold_locales
  fix t :: int assume "t \<in> {1..7}"
  then have t: "t = 1 \<or> t = 2 \<or> t = 3 \<or> t = 4 \<or> t = 5 \<or> t = 6 \<or> t = 7" by auto
  then show "snmp_type_of_word (snmp_type_to_name t) = t"
    by (auto simp: snmp_type_to_name_def snmp_type_of_word_def)
  show "CHR '':'' \<notin> set (snmp_type_to_name t) \<and> length (snmp_type_to_name t) \<le> 250"
    using t by (auto simp: snmp_type_to_name_def)
qed (simp add: name_to_snmp_type_def)

text \<open>
  Every check type the configuration can name is reported under a word that names it again,
  with or without a \<open>:suffix\<close>, so what a client shows can be written back into a configuration;
  the single exception is the X.500 check, which is entered as \<open>umichx500\<close> and shown as \<open>x500\<close>.
\<close>

theorem type_name_roundtrip:
  assumes "name_to_type d s = Got t" and "t \<noteq> - 1"
  shows "(t = SYSM_TYPE_X500 \<and> name_to_type d (type_to_name t) = Got (- 1))
         \<or> (name_to_type d (type_to_name t) = Got t
            \<and> name_to_type d (type_to_name t @ CHR '':'' # r) = Got t)"
proof -
  obtain w where "t = type_of_word d w"
    using assms(1) unfolding name_to_type_def and_then_Got by auto
  with assms(2) type_of_word_range [of d w]
  have "t = 9 \<or> t \<in> known_types - (if d then icmp_types else {})" by (simp split del: if_split)
  then show ?thesis
  proof
    assume "t = 9"
    then show ?thesis by (simp add: name_to_type_def type_word_plain type_to_name_def type_of_word_def)
  next
    assume "t \<in> known_types - (if d then icmp_types else {})"
    then show ?thesis using types.parse_shown types.parse_shown_suffix by blast
  qed
qed

theorem type_name_roundtrip_witness:
  "name_to_type False ''icmp6'' = Got (- 1) \<and> name_to_type False ''pingv4'' = Got 3
   \<and> name_to_type False (type_to_name 3 @ '':443'') = Got 3"
proof -
  have e: "name_to_type False ''pingv4'' = Got 3" by code_simp
  have "name_to_type False ''icmp6'' = Got (- 1)" by code_simp
  with e type_name_roundtrip [OF e, of "''443''"] show ?thesis by simp
qed

text \<open>
  The copy up to the colon is not bounded by the buffer: a type word of more than 256
  characters before a colon writes past it, whatever follows, in both parsers. Every other
  input is parsed without touching memory outside the buffer.
\<close>

theorem type_word_overflow:
  "(name_to_type d s = Fault \<longleftrightarrow> (\<exists>w r. s = w @ CHR '':'' # r \<and> CHR '':'' \<notin> set w \<and> 256 < length w))
   \<and> (name_to_snmp_type s = Fault \<longleftrightarrow> name_to_type d s = Fault)"
proof -
  have "type_word s = Fault \<longleftrightarrow> (\<exists>w r. s = w @ CHR '':'' # r \<and> CHR '':'' \<notin> set w \<and> 256 < length w)"
  proof
    assume "type_word s = Fault"
    then show "\<exists>w r. s = w @ CHR '':'' # r \<and> CHR '':'' \<notin> set w \<and> 256 < length w"
      by (auto simp: type_word_def split: option.splits if_splits dest!: split_at_Some)
  next
    assume "\<exists>w r. s = w @ CHR '':'' # r \<and> CHR '':'' \<notin> set w \<and> 256 < length w"
    then show "type_word s = Fault" by (auto simp: type_word_colon)
  qed
  then show ?thesis by (simp add: name_to_type_def name_to_snmp_type_def and_then_Fault)
qed

section \<open>Outage lengths\<close>

lemma sdiv_smod_pos: "0 \<le> a \<Longrightarrow> 0 < b \<Longrightarrow> a sdiv b = a div b \<and> a smod b = a mod (b::int)"
  by (simp add: signed_divide_int_def signed_modulo_int_def sgn_if minus_mult_div_eq_mod [symmetric])

lemma day_parts:
  fixes d :: int
  shows "d mod 86400 = 3600 * (d div 3600 mod 24) + d mod 3600"
    and "d mod 3600 = 60 * (d div 60 mod 60) + d mod 60"
  using zmod_zmult2_eq [of 24 d 3600] zmod_zmult2_eq [of 60 d 60] by simp_all

lemma day_split:
  fixes d q h m s :: int
  assumes "d = 86400 * q + 3600 * h + 60 * m + s" "0 \<le> h" "h < 24" "0 \<le> m" "m < 60" "0 \<le> s" "s < 60"
  shows "d div 86400 = q" and "(d - q * 86400) div 3600 = h" and "(d - (q * 86400 + h * 3600)) div 60 = m"
proof -
  have "d = q * 86400 + (3600 * h + 60 * m + s)" "0 \<le> 3600 * h + 60 * m + s" "3600 * h + 60 * m + s < 86400"
    using assms by linarith+
  then show "d div 86400 = q" by (intro int_div_pos_eq [of _ _ _ "3600 * h + 60 * m + s"]) simp_all
  have "d - q * 86400 = 3600 * h + (60 * m + s)" "0 \<le> 60 * m + s" "60 * m + s < 3600" using assms by linarith+
  then show "(d - q * 86400) div 3600 = h" by (intro int_div_pos_eq [of _ _ _ "60 * m + s"]) simp_all
  have "d - (q * 86400 + h * 3600) = 60 * m + s" using assms by linarith
  then show "(d - (q * 86400 + h * 3600)) div 60 = m" using assms by (intro int_div_pos_eq [of _ _ _ s]) simp_all
qed

lemma difftime_parts_of:
  assumes d: "now - timedown = 86400 * q + 3600 * h + 60 * m + s" and q: "0 \<le> q" "q < 24855"
    and b: "0 \<le> h" "h < 24" "0 \<le> m" "m < 60" "0 \<le> s" "s < 60"
  shows "difftime_dd timedown now = q \<and> difftime_hh timedown now = h \<and> difftime_mm timedown now = m"
proof (intro conjI)
  note e = day_split [OF d b]
  have p: "0 \<le> now - timedown" "0 \<le> now - timedown - q * 86400" "0 \<le> now - timedown - (q * 86400 + h * 3600)"
    unfolding d using q b by linarith+
  show dd: "difftime_dd timedown now = q"
    unfolding difftime_dd_def using sdiv_smod_pos [OF p(1), of 86400] sdiv_smod_pos [of q 86400] e(1) q
    by (simp add: to_int32_id)
  have w: "to_int32 (q * 86400) = q * 86400" "to_int32 (q * 86400 + h * 3600) = q * 86400 + h * 3600"
    using q b by (intro to_int32_id; linarith)+
  show hh: "difftime_hh timedown now = h"
    unfolding difftime_hh_def dd w using sdiv_smod_pos [OF p(2), of 3600] sdiv_smod_pos [of h 3600] e(2) b
    by (simp add: to_int32_id)
  show "difftime_mm timedown now = m"
    unfolding difftime_mm_def dd hh w using sdiv_smod_pos [OF p(3), of 60] sdiv_smod_pos [of m 60] e(3) b
    by (simp add: to_int32_id)
qed

lemma difftime_parts:
  assumes "0 \<le> now - timedown" "now - timedown < 2147472000"
  shows "difftime_dd timedown now = (now - timedown) div 86400
    \<and> difftime_hh timedown now = (now - timedown) div 3600 mod 24
    \<and> difftime_mm timedown now = (now - timedown) div 60 mod 60"
proof (rule difftime_parts_of [where s = "(now - timedown) mod 60"])
  let ?d = "now - timedown"
  have "?d = 86400 * (?d div 86400) + ?d mod 86400" by (simp only: mult_div_mod_eq)
  then show "?d = 86400 * (?d div 86400) + 3600 * (?d div 3600 mod 24) + 60 * (?d div 60 mod 60) + ?d mod 60"
    using day_parts [of ?d] by linarith
  have "86400 * (?d div 86400) + ?d mod 86400 = ?d" "0 \<le> ?d mod 86400" by simp_all
  then show "?d div 86400 < 24855" using assms(2) by linarith
  show "0 \<le> ?d div 86400" using assms(1) by (simp only: pos_imp_zdiv_nonneg_iff)
qed simp_all

lemma dec_string_small: "n < 100000 \<Longrightarrow> length (dec_string n) \<le> 5"
  by (simp add: dec_string.simps)

lemma pad2_length: "0 \<le> i \<Longrightarrow> i < 100000 \<Longrightarrow> length (pad2 i) \<le> 5"
  using dec_string_small [of "nat i"] by (simp add: pad2_def Let_def)

lemma pad2_length_2: "0 \<le> i \<Longrightarrow> i < 100 \<Longrightarrow> length (pad2 i) = 2"
  by (simp add: pad2_def Let_def dec_string.simps [of "nat i"] dec_string.simps [of "nat i div 10"])

text \<open>
  For an outage of up to 24854 days the text is its exact decomposition into days, hours,
  minutes and seconds, each printed with at least two digits and none cut by the buffer; an
  outage that never began is \<open>Never\<close>.
\<close>

theorem str_difftime_exact:
  assumes "timedown \<noteq> 0" "0 \<le> now - timedown" "now - timedown < 2147472000" and d: "d = now - timedown"
  shows "str_difftime_sec timedown now =
           pad2 (d div 86400) @ ''d'' @ pad2 (d div 3600 mod 24) @ ''h'' @
           pad2 (d div 60 mod 60) @ ''m'' @ pad2 (d mod 60) @ ''s''
         \<and> str_difftime timedown now =
           pad2 (d div 86400) @ '':'' @ pad2 (d div 3600 mod 24) @ '':'' @ pad2 (d div 60 mod 60)
         \<and> str_difftime_sec 0 now = ''Never'' \<and> str_difftime 0 now = ''Never''"
proof -
  have "0 \<le> d mod 60" "d mod 60 < 60" by simp_all
  then have s: "to_int32 ((now - timedown) smod 60) = d mod 60"
    using sdiv_smod_pos [OF assms(2), of 60] by (simp add: to_int32_id d)
  have parts: "difftime_dd timedown now = d div 86400" "difftime_hh timedown now = d div 3600 mod 24"
    "difftime_mm timedown now = d div 60 mod 60"
    using difftime_parts [OF assms(2,3)] unfolding d by blast+
  have "0 \<le> d div 86400" using assms(2) d by (simp only: pos_imp_zdiv_nonneg_iff)
  moreover have "86400 * (d div 86400) + d mod 86400 = d" "0 \<le> d mod 86400" by simp_all
  then have "d div 86400 < 100000" using assms(3) d by linarith
  ultimately have l: "length (pad2 (d div 86400)) \<le> 5" by (rule pad2_length)
  have l2: "length (pad2 (d div 3600 mod 24)) = 2" "length (pad2 (d div 60 mod 60)) = 2" "length (pad2 (d mod 60)) = 2"
    by (rule pad2_length_2; simp)+
  show ?thesis
    unfolding str_difftime_sec_def str_difftime_def s parts
    using assms(1) l
    by (subst fit_id, simp add: l2, subst fit_id, simp add: l2) (simp only: if_False if_True simp_thms)
qed

lemma pad2_small: "pad2 1 = ''01''" "pad2 2 = ''02''" "pad2 3 = ''03''" "pad2 4 = ''04''"
  by code_simp+

theorem str_difftime_exact_witness:
  "str_difftime_sec 1000 (1000 + 93784) = ''01d02h03m04s'' \<and> str_difftime 1000 (1000 + 93784) = ''01:02:03''"
  using str_difftime_exact [of 1000 "1000 + 93784", OF _ _ _ refl] by (simp add: pad2_small)

end
