(* ===== verification/Host_Info.thy ===== *)
theory Host_Info
  imports Lib_Names Complex_Main
begin

text \<open>
  The object a configuration describes and a check updates, \<open>struct hostinfo\<close> of config.h, and the
  change counter of lib.c that tells clients which objects moved. Pointers to strings are
  options. The \<open>double\<close> figures of the last rtt check are rationals: rounding is left out.
\<close>

record host_config =
  h_hostname :: string
  h_ipv4_str :: "string option"
  h_type :: int
  h_port :: u32
  h_message :: "string option"
  h_contact :: "string option"
  h_snmp_community :: "string option"
  h_snmp_version :: int
  h_snmp_oid :: "string option"
  h_snmp_oid_sec :: "string option"
  h_snmp_up_msg :: "string option"
  h_snmp_down_msg :: "string option"
  h_pmesg :: "string option"
  h_snmp_test_type :: int
  h_snmp_low :: u64
  h_snmp_high :: u64
  h_snmp_exact :: u64
  h_snmp_rate :: u64
  h_snmp_octets :: bool
  h_dns_query :: "string option"
  h_dns_aa :: bool
  h_dns_recursion :: bool
  h_username :: "string option"
  h_password :: "string option"
  h_hdr :: "string option"
  h_hdrval :: "string option"
  h_secret :: "string option"
  h_unique_id :: string
  h_url :: "string option"
  h_url_text :: "string option"
  h_command :: "string option"
  h_group :: "string option"
  h_max_down :: u64
  h_queuetime :: u64
  h_pageinterval :: int
  h_send_pings :: u32
  h_min_pings :: u32
  h_pktloss_tolerance :: u32
  h_pktloss_history_hours :: u32
  h_rtt_threshold :: u32
  h_jitter_threshold :: u32
  h_rtt_samples :: u32
  h_rtt_interval :: u32
  h_trap_alert :: bool
  h_max_wakeup_retries :: u32
  h_reverse :: bool
  h_contact_when :: int
  h_trace :: bool

record hostinfo = host_config +
  h_notes :: "string option"
  h_system_uptime :: u64
  h_last_snmp_resptime :: int
  h_lastcheck :: u32
  h_lastmsgid :: "string option"
  h_totalchecked :: u64
  h_totaldown :: u64
  h_downct :: u64
  h_upct :: u64
  h_next_queuetime :: int
  h_pktloss_last_check :: int
  h_rtt_last_min :: rat
  h_rtt_last_avg :: rat
  h_rtt_last_max :: rat
  h_rtt_last_jitter :: rat
  h_rtt_last_replies :: u32
  h_rtt_last_probes :: u32
  h_pktloss_last_sent :: u32
  h_pktloss_last_recv :: u32
  h_change_seq :: u64
  h_contacted :: bool
  h_acked :: bool
  h_lastcontacted :: int
  h_queued :: bool
  h_warnlog :: bool
  h_lchecktime :: int
  h_check_start :: int
  h_deathtime :: int
  h_last_up :: int
  h_last_recovery :: int

text \<open>A freshly allocated object: \<open>parser.l\<close> and \<open>loadconfig.c\<close> clear it with \<open>memset\<close>.\<close>

definition zero_host :: hostinfo where
  "zero_host =
     \<lparr>h_hostname = [], h_ipv4_str = None, h_type = 0, h_port = 0, h_message = None,
      h_contact = None, h_snmp_community = None, h_snmp_version = 0, h_snmp_oid = None,
      h_snmp_oid_sec = None, h_snmp_up_msg = None, h_snmp_down_msg = None,
      h_pmesg = None, h_snmp_test_type = 0, h_snmp_low = 0, h_snmp_high = 0, h_snmp_exact = 0,
      h_snmp_rate = 0, h_snmp_octets = False, h_dns_query = None, h_dns_aa = False,
      h_dns_recursion = False, h_username = None, h_password = None,
      h_hdr = None, h_hdrval = None, h_secret = None, h_unique_id = [], h_url = None,
      h_url_text = None, h_command = None, h_group = None,
      h_max_down = 0, h_queuetime = 0, h_pageinterval = 0, h_send_pings = 0, h_min_pings = 0,
      h_pktloss_tolerance = 0, h_pktloss_history_hours = 0, h_rtt_threshold = 0, h_jitter_threshold = 0,
      h_rtt_samples = 0, h_rtt_interval = 0, h_trap_alert = False, h_max_wakeup_retries = 0,
      h_reverse = False, h_contact_when = 0, h_trace = False, h_notes = None,
      h_system_uptime = 0, h_last_snmp_resptime = 0, h_lastcheck = 0, h_lastmsgid = None,
      h_totalchecked = 0, h_totaldown = 0, h_downct = 0, h_upct = 0, h_next_queuetime = 0,
      h_pktloss_last_check = 0, h_rtt_last_min = 0, h_rtt_last_avg = 0, h_rtt_last_max = 0, h_rtt_last_jitter = 0,
      h_rtt_last_replies = 0, h_rtt_last_probes = 0,
      h_pktloss_last_sent = 0, h_pktloss_last_recv = 0, h_change_seq = 0, h_contacted = False,
      h_acked = False, h_lastcontacted = 0, h_queued = False, h_warnlog = False,
      h_lchecktime = 0, h_check_start = 0, h_deathtime = 0, h_last_up = 0, h_last_recovery = 0\<rparr>"

text \<open>The global counter is passed along: \<open>svc->change_seq = ++glob_change_seq\<close>.\<close>

definition object_changed :: "hostinfo \<times> u64 \<Rightarrow> hostinfo \<times> u64" where
  "object_changed = (\<lambda>(svc, seq). (svc\<lparr>h_change_seq := seq + 1\<rparr>, seq + 1))"

text \<open>What a client can tell apart between two polls.\<close>

definition client_view :: "hostinfo \<Rightarrow> u32 \<times> bool \<times> bool \<times> string option" where
  "client_view h = (h_lastcheck h, h_contacted h, h_acked h, h_notes h)"

end
