(* ===== verification/Dns_Cache.thy ===== *)
theory Dns_Cache
  imports Sysmon_Prelude
begin

text \<open>
  The resolver cache of dnscache.c: a linked list of answers with the time each was obtained,
  searched before the system resolver is asked, and swept periodically. The system resolver is
  a parameter (\<open>resolve\<close>, \<open>reverse\<close>). The list is modelled by the sequence of its nodes; the sweep
  keeps the source's walk with its pending node, and is then shown to be the filter it means
  to be. The cache is an interpretation of a keyed cache interface.
\<close>

section \<open>State\<close>

text \<open>What \<open>gethostbyname2\<close> returns and what the cache keeps of it.\<close>

record hostent =
  he_name :: string
  he_addrtype :: int
  he_addr :: "byte list"

record my_hostent =
  h_name :: string
  h_addrtype_v4 :: int
  h_length_v4 :: nat
  my_h_addr_v4 :: "byte list"

record dnscache =
  dns_hostname :: string
  dns_hp :: my_hostent
  dns_lastquery :: int

record dns_state =
  dnshead :: "dnscache list"
  cache_misses :: int
  cache_hits :: int
  dnsentries :: int
  dnslog_last_log :: int

abbreviation (input) AF_INET :: int where "AF_INET \<equiv> 2"

section \<open>Operations\<close>

definition get_ip :: "my_hostent option \<Rightarrow> string option" where
  "get_ip hp =
     (case hp of None \<Rightarrow> None
      | Some h \<Rightarrow> Some (fit 20 (dec_string (unat (my_h_addr_v4 h ! 0)) @ ''.'' @
                               dec_string (unat (my_h_addr_v4 h ! 1)) @ ''.'' @
                               dec_string (unat (my_h_addr_v4 h ! 2)) @ ''.'' @
                               dec_string (unat (my_h_addr_v4 h ! 3)))))"

definition get_hostname :: "(byte list \<Rightarrow> string option) \<Rightarrow> my_hostent option \<Rightarrow> string option" where
  "get_hostname reverse hp =
     (case hp of None \<Rightarrow> Some ''NULL''
      | Some h \<Rightarrow> (case reverse (my_h_addr_v4 h) of
                    None \<Rightarrow> get_ip hp
                  | Some nm \<Rightarrow> Some (take 250 nm)))"

text \<open>
  The walk of \<open>expire_dns\<close>: \<open>kept\<close> is the list up to \<open>last\<close>, \<open>freethis\<close> the unlinked node that is
  released at the start of the next round or after the loop, \<open>entries\<close> and \<open>expired\<close> the two
  counters.
\<close>

fun expire_walk ::
    "int \<Rightarrow> int \<Rightarrow> dnscache list \<Rightarrow> dnscache option \<Rightarrow> dnscache list \<Rightarrow> int \<Rightarrow> int \<Rightarrow>
     dnscache list \<times> int \<times> int" where
  "expire_walk now dnsexpire kept freethis [] entries expired =
     (if freethis \<noteq> None then (kept, entries - 1, expired + 1) else (kept, entries, expired))"
| "expire_walk now dnsexpire kept freethis (here # rest) entries expired =
     (let entries1 = (if freethis \<noteq> None then entries - 1 else entries);
          expired1 = (if freethis \<noteq> None then expired + 1 else expired)
      in if now - dns_lastquery here > dnsexpire
         then expire_walk now dnsexpire kept (Some here) rest entries1 expired1
         else expire_walk now dnsexpire (kept @ [here]) None rest entries1 expired1)"

text \<open>The second component is the statistics line, when one is logged.\<close>

definition expire_dns ::
    "int \<Rightarrow> int \<Rightarrow> int \<Rightarrow> dns_state \<Rightarrow> dns_state \<times> (int \<times> int \<times> int \<times> int \<times> int) option" where
  "expire_dns dnsexpire dnslog now st =
     (if dnshead st = [] then (st, None)
      else
        let count = int (length (dnshead st));
            (kept, entries, expired) = expire_walk now dnsexpire [] None (dnshead st) (dnsentries st) 0;
            st1 = st\<lparr>dnshead := kept, dnsentries := entries\<rparr>
        in if now - dnslog_last_log st > dnslog
           then (st1\<lparr>dnslog_last_log := now\<rparr>,
                 Some (cache_hits st, cache_misses st, expired, count, entries))
           else (st1, None))"

definition do_my_gethostbyname ::
    "(string \<Rightarrow> int \<Rightarrow> hostent option) \<Rightarrow> int \<Rightarrow> string option \<Rightarrow> int \<Rightarrow> dns_state \<Rightarrow>
     my_hostent option \<times> dns_state" where
  "do_my_gethostbyname resolve time hostname query_af st =
     (case hostname of None \<Rightarrow> (None, st)
      | Some nm \<Rightarrow>
         (case resolve nm (if query_af = - 1 then AF_INET else query_af) of
            None \<Rightarrow> (None, st)
          | Some he \<Rightarrow>
              let hp = \<lparr>h_name = he_name he, h_addrtype_v4 = he_addrtype he,
                        h_length_v4 = length (he_addr he), my_h_addr_v4 = he_addr he\<rparr>
              in (Some hp,
                  st\<lparr>dnshead := \<lparr>dns_hostname = nm, dns_hp = hp, dns_lastquery = time\<rparr> # dnshead st,
                     cache_misses := cache_misses st + 1,
                     dnsentries := dnsentries st + 1\<rparr>)))"

definition my_gethostbyname ::
    "(string \<Rightarrow> int \<Rightarrow> hostent option) \<Rightarrow> int \<Rightarrow> string \<Rightarrow> int \<Rightarrow> dns_state \<Rightarrow>
     my_hostent option \<times> dns_state" where
  "my_gethostbyname resolve time hostname get_af st =
     (case find (\<lambda>e. dns_hostname e = hostname) (dnshead st) of
        Some e \<Rightarrow> (Some (dns_hp e), st\<lparr>cache_hits := cache_hits st + 1\<rparr>)
      | None \<Rightarrow> do_my_gethostbyname resolve time (Some hostname) get_af st)"

section \<open>The sweep is a filter\<close>

lemma expire_walk_eq:
  "expire_walk now ex kept freethis rest entries expired =
     (kept @ filter (\<lambda>e. now - dns_lastquery e \<le> ex) rest,
      entries - int (length (filter (\<lambda>e. now - dns_lastquery e > ex) rest)) - (if freethis = None then 0 else 1),
      expired + int (length (filter (\<lambda>e. now - dns_lastquery e > ex) rest)) + (if freethis = None then 0 else 1))"
  by (induction rest arbitrary: kept freethis entries expired) (auto simp: Let_def)

lemma expire_dns_eq:
  "dnshead (fst (expire_dns ex lg now st)) = filter (\<lambda>e. now - dns_lastquery e \<le> ex) (dnshead st)"
  "dnsentries (fst (expire_dns ex lg now st)) =
     dnsentries st - int (length (filter (\<lambda>e. now - dns_lastquery e > ex) (dnshead st)))"
  "cache_hits (fst (expire_dns ex lg now st)) = cache_hits st"
  "cache_misses (fst (expire_dns ex lg now st)) = cache_misses st"
  by (auto simp: expire_dns_def expire_walk_eq Let_def)

definition dns_lookup :: "dns_state \<Rightarrow> string \<Rightarrow> my_hostent option" where
  "dns_lookup st nm = map_option dns_hp (find (\<lambda>e. dns_hostname e = nm) (dnshead st))"

definition dns_wf :: "dns_state \<Rightarrow> bool" where
  "dns_wf st = (distinct (map dns_hostname (dnshead st)) \<and> dnsentries st = int (length (dnshead st)))"

lemma find_None_names: "find (\<lambda>e. dns_hostname e = nm) es = None \<longleftrightarrow> nm \<notin> set (map dns_hostname es)"
  by (induction es) auto

lemma dns_wf_lookup: "dns_wf st \<Longrightarrow> dns_wf (snd (my_gethostbyname resolve t nm af st))"
  by (auto simp: my_gethostbyname_def do_my_gethostbyname_def dns_wf_def Let_def find_None_names
           split: option.splits)

lemma length_swept:
  "int (length (filter (\<lambda>e. now - dns_lastquery e \<le> ex) es)) + int (length (filter (\<lambda>e. ex < now - dns_lastquery e) es))
   = int (length (es :: dnscache list))"
  by (induction es) auto

lemma dns_wf_expire:
  assumes "dns_wf st"
  shows "dns_wf (fst (expire_dns ex lg now st))"
proof -
  from length_swept [of now ex "dnshead st"] have "int (length (filter (\<lambda>e. now - dns_lastquery e \<le> ex) (dnshead st))) =
        int (length (dnshead st)) - int (length (filter (\<lambda>e. ex < now - dns_lastquery e) (dnshead st)))"
    by linarith
  then show ?thesis using assms by (simp add: dns_wf_def expire_dns_eq distinct_map_filter)
qed

section \<open>The interface of a cache\<close>

text \<open>
  \<open>get ask p k\<close> answers \<open>k\<close> from what is held, or asks and keeps the answer; \<open>sweep\<close> only drops entries.
\<close>

locale keyed_cache =
  fixes inv :: "'s \<Rightarrow> bool"
    and view :: "'s \<Rightarrow> 'k \<Rightarrow> 'v option"
    and ask :: "'p \<Rightarrow> 'k \<Rightarrow> 'v option"
    and get :: "'p \<Rightarrow> 'k \<Rightarrow> 's \<Rightarrow> 'v option \<times> 's"
    and sweep :: "'q \<Rightarrow> 's \<Rightarrow> 's"
  assumes get_hit: "inv s \<Longrightarrow> view s k = Some v \<Longrightarrow> fst (get p k s) = Some v \<and> view (snd (get p k s)) = view s"
    and get_miss: "inv s \<Longrightarrow> view s k = None \<Longrightarrow>
        fst (get p k s) = ask p k \<and> view (snd (get p k s)) = (view s)(k := ask p k)"
    and inv_get: "inv s \<Longrightarrow> inv (snd (get p k s))"
    and sweep_view: "inv s \<Longrightarrow> view (sweep q s) k = Some v \<Longrightarrow> view s k = Some v"
    and inv_sweep: "inv s \<Longrightarrow> inv (sweep q s)"
begin

lemma get_again:
  assumes "inv s" "fst (get p k s) = Some v"
  shows "fst (get p' k (snd (get p k s))) = Some v"
proof -
  have "view (snd (get p k s)) k = Some v"
    using assms get_hit [OF assms(1), of k _ p] get_miss [OF assms(1), of k p] by (cases "view s k") auto
  then show ?thesis using get_hit inv_get assms(1) by blast
qed

text \<open>If resolvers only say what is \<open>true\<close>, so does the cache, whatever is asked and swept in between.\<close>

lemma get_true:
  assumes "inv s" "\<And>j v. view s j = Some v \<Longrightarrow> P j v" "\<And>v. ask p k = Some v \<Longrightarrow> P k v"
  shows "fst (get p k s) = Some v \<Longrightarrow> P k v"
    and "view (snd (get p k s)) j = Some w \<Longrightarrow> P j w"
  using assms get_hit [OF assms(1), of k _ p] get_miss [OF assms(1), of k p]
  by (cases "view s k"; auto split: if_splits)+

end

definition keep_hostent :: "hostent \<Rightarrow> my_hostent" where
  "keep_hostent he = \<lparr>h_name = he_name he, h_addrtype_v4 = he_addrtype he,
                     h_length_v4 = length (he_addr he), my_h_addr_v4 = he_addr he\<rparr>"

text \<open>The answer a resolver gives for a name when the caller wants the family \<open>af\<close>.\<close>

definition asked :: "(string \<Rightarrow> int \<Rightarrow> hostent option) \<Rightarrow> int \<Rightarrow> string \<Rightarrow> my_hostent option" where
  "asked resolve af nm = map_option keep_hostent (resolve nm (if af = - 1 then AF_INET else af))"

lemma my_gethostbyname_cases:
  "my_gethostbyname resolve t nm af st =
     (case dns_lookup st nm of
        Some hp \<Rightarrow> (Some hp, st\<lparr>cache_hits := cache_hits st + 1\<rparr>)
      | None \<Rightarrow>
         (case asked resolve af nm of None \<Rightarrow> (None, st)
          | Some hp \<Rightarrow> (Some hp, st\<lparr>dnshead := \<lparr>dns_hostname = nm, dns_hp = hp, dns_lastquery = t\<rparr> # dnshead st,
                                    cache_misses := cache_misses st + 1, dnsentries := dnsentries st + 1\<rparr>)))"
  by (auto simp: my_gethostbyname_def do_my_gethostbyname_def dns_lookup_def asked_def keep_hostent_def Let_def
           split: option.splits)

lemma dns_lookup_cong: "dnshead st = dnshead st' \<Longrightarrow> dns_lookup st = dns_lookup st'"
  by (simp add: dns_lookup_def fun_eq_iff)

lemma dns_lookup_Cons:
  "dnshead st' = e # dnshead st \<Longrightarrow> dns_lookup st' = (dns_lookup st)(dns_hostname e := Some (dns_hp e))"
  by (auto simp: dns_lookup_def fun_eq_iff)

lemma find_filter_distinct:
  "distinct (map dns_hostname es) \<Longrightarrow>
   find (\<lambda>e. dns_hostname e = nm) (filter Q es) = Some e \<Longrightarrow> find (\<lambda>e. dns_hostname e = nm) es = Some e"
proof (induction es)
  case (Cons x es)
  show ?case
  proof (cases "dns_hostname x = nm \<and> \<not> Q x")
    case True
    then have "nm \<notin> set (map dns_hostname (filter Q es))" using Cons.prems(1) by auto
    then have "find (\<lambda>e. dns_hostname e = nm) (filter Q es) = None" by (simp only: find_None_names simp_thms)
    then show ?thesis using Cons.prems(2) True by simp
  next
    case False
    then show ?thesis using Cons by (auto split: if_splits)
  qed
qed simp

interpretation dns: keyed_cache dns_wf dns_lookup
  "\<lambda>(resolve, t :: int, af). asked resolve af"
  "\<lambda>(resolve, t, af) nm. my_gethostbyname resolve t nm af"
  "\<lambda>(ex, lg, now) st. fst (expire_dns ex lg now st)"
proof unfold_locales
  fix s :: dns_state and k v and p :: "(string \<Rightarrow> int \<Rightarrow> hostent option) \<times> int \<times> int" and q :: "int \<times> int \<times> int"
  assume wf: "dns_wf s"
  obtain r t af where p: "p = (r, t, af)" by (cases p)
  obtain ex lg now where q: "q = (ex, lg, now)" by (cases q)
  let ?get = "case p of (resolve, t, af) \<Rightarrow> \<lambda>nm. my_gethostbyname resolve t nm af"
  have c: "dns_lookup (s\<lparr>cache_hits := n\<rparr>) = dns_lookup s" for n by (rule dns_lookup_cong) simp
  show "fst (?get k s) = Some v \<and> dns_lookup (snd (?get k s)) = dns_lookup s" if "dns_lookup s k = Some v"
    using that by (simp add: p my_gethostbyname_cases c)
  show "fst (?get k s) = (case p of (resolve, t, af) \<Rightarrow> asked resolve af) k
        \<and> dns_lookup (snd (?get k s)) = (dns_lookup s)(k := (case p of (resolve, t, af) \<Rightarrow> asked resolve af) k)"
    if "dns_lookup s k = None"
    using that by (auto simp: p my_gethostbyname_cases dns_lookup_Cons fun_upd_idem split: option.splits)
  show "dns_wf (snd (?get k s))" using wf by (simp add: p dns_wf_lookup)
  show "dns_lookup s k = Some v" if "dns_lookup ((case q of (ex, lg, now) \<Rightarrow> \<lambda>st. fst (expire_dns ex lg now st)) s) k = Some v"
    using that wf unfolding q dns_lookup_def dns_wf_def by (fastforce simp: expire_dns_eq dest: find_filter_distinct)
  show "dns_wf ((case q of (ex, lg, now) \<Rightarrow> \<lambda>st. fst (expire_dns ex lg now st)) s)" using wf by (simp add: q dns_wf_expire)
qed

section \<open>Runs of the cache\<close>

datatype dns_op =
    Lookup "string \<Rightarrow> int \<Rightarrow> hostent option" int string int
  | Expire int int int

fun dns_step :: "dns_op \<Rightarrow> dns_state \<Rightarrow> dns_state" where
  "dns_step (Lookup resolve t nm af) st = snd (my_gethostbyname resolve t nm af st)"
| "dns_step (Expire ex lg now) st = fst (expire_dns ex lg now st)"

definition dns_init :: dns_state where
  "dns_init = \<lparr>dnshead = [], cache_misses = 0, cache_hits = 0, dnsentries = 0, dnslog_last_log = 0\<rparr>"

definition answered_by :: "dns_op list \<Rightarrow> string \<Rightarrow> my_hostent \<Rightarrow> bool" where
  "answered_by ops nm hp = (\<exists>resolve t af. Lookup resolve t nm af \<in> set ops \<and> asked resolve af nm = Some hp)"

lemma answered_by_mono: "answered_by ops nm hp \<Longrightarrow> answered_by (ops @ later) nm hp"
  by (auto simp: answered_by_def)

lemma dns_run:
  "dns_wf (fold dns_step ops dns_init) \<and>
   (\<forall>nm hp. dns_lookup (fold dns_step ops dns_init) nm = Some hp \<longrightarrow> answered_by ops nm hp)"
proof (induction ops rule: rev_induct)
  case Nil
  then show ?case by (simp add: dns_init_def dns_wf_def dns_lookup_def)
next
  case (snoc x ops)
  let ?st = "fold dns_step ops dns_init"
  have wf: "dns_wf ?st" and P: "dns_lookup ?st j = Some w \<Longrightarrow> answered_by (ops @ [x]) j w" for j w
    using snoc answered_by_mono by auto
  show ?case
  proof (cases x)
    case (Lookup r t nm af)
    have "asked r af nm = Some v \<Longrightarrow> answered_by (ops @ [x]) nm v" for v
      unfolding answered_by_def Lookup by auto
    then have "dns_lookup (snd (my_gethostbyname r t nm af ?st)) j = Some w \<Longrightarrow> answered_by (ops @ [x]) j w" for j w
      using dns.get_true(2) [of ?st "answered_by (ops @ [x])" "(r, t, af)" nm j w] wf P by simp
    then show ?thesis using dns_wf_lookup [OF wf] by (simp add: Lookup)
  next
    case (Expire ex lg now)
    then show ?thesis using dns.sweep_view [OF wf, of "(ex, lg, now)"] dns_wf_expire [OF wf] P by simp
  qed
qed


definition resolver_a :: "string \<Rightarrow> int \<Rightarrow> hostent option" where
  "resolver_a nm af = Some \<lparr>he_name = nm, he_addrtype = af, he_addr = [10, 0, 0, 1]\<rparr>"


text \<open>
  A sweep keeps exactly the entries no older than the expiry time, in their order, and
  takes the number it dropped off the entry count, whichever nodes (the head included) go.
\<close>

theorem expire_dns_exact:
  "dnshead (fst (expire_dns ex lg now st)) = filter (\<lambda>e. now - dns_lastquery e \<le> ex) (dnshead st)
   \<and> dnsentries (fst (expire_dns ex lg now st)) - int (length (dnshead (fst (expire_dns ex lg now st)))) =
     dnsentries st - int (length (dnshead st))"
proof
  show "dnshead (fst (expire_dns ex lg now st)) = filter (\<lambda>e. now - dns_lastquery e \<le> ex) (dnshead st)"
    by (rule expire_dns_eq)
  from length_swept [of now ex "dnshead st"] show "dnsentries (fst (expire_dns ex lg now st)) -
     int (length (dnshead (fst (expire_dns ex lg now st)))) = dnsentries st - int (length (dnshead st))"
    unfolding expire_dns_eq by linarith
qed

end
