(* ===== verification/Page_Message.thy ===== *)
theory Page_Message
  imports Host_Info Dns_Cache
begin

text \<open>
  Notification, page.c: the expansion of a message template (\<open>translate_string\<close>), the command
  branch (\<open>run_command_and_mail_output\<close>, which runs in a forked child) and \<open>page_someone\<close>, which
  decides whether anybody is told and marks the object contacted. What the functions take from
  the system and from the configured globals is a record of inputs; what they do to the world
  is a list of effects in order.
\<close>

section \<open>Inputs and effects\<close>

abbreviation (input) TEMPBUF_SIZE :: nat where "TEMPBUF_SIZE \<equiv> 1024"
abbreviation (input) LARGE_TEMPBUF_SIZE :: nat where "LARGE_TEMPBUF_SIZE \<equiv> 4096"

text \<open>
  \<open>e_hp\<close> is the answer \<open>my_gethostbyname\<close> has for the object's host name and \<open>e_reverse\<close> what
  \<open>gethostbyaddr\<close> says; \<open>e_hms\<close> and \<open>e_date\<close> are the two \<open>strftime\<close> texts of the current time,
  \<open>e_ptr\<close> the address \<open>%p\<close> prints and \<open>e_reliability\<close> the text of the floating point figure
  of \<open>%r\<close>. \<open>e_pw_name\<close> is \<open>None\<close> when \<open>getpwuid\<close> fails.
\<close>

record page_env =
  e_myhostname :: string
  e_time :: int
  e_hp :: "my_hostent option"
  e_reverse :: "byte list \<Rightarrow> string option"
  e_hms :: string
  e_date :: string
  e_ptr :: string
  e_reliability :: "u64 \<Rightarrow> u64 \<Rightarrow> string"
  e_donotify :: bool
  e_pmesg :: "string option"
  e_subject :: "string option"
  e_sender :: "string option"
  e_errorsto :: "string option"
  e_replyto :: "string option"
  e_pw_name :: "string option"
  e_msgid :: string
  e_fork_ok :: bool
  e_cmd_output :: "string \<Rightarrow> string option"
  e_popen_mail :: bool

text \<open>
  What the forked child of the command branch does: run the command through the shell, run it
  and mail its output, write through a NULL stream, or return into the daemon's code.
\<close>

datatype child =
    Child_System string
  | Child_Mail string string
  | Child_Crash
  | Child_Returns

datatype effect =
    Syslog string int
  | Statechange string u32 int
  | Forked child
  | Mail string string

definition told :: "effect \<Rightarrow> bool" where
  "told e = (case e of Forked _ \<Rightarrow> True | Mail _ _ \<Rightarrow> True | _ \<Rightarrow> False)"

section \<open>Message templates\<close>

text \<open>\<open>SAFE_APPEND\<close>: nothing is appended when the text would not fit whole.\<close>

definition safe_append :: "string \<Rightarrow> string option \<Rightarrow> string" where
  "safe_append out s =
     (case s of None \<Rightarrow> out
      | Some t \<Rightarrow> if length out + length t < LARGE_TEMPBUF_SIZE then out @ t else out)"

text \<open>The other branches print \<open>out\<close> and the new text into the smaller buffer and copy that back.\<close>

definition via_tmp :: "string \<Rightarrow> string \<Rightarrow> string" where
  "via_tmp out t = fit TEMPBUF_SIZE (out @ t)"

definition printf_s :: "string option \<Rightarrow> string" where
  "printf_s s = (case s of None \<Rightarrow> ''(null)'' | Some t \<Rightarrow> t)"

definition expand_percent :: "page_env \<Rightarrow> hostinfo \<Rightarrow> char \<Rightarrow> string \<Rightarrow> string" where
  "expand_percent e svc c out =
     (if c = CHR ''m'' then safe_append out (Some (e_myhostname e))
      else if c = CHR ''H'' then safe_append out (get_hostname (e_reverse e) (e_hp e))
      else if c = CHR ''d'' then safe_append out (Some (str_difftime (h_deathtime svc) (e_time e)))
      else if c = CHR ''l'' then safe_append out (Some (str_difftime (h_last_up svc) (e_time e)))
      else if c = CHR ''D'' then safe_append out (Some (str_difftime_sec (h_deathtime svc) (e_time e)))
      else if c = CHR ''G'' then via_tmp out (printf_s (h_group svc))
      else if c = CHR ''i'' then via_tmp out (int_string (h_deathtime svc) @ e_ptr e)
      else if c = CHR ''I'' then via_tmp out (printf_s (get_ip (e_hp e)))
      else if c = CHR ''c'' then via_tmp out ('' '' @ int_string (sint (h_downct svc)))
      else if c = CHR ''C'' then via_tmp out ('' '' @ int_string (sint (h_upct svc)))
      else if c = CHR ''p'' then via_tmp out ('' '' @ int_string (sint (h_port svc)))
      else if c = CHR ''r'' then
        via_tmp out ('' '' @ e_reliability e (h_totaldown svc) (h_totalchecked svc) @ ''%'')
      else if c = CHR ''s'' then safe_append out (Some (type_to_name (h_type svc)))
      else if c = CHR ''T'' then safe_append out (Some (e_hms e))
      else if c = CHR ''t'' then safe_append out (Some (e_date e))
      else if c = CHR ''U'' then safe_append out (Some (if h_lastcheck svc \<noteq> 0 then ''down'' else ''up''))
      else if c = CHR ''u'' then safe_append out (Some (errtostr (sint (h_lastcheck svc))))
      else if c = CHR ''w'' then safe_append out (h_message svc)
      else if c = CHR ''h'' then safe_append out (Some (h_hostname svc))
      else out)"

definition expand_backslash :: "char \<Rightarrow> string \<Rightarrow> string" where
  "expand_backslash c out =
     (if c = CHR ''n'' then safe_append out (Some [char_of (10 :: nat)])
      else if c = CHR ''r'' then safe_append out (Some [char_of (13 :: nat)])
      else out)"

fun translate_loop :: "page_env \<Rightarrow> hostinfo \<Rightarrow> string \<Rightarrow> string \<Rightarrow> string" where
  "translate_loop e svc [] out = out"
| "translate_loop e svc [c] out =
     (if c = char_of (92 :: nat) \<or> c = CHR ''%'' then out
      else if length out + 1 < LARGE_TEMPBUF_SIZE then out @ [c] else out)"
| "translate_loop e svc (c # d # rest) out =
     (if c = char_of (92 :: nat) then translate_loop e svc rest (expand_backslash d out)
      else if c = CHR ''%'' then translate_loop e svc rest (expand_percent e svc d out)
      else translate_loop e svc (d # rest)
             (if length out + 1 < LARGE_TEMPBUF_SIZE then out @ [c] else out))"

definition translate_string :: "page_env \<Rightarrow> hostinfo \<Rightarrow> string option \<Rightarrow> string option" where
  "translate_string e svc str =
     (case str of None \<Rightarrow> None
      | Some s \<Rightarrow>
          if e_hp e = None
          then Some (fit LARGE_TEMPBUF_SIZE (''translate_string() error with '' @ h_hostname svc))
          else Some (translate_loop e svc s []))"

section \<open>Telling somebody\<close>

definition NL :: string where "NL = [char_of (10 :: nat)]"

definition sendmail_path :: string where "sendmail_path = ''/usr/sbin/sendmail''"

definition from_line :: "page_env \<Rightarrow> string \<Rightarrow> string" where
  "from_line e pw =
     (case e_sender e of None \<Rightarrow> ''From: System Monitor <'' @ pw @ ''@localhost>'' @ NL
      | Some s \<Rightarrow> ''From: '' @ s @ NL)"

definition hdr_line :: "hostinfo \<Rightarrow> string" where
  "hdr_line svc =
     (case h_hdr svc of None \<Rightarrow> []
      | Some h \<Rightarrow> (case h_hdrval svc of Some v \<Rightarrow> h @ '': '' @ v @ NL | None \<Rightarrow> h @ '':'' @ NL))"

definition opt_line :: "string \<Rightarrow> string option \<Rightarrow> string" where
  "opt_line tag v = (case v of None \<Rightarrow> [] | Some x \<Rightarrow> tag @ x @ NL)"

definition no_contact :: "hostinfo \<Rightarrow> bool" where
  "no_contact svc = (case h_contact svc of None \<Rightarrow> True | Some c \<Rightarrow> c = [])"

definition command_mail :: "page_env \<Rightarrow> hostinfo \<Rightarrow> string \<Rightarrow> string \<Rightarrow> string" where
  "command_mail e svc pw body =
     from_line e pw @ ''X-Sysmon-unique-id: '' @ h_unique_id svc @ NL @ hdr_line svc @
     ''To: '' @ printf_s (h_contact svc) @ NL @
     opt_line ''Errors-To: '' (e_errorsto e) @ opt_line ''Reply-To: '' (e_replyto e) @
     (if e_subject e \<noteq> None
      then ''Subject: '' @ h_hostname svc @ '' is '' @ errtostr (sint (h_lastcheck svc)) @ NL
      else NL) @
     body"

text \<open>The child; \<open>e_cmd_output\<close> is \<open>None\<close> when the command's pipe cannot be opened.\<close>

definition command_child :: "page_env \<Rightarrow> hostinfo \<Rightarrow> child" where
  "command_child e svc =
     (case e_pw_name e of None \<Rightarrow> Child_Returns
      | Some pw \<Rightarrow>
          let runme = printf_s (translate_string e svc (h_command svc)) in
          if no_contact svc then Child_System runme
          else if \<not> e_popen_mail e then Child_Crash
          else (case e_cmd_output e runme of
                  None \<Rightarrow> Child_Crash
                | Some body \<Rightarrow> Child_Mail (sendmail_path @ '' -t'') (command_mail e svc pw body)))"

definition run_command_and_mail_output :: "page_env \<Rightarrow> hostinfo \<Rightarrow> effect list" where
  "run_command_and_mail_output e svc = (if e_fork_ok e then [Forked (command_child e svc)] else [])"

definition PMESG :: string where "PMESG = ''%H (%I) %w is %u %d''"

definition page_text :: "page_env \<Rightarrow> hostinfo \<Rightarrow> string" where
  "page_text e svc =
     printf_s (translate_string e svc
       (case h_pmesg svc of Some p \<Rightarrow> Some p
        | None \<Rightarrow> (case e_pmesg e of None \<Rightarrow> Some PMESG | Some p \<Rightarrow> Some p)))"

definition page_command :: "page_env \<Rightarrow> string" where
  "page_command e =
     fit 500 (case e_sender e of None \<Rightarrow> sendmail_path @ '' -t''
              | Some s \<Rightarrow> sendmail_path @ '' -f'' @ s @ '' -t'')"

definition page_mail :: "page_env \<Rightarrow> hostinfo \<Rightarrow> string \<Rightarrow> string \<Rightarrow> string" where
  "page_mail e svc pw out =
     from_line e pw @
     ''X-SysMon-Unique-ID: '' @ h_unique_id svc @ NL @
     ''X-SysMon-Host: '' @ h_hostname svc @ NL @
     ''X-SysMon-Uptime: '' @ int_string (sint (h_system_uptime svc)) @ NL @
     hdr_line svc @
     ''To: '' @ printf_s (h_contact svc) @ NL @
     opt_line ''Errors-To: '' (e_errorsto e) @ opt_line ''Reply-To: '' (e_replyto e) @
     ''Message-Id: <'' @ e_msgid e @ ''@sysmon>'' @ NL @
     (case h_lastmsgid svc of None \<Rightarrow> [] | Some m \<Rightarrow> ''In-Reply-To: <'' @ m @ ''@sysmon>'' @ NL) @
     (case e_subject e of None \<Rightarrow> NL
      | Some s \<Rightarrow> ''Subject: '' @ printf_s (translate_string e svc (Some s)) @ NL) @
     out @ NL @ ''.'' @ NL"

definition wants :: "hostinfo \<Rightarrow> int \<Rightarrow> bool" where
  "wants svc newstate = (h_contact_when svc AND newstate \<noteq> 0)"

text \<open>
  The result is the object, the global change counter and the effects. \<open>time(&svc->lastcontacted)\<close>
  reads the clock of the environment; \<open>now_t\<close> is only the time stamp of the log line.
\<close>

definition page_someone :: "page_env \<Rightarrow> int \<Rightarrow> int \<Rightarrow> hostinfo \<Rightarrow> u64 \<Rightarrow> hostinfo \<times> u64 \<times> effect list" where
  "page_someone e newstate now_t svc seq =
     (let out = page_text e svc;
          log = [Syslog out now_t]
      in if h_command svc \<noteq> None \<and> e_donotify e \<and> wants svc newstate
         then let (svc1, seq1) = object_changed (svc\<lparr>h_lastcontacted := e_time e, h_contacted := True\<rparr>, seq)
              in (svc1, seq1, log @ run_command_and_mail_output e svc)
         else if no_contact svc
         then let (svc1, seq1) = object_changed (svc\<lparr>h_contacted := True\<rparr>, seq) in (svc1, seq1, log)
         else if e_donotify e \<and> wants svc newstate
         then (case e_pw_name e of None \<Rightarrow> (svc, seq, log)
               | Some pw \<Rightarrow>
                   let (svc1, seq1) = object_changed (svc\<lparr>h_lastcontacted := e_time e, h_contacted := True\<rparr>, seq)
                   in if \<not> e_popen_mail e then (svc1, seq1, log)
                      else (svc1\<lparr>h_lastmsgid := Some (e_msgid e)\<rparr>, seq1,
                            log @ [Mail (page_command e) (page_mail e svc1 pw out)]))
         else (svc, seq, log))"

section \<open>Templates stay in their buffer\<close>

lemma safe_append_length: "length out < 4096 \<Longrightarrow> length (safe_append out s) < 4096"
  by (auto simp: safe_append_def split: option.split)

lemma via_tmp_length: "length (via_tmp out t) < 1024"
  by (simp add: via_tmp_def length_fit)

lemma expand_percent_length:
  assumes "length out < 4096"
  shows "length (expand_percent e svc c out) < 4096"
proof -
  have t: "length (via_tmp out t) < 4096" for t using via_tmp_length [of out t] by linarith
  show ?thesis unfolding expand_percent_def using assms by (simp add: safe_append_length t)
qed

lemma expand_backslash_length: "length out < 4096 \<Longrightarrow> length (expand_backslash c out) < 4096"
  by (simp add: expand_backslash_def safe_append_length)

lemma translate_loop_length: "length out < 4096 \<Longrightarrow> length (translate_loop e svc s out) < 4096"
  by (induction e svc s out rule: translate_loop.induct)
     (simp_all add: expand_percent_length expand_backslash_length)

lemma translate_loop_plain:
  "char_of (92 :: nat) \<notin> set s \<Longrightarrow> CHR ''%'' \<notin> set s \<Longrightarrow> length out + length s < 4096 \<Longrightarrow>
   translate_loop e svc s out = out @ s"
  by (induction e svc s out rule: translate_loop.induct) auto

text \<open>
  C40. The expansion of a template always fits the 4096 byte buffer with its NUL, whatever the
  template and the object's fields, a trailing \<open>%\<close> or backslash included; a template without
  directives is copied as it is.
\<close>

theorem translate_string_bounded:
  "(\<forall>out. translate_string e svc str = Some out \<longrightarrow> length out < LARGE_TEMPBUF_SIZE)
   \<and> (e_hp e \<noteq> None \<longrightarrow> char_of (92 :: nat) \<notin> set s \<longrightarrow> CHR ''%'' \<notin> set s \<longrightarrow> length s < LARGE_TEMPBUF_SIZE \<longrightarrow>
      translate_string e svc (Some s) = Some s)"
  by (auto simp: translate_string_def translate_loop_length translate_loop_plain length_fit
           split: option.splits if_splits)

text \<open>An environment in which everything works; the witnesses below and in other theories use it.\<close>

definition quiet_env :: page_env where
  "quiet_env =
     \<lparr>e_myhostname = ''mon'', e_time = 1000, e_hp = None, e_reverse = (\<lambda>_. None), e_hms = [], e_date = [],
      e_ptr = [], e_reliability = (\<lambda>_ _. []), e_donotify = True, e_pmesg = None, e_subject = None,
      e_sender = None, e_errorsto = None, e_replyto = None, e_pw_name = Some ''root'', e_msgid = ''m1'',
      e_fork_ok = True, e_cmd_output = (\<lambda>_. None), e_popen_mail = True\<rparr>"

theorem translate_string_bounded_witness:
  "length (the (translate_string (quiet_env\<lparr>e_hp := Some \<lparr>h_name = ''gw'', h_addrtype_v4 = 2, h_length_v4 = 4,
       my_h_addr_v4 = [10, 0, 0, 1]\<rparr>\<rparr>) zero_host (Some ''gateway is down''))) < 4096
   \<and> translate_string (quiet_env\<lparr>e_hp := Some \<lparr>h_name = ''gw'', h_addrtype_v4 = 2, h_length_v4 = 4,
       my_h_addr_v4 = [10, 0, 0, 1]\<rparr>\<rparr>) zero_host (Some ''gateway is down'') = Some ''gateway is down''"
  using translate_string_bounded [of "quiet_env\<lparr>e_hp := Some \<lparr>h_name = ''gw'', h_addrtype_v4 = 2, h_length_v4 = 4,
       my_h_addr_v4 = [10, 0, 0, 1]\<rparr>\<rparr>" zero_host "Some ''gateway is down''" "''gateway is down''"]
  by (simp add: char_of_def)

end
