(* ===== verification/Host_State.thy ===== *)
theory Host_State
  imports Page_Message
begin

text \<open>
  What the result of a check does to an object, \<open>handle_retval\<close> of syswatch.c, in the order the
  code does it: statistics and the next queueing time, the state change report, recovery, a
  repeated failure, a change of state, and the bookkeeping of a success. The state threaded
  through is the object, the global change counter and the effects so far.
\<close>

section \<open>The handler\<close>

type_synonym hstate = "hostinfo \<times> u64 \<times> effect list"

text \<open>\<open>now + queuetime\<close> is computed in \<open>unsigned long\<close> and stored in a \<open>time_t\<close>.\<close>

definition time_plus :: "int \<Rightarrow> u64 \<Rightarrow> int" where
  "time_plus now q = sint (word_of_int now + q)"

definition call_page :: "page_env \<Rightarrow> int \<Rightarrow> int \<Rightarrow> hstate \<Rightarrow> hstate" where
  "call_page e newstate now =
     (\<lambda>(svc, seq, eff). let (svc1, seq1, new) = page_someone e newstate now svc seq in (svc1, seq1, eff @ new))"

definition set_host :: "(hostinfo \<Rightarrow> hostinfo) \<Rightarrow> hstate \<Rightarrow> hstate" where
  "set_host f = (\<lambda>(svc, seq, eff). (f svc, seq, eff))"

definition mark_changed :: "hstate \<Rightarrow> hstate" where
  "mark_changed = (\<lambda>(svc, seq, eff). let (svc1, seq1) = object_changed (svc, seq) in (svc1, seq1, eff))"

text \<open>\<open>rv\<close> is \<open>retval\<close> converted to the unsigned type of \<open>lastcheck\<close> for the comparisons.\<close>

definition retval_count :: "int \<Rightarrow> hstate \<Rightarrow> hstate" where
  "retval_count now =
     set_host (\<lambda>h. h\<lparr>h_totalchecked := h_totalchecked h + 1, h_next_queuetime := time_plus now (h_queuetime h)\<rparr>)"

definition retval_report :: "string \<Rightarrow> int \<Rightarrow> hstate \<Rightarrow> hstate" where
  "retval_report unique_name retval st =
     (let (svc, seq, eff) = st in
       if word_of_int retval \<noteq> h_lastcheck svc
       then mark_changed (svc, seq, eff @ [Statechange unique_name (h_lastcheck svc) retval])
       else st)"

definition retval_recover :: "page_env \<Rightarrow> int \<Rightarrow> int \<Rightarrow> hstate \<Rightarrow> hstate" where
  "retval_recover e retval now st =
     (let svc = fst st in
       if retval = SYSM_OK \<and> h_contacted svc \<and> h_lastcheck svc \<noteq> 0
       then let st1 = set_host (h_lastcheck_update (\<lambda>_. word_of_int retval)) st;
                st2 = (if e_donotify e \<and> wants (fst st1) SYSM_CONTACT_UP
                       then call_page e SYSM_CONTACT_UP now st1 else st1)
            in set_host (\<lambda>h. h\<lparr>h_last_up := now, h_last_recovery := now, h_contacted := False\<rparr>) st2
       else st)"

definition page_if_down :: "page_env \<Rightarrow> int \<Rightarrow> hstate \<Rightarrow> hstate" where
  "page_if_down e now st =
     (let svc = fst st in
       if h_downct svc \<ge> h_max_down svc \<and> \<not> h_contacted svc \<and> wants svc SYSM_CONTACT_DOWN
       then call_page e SYSM_CONTACT_DOWN now st else st)"

definition retval_again :: "page_env \<Rightarrow> int \<Rightarrow> int \<Rightarrow> hstate \<Rightarrow> hstate" where
  "retval_again e retval now st =
     (if retval \<noteq> SYSM_OK \<and> h_lastcheck (fst st) = word_of_int retval
      then page_if_down e now
             (set_host (\<lambda>h. h\<lparr>h_downct := h_downct h + 1, h_totaldown := h_totaldown h + 1\<rparr>) st)
      else st)"

definition retval_change :: "page_env \<Rightarrow> int \<Rightarrow> int \<Rightarrow> hstate \<Rightarrow> hstate" where
  "retval_change e retval now st =
     (if word_of_int retval \<noteq> h_lastcheck (fst st)
      then let was_ok = (h_lastcheck (fst st) = 0);
               st1 = set_host (\<lambda>h. h\<lparr>h_upct := 0, h_lastcheck := word_of_int retval\<rparr>) st
           in if retval \<noteq> SYSM_OK
              then page_if_down e now
                     (set_host (\<lambda>h. h\<lparr>h_downct := 1, h_totaldown := h_totaldown h + 1,
                                     h_deathtime := (if was_ok \<or> h_deathtime h = 0 then now else h_deathtime h)\<rparr>) st1)
              else set_host (h_downct_update (\<lambda>_. 0)) st1
      else st)"

definition retval_ok :: "page_env \<Rightarrow> int \<Rightarrow> int \<Rightarrow> hstate \<Rightarrow> hstate" where
  "retval_ok e retval now st =
     (if retval = SYSM_OK
      then let st1 = set_host (\<lambda>h. h\<lparr>h_upct := h_upct h + 1, h_downct := 0\<rparr>) st;
               st2 = (if h_acked (fst st1) then mark_changed (set_host (h_acked_update (\<lambda>_. False)) st1) else st1);
               svc = fst st2
           in if h_upct svc \<ge> h_max_down svc \<and> \<not> h_contacted svc \<and> h_contact_when svc = SYSM_CONTACT_UP
              then call_page e SYSM_CONTACT_UP now st2 else st2
      else st)"

definition handle_retval :: "page_env \<Rightarrow> string \<Rightarrow> int \<Rightarrow> int \<Rightarrow> hostinfo \<times> u64 \<Rightarrow> hstate" where
  "handle_retval e unique_name retval now =
     (\<lambda>(svc, seq).
        retval_ok e retval now
          (retval_change e retval now
            (retval_again e retval now
              (retval_recover e retval now
                (retval_report unique_name retval
                  (retval_count now (svc, seq, [])))))))"

section \<open>What notification changes\<close>

text \<open>Whether a page reaches somebody, and whether the object counts as contacted after it.\<close>

definition reaches :: "page_env \<Rightarrow> hostinfo \<Rightarrow> int \<Rightarrow> bool" where
  "reaches e svc newstate =
     (e_donotify e \<and> wants svc newstate \<and>
      (if h_command svc \<noteq> None then e_fork_ok e
       else \<not> no_contact svc \<and> e_pw_name e \<noteq> None \<and> e_popen_mail e))"

definition marks :: "page_env \<Rightarrow> hostinfo \<Rightarrow> int \<Rightarrow> bool" where
  "marks e svc newstate =
     (if h_command svc \<noteq> None \<and> e_donotify e \<and> wants svc newstate then True
      else no_contact svc \<or> (e_donotify e \<and> wants svc newstate \<and> e_pw_name e \<noteq> None))"

lemma reachesD: "reaches e svc n \<Longrightarrow> e_donotify e \<and> wants svc n"
  by (simp add: reaches_def)

lemma reaches_marks: "reaches e svc n \<Longrightarrow> marks e svc n"
  by (auto simp: reaches_def marks_def)

lemma page_someone_cases:
  obtains
    (command) "marks e svc n" "\<And>now seq. fst (page_someone e n now svc seq) =
        svc\<lparr>h_lastcontacted := e_time e, h_contacted := True, h_change_seq := seq + 1\<rparr>"
  | (nobody) "marks e svc n" "\<And>now seq. fst (page_someone e n now svc seq) =
        svc\<lparr>h_contacted := True, h_change_seq := seq + 1\<rparr>"
  | (mail) "marks e svc n" "\<And>now seq. fst (page_someone e n now svc seq) =
        svc\<lparr>h_lastcontacted := e_time e, h_contacted := True, h_change_seq := seq + 1, h_lastmsgid := Some (e_msgid e)\<rparr>"
  | (silent) "\<not> marks e svc n" "\<And>now seq. fst (page_someone e n now svc seq) = svc"
proof (cases "h_command svc \<noteq> None \<and> e_donotify e \<and> wants svc n")
  case True
  then show ?thesis by (intro command) (auto simp: page_someone_def marks_def object_changed_def Let_def)
next
  case nocmd: False
  show ?thesis
  proof (cases "no_contact svc")
    case True
    with nocmd show ?thesis by (intro nobody) (auto simp: page_someone_def marks_def object_changed_def Let_def)
  next
    case contact: False
    show ?thesis
    proof (cases "e_donotify e \<and> wants svc n \<and> e_pw_name e \<noteq> None")
      case True
      then obtain pw where "e_pw_name e = Some pw" by blast
      with True nocmd contact show ?thesis
        by (cases "e_popen_mail e")
           (simp add: mail page_someone_def marks_def object_changed_def Let_def,
            simp add: command page_someone_def marks_def object_changed_def Let_def)
    next
      case False
      with nocmd contact show ?thesis
        by (intro silent) (auto simp: page_someone_def marks_def Let_def)
    qed
  qed
qed

lemma page_someone_frame [frame]:
  "h_lastcheck (fst (page_someone e n now svc seq)) = h_lastcheck svc"
  "h_acked (fst (page_someone e n now svc seq)) = h_acked svc"
  "h_notes (fst (page_someone e n now svc seq)) = h_notes svc"
  "h_downct (fst (page_someone e n now svc seq)) = h_downct svc"
  "h_upct (fst (page_someone e n now svc seq)) = h_upct svc"
  "h_totaldown (fst (page_someone e n now svc seq)) = h_totaldown svc"
  "h_totalchecked (fst (page_someone e n now svc seq)) = h_totalchecked svc"
  "h_deathtime (fst (page_someone e n now svc seq)) = h_deathtime svc"
  "h_next_queuetime (fst (page_someone e n now svc seq)) = h_next_queuetime svc"
  "h_max_down (fst (page_someone e n now svc seq)) = h_max_down svc"
  "h_contact_when (fst (page_someone e n now svc seq)) = h_contact_when svc"
  "h_contact (fst (page_someone e n now svc seq)) = h_contact svc"
  "h_command (fst (page_someone e n now svc seq)) = h_command svc"
  by (rule page_someone_cases [of e svc n]; simp)+

lemma page_someone_contacted [frame]:
  "h_contacted (fst (page_someone e n now svc seq)) = (h_contacted svc \<or> marks e svc n)"
  by (rule page_someone_cases [of e svc n]; simp)

lemma page_someone_told:
  "length (filter told (snd (snd (page_someone e n now svc seq)))) = (if reaches e svc n then 1 else 0)"
  by (auto simp: page_someone_def reaches_def object_changed_def run_command_and_mail_output_def told_def Let_def
           split: option.splits)

lemma page_someone_not_told: "\<not> reaches e svc n \<Longrightarrow> filter told (snd (snd (page_someone e n now svc seq))) = []"
  using page_someone_told [of e n now svc seq] by simp

lemma page_someone_seq:
  "fst (snd (page_someone e n now svc seq)) = (if marks e svc n then seq + 1 else seq)
   \<and> h_change_seq (fst (page_someone e n now svc seq)) = (if marks e svc n then seq + 1 else h_change_seq svc)"
  by (auto simp: page_someone_def marks_def object_changed_def Let_def split: option.splits)

lemma call_page_simps [simp]:
  "fst (call_page e n now st) = fst (page_someone e n now (fst st) (fst (snd st)))"
  "fst (snd (call_page e n now st)) = fst (snd (page_someone e n now (fst st) (fst (snd st))))"
  "snd (snd (call_page e n now st)) = snd (snd st) @ snd (snd (page_someone e n now (fst st) (fst (snd st))))"
  by (simp_all add: call_page_def split_beta Let_def)

lemma set_host_simps [simp]:
  "fst (set_host f st) = f (fst st)" "fst (snd (set_host f st)) = fst (snd st)" "snd (snd (set_host f st)) = snd (snd st)"
  by (simp_all add: set_host_def split_beta)

lemma mark_changed_simps [simp]:
  "fst (mark_changed st) = (fst st)\<lparr>h_change_seq := fst (snd st) + 1\<rparr>"
  "fst (snd (mark_changed st)) = fst (snd st) + 1" "snd (snd (mark_changed st)) = snd (snd st)"
  by (simp_all add: mark_changed_def object_changed_def split_beta Let_def)

definition short_int :: "int \<Rightarrow> bool" where
  "short_int r = (- 32768 \<le> r \<and> r \<le> 32767)"

lemma word_of_short: "short_int r \<Longrightarrow> ((word_of_int r :: u32) = 0) = (r = 0)"
proof -
  assume "short_int r"
  then have "take_bit 32 r = 0 \<longleftrightarrow> r = 0"
    by (auto simp: short_int_def take_bit_eq_mod mod_eq_0_iff_dvd dest: zdvd_imp_le [of 4294967296 r] zdvd_imp_le [of 4294967296 "- r"])
  then show ?thesis by (simp add: word_of_int_eq_0_iff) (simp add: take_bit_eq_0_iff)
qed

section \<open>Failing checks\<close>

text \<open>The object as a failing result leaves it, before anybody is paged.\<close>

definition failed :: "int \<Rightarrow> int \<Rightarrow> hostinfo \<Rightarrow> u64 \<Rightarrow> hostinfo" where
  "failed retval now h seq =
     (let h1 = h\<lparr>h_totalchecked := h_totalchecked h + 1, h_next_queuetime := time_plus now (h_queuetime h)\<rparr>
      in if h_lastcheck h = word_of_int retval
         then h1\<lparr>h_downct := h_downct h + 1, h_totaldown := h_totaldown h + 1\<rparr>
         else h1\<lparr>h_change_seq := seq + 1, h_upct := 0, h_lastcheck := word_of_int retval, h_downct := 1,
                 h_totaldown := h_totaldown h + 1,
                 h_deathtime := (if h_lastcheck h = 0 \<or> h_deathtime h = 0 then now else h_deathtime h)\<rparr>)"

lemma page_if_down_frame [frame]:
  "h_lastcheck (fst (page_if_down e now st)) = h_lastcheck (fst st)"
  "h_acked (fst (page_if_down e now st)) = h_acked (fst st)"
  "h_notes (fst (page_if_down e now st)) = h_notes (fst st)"
  "h_downct (fst (page_if_down e now st)) = h_downct (fst st)"
  "h_upct (fst (page_if_down e now st)) = h_upct (fst st)"
  "h_totaldown (fst (page_if_down e now st)) = h_totaldown (fst st)"
  "h_totalchecked (fst (page_if_down e now st)) = h_totalchecked (fst st)"
  "h_deathtime (fst (page_if_down e now st)) = h_deathtime (fst st)"
  "h_next_queuetime (fst (page_if_down e now st)) = h_next_queuetime (fst st)"
  "h_max_down (fst (page_if_down e now st)) = h_max_down (fst st)"
  "h_contact_when (fst (page_if_down e now st)) = h_contact_when (fst st)"
  "h_contact (fst (page_if_down e now st)) = h_contact (fst st)"
  "h_command (fst (page_if_down e now st)) = h_command (fst st)"
  by (simp_all add: page_if_down_def Let_def frame)

lemma handle_fail:
  assumes "retval \<noteq> 0"
  shows "handle_retval e nm retval now (svc, seq) =
     page_if_down e now
       (failed retval now svc seq,
        if h_lastcheck svc = word_of_int retval then seq else seq + 1,
        if h_lastcheck svc = word_of_int retval then [] else [Statechange nm (h_lastcheck svc) retval])"
proof (cases "h_lastcheck svc = word_of_int retval")
  case True
  then show ?thesis using assms
    by (simp add: handle_retval_def retval_count_def retval_report_def retval_recover_def retval_again_def
        retval_change_def retval_ok_def failed_def set_host_def Let_def frame)
next
  case False
  then have "word_of_int retval \<noteq> h_lastcheck svc" by simp
  then show ?thesis using assms False
    by (simp add: handle_retval_def retval_count_def retval_report_def retval_recover_def retval_again_def
        retval_change_def retval_ok_def failed_def set_host_def mark_changed_def object_changed_def Let_def)
qed

lemma handle_fail_fields:
  assumes "retval \<noteq> 0"
  shows "h_lastcheck (fst (handle_retval e nm retval now (svc, seq))) = word_of_int retval"
    and "h_acked (fst (handle_retval e nm retval now (svc, seq))) = h_acked svc"
    and "h_downct (fst (handle_retval e nm retval now (svc, seq))) =
           (if h_lastcheck svc = word_of_int retval then h_downct svc + 1 else 1)"
    and "h_totaldown (fst (handle_retval e nm retval now (svc, seq))) = h_totaldown svc + 1"
    and "h_totalchecked (fst (handle_retval e nm retval now (svc, seq))) = h_totalchecked svc + 1"
    and "h_next_queuetime (fst (handle_retval e nm retval now (svc, seq))) = time_plus now (h_queuetime svc)"
    and "h_deathtime (fst (handle_retval e nm retval now (svc, seq))) =
           (if h_lastcheck svc \<noteq> word_of_int retval \<and> (h_lastcheck svc = 0 \<or> h_deathtime svc = 0) then now
            else h_deathtime svc)"
    and "h_max_down (fst (handle_retval e nm retval now (svc, seq))) = h_max_down svc"
    and "h_contact_when (fst (handle_retval e nm retval now (svc, seq))) = h_contact_when svc"
    and "h_contact (fst (handle_retval e nm retval now (svc, seq))) = h_contact svc"
    and "h_command (fst (handle_retval e nm retval now (svc, seq))) = h_command svc"
    and "h_notes (fst (handle_retval e nm retval now (svc, seq))) = h_notes svc"
  by (simp_all add: handle_fail [OF assms] frame failed_def Let_def)

text \<open>A failing result pages when the count is reached and nobody was contacted, and not otherwise.\<close>

definition pages_now :: "int \<Rightarrow> hostinfo \<Rightarrow> bool" where
  "pages_now retval h =
     ((if h_lastcheck h = word_of_int retval then h_downct h + 1 else 1) \<ge> h_max_down h
      \<and> \<not> h_contacted h \<and> wants h SYSM_CONTACT_DOWN)"

lemma failed_fields:
  "h_contacted (failed r now h q) = h_contacted h" "h_contact_when (failed r now h q) = h_contact_when h"
  "h_contact (failed r now h q) = h_contact h" "h_command (failed r now h q) = h_command h"
  "h_max_down (failed r now h q) = h_max_down h"
  "h_downct (failed r now h q) = (if h_lastcheck h = word_of_int r then h_downct h + 1 else 1)"
  by (simp_all add: failed_def Let_def)

lemma same_targets:
  "h_contact_when h' = h_contact_when h \<Longrightarrow> h_contact h' = h_contact h \<Longrightarrow> h_command h' = h_command h \<Longrightarrow>
   wants h' n = wants h n \<and> reaches e h' n = reaches e h n \<and> marks e h' n = marks e h n"
  by (auto simp: wants_def reaches_def marks_def no_contact_def)

lemma handle_fail_told:
  assumes "retval \<noteq> 0"
  shows "length (filter told (snd (snd (handle_retval e nm retval now (svc, seq))))) =
           (if pages_now retval svc \<and> reaches e svc SYSM_CONTACT_DOWN then 1 else 0)"
    and "h_contacted (fst (handle_retval e nm retval now (svc, seq))) =
           (h_contacted svc \<or> (pages_now retval svc \<and> marks e svc SYSM_CONTACT_DOWN))"
proof -
  have t: "wants (failed retval now svc seq) n = wants svc n"
    "reaches e (failed retval now svc seq) n = reaches e svc n"
    "marks e (failed retval now svc seq) n = marks e svc n" for n
    using same_targets [of "failed retval now svc seq" svc n e] by (simp_all add: failed_fields)
  show "length (filter told (snd (snd (handle_retval e nm retval now (svc, seq))))) =
           (if pages_now retval svc \<and> reaches e svc SYSM_CONTACT_DOWN then 1 else 0)"
    by (simp add: handle_fail [OF assms] page_if_down_def Let_def failed_fields t pages_now_def told_def
        page_someone_told page_someone_not_told)
  show "h_contacted (fst (handle_retval e nm retval now (svc, seq))) =
           (h_contacted svc \<or> (pages_now retval svc \<and> marks e svc SYSM_CONTACT_DOWN))"
    by (simp add: handle_fail [OF assms] page_if_down_def Let_def failed_fields t pages_now_def frame) blast
qed

section \<open>Succeeding checks\<close>

lemmas handler_steps = retval_count_def retval_report_def retval_recover_def retval_again_def
  retval_change_def retval_ok_def

lemma handle_ok_fields:
  "h_lastcheck (fst (handle_retval e nm 0 now (svc, seq))) = 0"
  "h_acked (fst (handle_retval e nm 0 now (svc, seq))) = False"
  "h_downct (fst (handle_retval e nm 0 now (svc, seq))) = 0"
  "h_totaldown (fst (handle_retval e nm 0 now (svc, seq))) = h_totaldown svc"
  "h_totalchecked (fst (handle_retval e nm 0 now (svc, seq))) = h_totalchecked svc + 1"
  "h_next_queuetime (fst (handle_retval e nm 0 now (svc, seq))) = time_plus now (h_queuetime svc)"
  "h_deathtime (fst (handle_retval e nm 0 now (svc, seq))) = h_deathtime svc"
  "h_max_down (fst (handle_retval e nm 0 now (svc, seq))) = h_max_down svc"
  "h_contact_when (fst (handle_retval e nm 0 now (svc, seq))) = h_contact_when svc"
  "h_contact (fst (handle_retval e nm 0 now (svc, seq))) = h_contact svc"
  "h_command (fst (handle_retval e nm 0 now (svc, seq))) = h_command svc"
  "h_notes (fst (handle_retval e nm 0 now (svc, seq))) = h_notes svc"
  by (simp_all add: handle_retval_def handler_steps frame Let_def split_beta)

section \<open>Runs of checks\<close>

text \<open>One entry per completed check: the environment, the result and the time.\<close>

type_synonym check_result = "page_env \<times> int \<times> int"

fun run_checks :: "string \<Rightarrow> check_result list \<Rightarrow> hostinfo \<times> u64 \<Rightarrow> hstate" where
  "run_checks nm [] (h, q) = (h, q, [])"
| "run_checks nm ((e, r, now) # cs) (h, q) =
     (let (h1, q1, eff1) = handle_retval e nm r now (h, q);
          (h2, q2, eff2) = run_checks nm cs (h1, q1)
      in (h2, q2, eff1 @ eff2))"

lemma run_checks_Cons:
  "fst (run_checks nm ((e, r, now) # cs) (h, q)) =
     fst (run_checks nm cs (fst (handle_retval e nm r now (h, q)), fst (snd (handle_retval e nm r now (h, q)))))"
  "snd (snd (run_checks nm ((e, r, now) # cs) (h, q))) =
     snd (snd (handle_retval e nm r now (h, q))) @
     snd (snd (run_checks nm cs (fst (handle_retval e nm r now (h, q)), fst (snd (handle_retval e nm r now (h, q))))))"
  by (simp_all add: split_beta Let_def)

declare run_checks.simps(2) [simp del]

definition failing :: "check_result \<Rightarrow> bool" where
  "failing c = (fst (snd c) \<noteq> 0 \<and> short_int (fst (snd c)))"


lemma failing_keeps_clock:
  "list_all failing cs \<Longrightarrow> h_lastcheck h \<noteq> 0 \<Longrightarrow> h_deathtime h \<noteq> 0 \<Longrightarrow>
   h_deathtime (fst (run_checks nm cs (h, q))) = h_deathtime h
   \<and> h_acked (fst (run_checks nm cs (h, q))) = h_acked h"
proof (induction cs arbitrary: h q)
  case (Cons c cs)
  obtain e r now where c: "c = (e, r, now)" by (cases c)
  have r: "r \<noteq> 0" "(word_of_int r :: u32) \<noteq> 0" using Cons.prems(1) by (auto simp: c failing_def word_of_short)
  show ?case using Cons.prems r by (simp add: c run_checks_Cons Cons.IH handle_fail_fields [OF r(1)])
qed simp

text \<open>
  One outage, one clock, one acknowledgement. From the first failing result of an object
  that was up, through any further failing results of whatever kinds, the time of death stays
  that of the first failure and an acknowledgement given meanwhile stands; the first good
  result withdraws it.
\<close>

theorem outage_clock:
  assumes "h_lastcheck h = 0" and "list_all failing ((e, r, now) # cs)" and "now \<noteq> 0"
  shows "h_deathtime (fst (run_checks nm ((e, r, now) # cs) (h, q))) = now
    \<and> h_acked (fst (run_checks nm ((e, r, now) # cs) (h, q))) = h_acked h
    \<and> \<not> h_acked (fst (handle_retval e' nm 0 now' (h', q')))"
proof -
  have r: "r \<noteq> 0" "(word_of_int r :: u32) \<noteq> 0" using assms(2) by (auto simp: failing_def word_of_short)
  then have "h_lastcheck h \<noteq> word_of_int r" using assms(1) by simp
  then show ?thesis
    using assms r by (simp add: run_checks_Cons failing_keeps_clock handle_fail_fields [OF r(1)] handle_ok_fields)
qed

text \<open>The property where a host goes from timing out to refusing and is acknowledged in between.\<close>

theorem outage_clock_witness:
  "h_deathtime (fst (run_checks ''gw'' [(quiet_env, 4, 100), (quiet_env, 1, 160)] (zero_host, 0))) = 100
   \<and> \<not> h_acked (fst (handle_retval quiet_env ''gw'' 0 220 (zero_host, 0)))"
  using outage_clock [of zero_host quiet_env 4 100 "[(quiet_env, 1, 160)]" "''gw''" 0 quiet_env 220 zero_host 0]
  by (simp add: zero_host_def failing_def short_int_def)

section \<open>Paging\<close>

lemma failing_contacted:
  "list_all (\<lambda>c. fst (snd c) \<noteq> 0) cs \<Longrightarrow> h_contacted h \<Longrightarrow>
   h_contacted (fst (run_checks nm cs (h, q))) \<and> filter told (snd (snd (run_checks nm cs (h, q)))) = []"
proof (induction cs arbitrary: h q)
  case (Cons c cs)
  obtain e r now where c: "c = (e, r, now)" by (cases c)
  have r: "r \<noteq> 0" using Cons.prems(1) by (simp add: c)
  have "h_contacted (fst (handle_retval e nm r now (h, q)))"
    using Cons.prems(2) handle_fail_told(2) [OF r] by simp
  moreover have "filter told (snd (snd (handle_retval e nm r now (h, q)))) = []"
    using Cons.prems(2) handle_fail_told(1) [OF r, of e nm now h q] by (simp add: pages_now_def)
  ultimately show ?case using Cons.prems(1) by (simp add: c run_checks_Cons Cons.IH)
qed simp

text \<open>
  C3. During one outage (any run of failing results, of whatever kinds and with notification
  switched on and off at will in between) at most one message leaves the daemon, and none once
  the object is marked contacted.
\<close>

theorem one_page_per_outage:
  assumes "list_all failing cs"
  shows "length (filter told (snd (snd (run_checks nm cs (h, q))))) \<le> (if h_contacted h then 0 else 1)"
  using assms
proof (induction cs arbitrary: h q)
  case (Cons c cs)
  obtain e r now where c: "c = (e, r, now)" by (cases c)
  have "failing c" and cs: "list_all failing cs" using Cons.prems by simp_all
  then have r: "r \<noteq> 0" by (simp add: c failing_def)
  let ?h1 = "handle_retval e nm r now (h, q)"
  have told: "length (filter told (snd (snd ?h1))) = (if pages_now r h \<and> reaches e h SYSM_CONTACT_DOWN then 1 else 0)"
    by (rule handle_fail_told(1) [OF r])
  show ?case
  proof (cases "pages_now r h \<and> reaches e h SYSM_CONTACT_DOWN")
    case True
    then have "h_contacted (fst ?h1)" "\<not> h_contacted h"
      using handle_fail_told(2) [OF r, of e nm now h q] reaches_marks by (auto simp: pages_now_def)
    moreover have "list_all (\<lambda>c. fst (snd c) \<noteq> 0) cs" using cs by (simp add: list_all_iff failing_def)
    ultimately show ?thesis using told True failing_contacted by (simp add: c run_checks_Cons)
  next
    case False
    with told have "filter told (snd (snd ?h1)) = []" by simp
    moreover have "h_contacted h \<Longrightarrow> h_contacted (fst ?h1)" using handle_fail_told(2) [OF r, of e nm now h q] by simp
    ultimately show ?thesis using Cons.IH [OF cs, of "fst ?h1" "fst (snd ?h1)"]
      by (cases "h_contacted h"; cases "h_contacted (fst ?h1)") (simp_all add: c run_checks_Cons)
  qed
qed simp

theorem one_page_per_outage_witness:
  "length (filter told (snd (snd (run_checks ''gw'' [(quiet_env, 4, 100), (quiet_env, 4, 160), (quiet_env, 1, 220)]
     (zero_host\<lparr>h_contact := Some ''noc'', h_contact_when := 3\<rparr>, 0))))) \<le> 1"
  using one_page_per_outage [of "[(quiet_env, 4, 100), (quiet_env, 4, 160), (quiet_env, 1, 220)]" "''gw''"
      "zero_host\<lparr>h_contact := Some ''noc'', h_contact_when := 3\<rparr>" 0]
  by (simp add: failing_def short_int_def zero_host_def)

text \<open>What the page of an outage still waits for, while the same failure repeats.\<close>

lemma same_failure_run:
  assumes "k \<noteq> 0" "list_all (\<lambda>(e, r, _). r = k \<and> reaches e h SYSM_CONTACT_DOWN) cs"
    and "h_lastcheck h = word_of_int k" "\<not> h_contacted h" "wants h SYSM_CONTACT_DOWN"
    and "unat (h_downct h) + length cs < 2 ^ 64" "h_downct h < h_max_down h"
  shows "length (filter told (snd (snd (run_checks nm cs (h, q))))) =
         (if unat (h_max_down h) \<le> unat (h_downct h) + length cs then 1 else 0)"
  using assms
proof (induction cs arbitrary: h q)
  case Nil
  then show ?case by (simp add: word_less_nat_alt)
next
  case (Cons c cs)
  obtain e now where c: "c = (e, k, now)" using Cons.prems(2) by (cases c) auto
  have reach: "reaches e h SYSM_CONTACT_DOWN" using Cons.prems(2) by (simp add: c)
  let ?h1 = "fst (handle_retval e nm k now (h, q))" and ?q1 = "fst (snd (handle_retval e nm k now (h, q)))"
  have d: "h_downct ?h1 = h_downct h + 1" "h_lastcheck ?h1 = word_of_int k" "h_max_down ?h1 = h_max_down h"
    using Cons.prems(3) by (simp_all add: handle_fail_fields [OF Cons.prems(1)])
  have ud: "unat (h_downct h + 1) = unat (h_downct h) + 1"
    using Cons.prems(6) by (simp add: unat_word_ariths)
  have tg: "wants ?h1 n = wants h n \<and> reaches e' ?h1 n = reaches e' h n" for n e'
    using same_targets [of ?h1 h n e'] by (simp add: handle_fail_fields [OF Cons.prems(1)])
  have pn: "pages_now k h \<longleftrightarrow> unat (h_max_down h) \<le> unat (h_downct h) + 1"
    using Cons.prems(3,4,5) ud by (simp add: pages_now_def word_le_nat_alt)
  note told = handle_fail_told [OF Cons.prems(1), of e nm now h q]
  show ?case
  proof (cases "pages_now k h")
    case True
    then have "h_contacted ?h1" using told(2) reaches_marks [OF reach] by simp
    moreover have "list_all (\<lambda>c. fst (snd c) \<noteq> 0) cs" using Cons.prems(1,2) by (auto simp: list_all_iff)
    ultimately show ?thesis using failing_contacted True told(1) reach pn by (simp add: c run_checks_Cons)
  next
    case False
    then have "\<not> h_contacted ?h1" using told(2) Cons.prems(4) by simp
    moreover have "list_all (\<lambda>(e, r, _). r = k \<and> reaches e ?h1 SYSM_CONTACT_DOWN) cs"
      using Cons.prems(2) tg by (simp add: list_all_iff split_beta)
    moreover have "h_downct ?h1 < h_max_down ?h1" using False pn d ud by (simp add: word_less_nat_alt)
    ultimately have "length (filter told (snd (snd (run_checks nm cs (?h1, ?q1))))) =
        (if unat (h_max_down h) \<le> unat (h_downct h) + 1 + length cs then 1 else 0)"
      using Cons.IH [of ?h1 ?q1] Cons.prems(1,5,6) d ud tg by simp
    then show ?thesis using told(1) False by (simp add: c run_checks_Cons)
  qed
qed


lemma reaches_quiet:
  "reaches quiet_env (zero_host\<lparr>h_contact := Some ''noc'', h_contact_when := 3, h_max_down := 2\<rparr>) SYSM_CONTACT_DOWN"
  by (simp add: reaches_def wants_def no_contact_def quiet_env_def zero_host_def)


text \<open>
  The count towards the threshold starts again with every change of the failure kind,
  although the outage is the same: an object with a threshold of two or more whose
  failures keep changing kind from one check to the next is down without end and nobody is
  ever told.
\<close>

theorem changing_failures_never_page:
  assumes "list_all failing cs" "\<not> h_contacted h" "1 < h_max_down h"
    and "distinct_adj (h_lastcheck h # map (\<lambda>c. word_of_int (fst (snd c))) cs)"
  shows "filter told (snd (snd (run_checks nm cs (h, q)))) = []
    \<and> \<not> h_contacted (fst (run_checks nm cs (h, q)))"
  using assms
proof (induction cs arbitrary: h q)
  case (Cons c cs)
  obtain e r now where c: "c = (e, r, now)" by (cases c)
  have f: "failing c" "list_all failing cs" using Cons.prems(1) by simp_all
  then have r: "r \<noteq> 0" by (simp add: c failing_def)
  have neq: "h_lastcheck h \<noteq> word_of_int r" using Cons.prems(4) by (simp add: c)
  have pn: "\<not> pages_now r h" using neq Cons.prems(3) by (simp add: pages_now_def not_le)
  let ?h1 = "fst (handle_retval e nm r now (h, q))" and ?q1 = "fst (snd (handle_retval e nm r now (h, q)))"
  have nt: "filter told (snd (snd (handle_retval e nm r now (h, q)))) = []" and nc: "\<not> h_contacted ?h1"
    using handle_fail_told [OF r, of e nm now h q] pn Cons.prems(2) by simp_all
  have "distinct_adj (h_lastcheck ?h1 # map (\<lambda>c. word_of_int (fst (snd c))) cs)"
    using Cons.prems(4) by (simp add: c handle_fail_fields [OF r])
  then show ?case using Cons.IH [OF f(2) nc, of ?q1] nt Cons.prems(3)
    by (simp add: c run_checks_Cons handle_fail_fields [OF r])
qed simp

theorem changing_failures_never_page_witness:
  "filter told (snd (snd (run_checks ''gw'' [(quiet_env, 4, 100), (quiet_env, 1, 160), (quiet_env, 4, 220)]
     (zero_host\<lparr>h_contact := Some ''noc'', h_contact_when := 3, h_max_down := 2\<rparr>, 0)))) = []"
  using changing_failures_never_page [of "[(quiet_env, 4, 100), (quiet_env, 1, 160), (quiet_env, 4, 220)]"
      "zero_host\<lparr>h_contact := Some ''noc'', h_contact_when := 3, h_max_down := 2\<rparr>" "''gw''" 0]
  by (simp add: failing_def short_int_def zero_host_def)

section \<open>Change numbers\<close>

definition numbered_view :: "hostinfo \<Rightarrow> (u32 \<times> bool \<times> bool \<times> string option) \<times> u64" where
  "numbered_view h = (client_view h, h_change_seq h)"

definition moved :: "u64 \<Rightarrow> nat \<Rightarrow> hstate \<Rightarrow> bool" where
  "moved q n st = (\<exists>k. 1 \<le> k \<and> k \<le> n \<and> fst (snd st) = q + of_nat k \<and> h_change_seq (fst st) = fst (snd st))"

lemma moved_mono: "moved q n st \<Longrightarrow> n \<le> m \<Longrightarrow> moved q m st"
  by (auto simp: moved_def intro: order.trans)

lemma moved_set_host: "moved q n st \<Longrightarrow> (\<And>h. h_change_seq (f h) = h_change_seq h) \<Longrightarrow> moved q n (set_host f st)"
  by (simp add: moved_def)

lemma moved_mark: "moved q n st \<Longrightarrow> moved q (Suc n) (mark_changed st)"
proof -
  assume "moved q n st"
  then obtain k where "1 \<le> k" "k \<le> n" "fst (snd st) = q + of_nat k" by (auto simp: moved_def)
  then show ?thesis unfolding moved_def by (intro exI [of _ "Suc k"]) (simp add: algebra_simps)
qed

lemma moved_start: "fst (snd st) = q \<Longrightarrow> moved q 1 (mark_changed st)"
  unfolding moved_def by (rule exI [of _ 1]) simp

lemma moved_page: "moved q n st \<Longrightarrow> moved q (Suc n) (call_page e s now st)"
proof -
  assume "moved q n st"
  then obtain k where k: "1 \<le> k" "k \<le> n" "fst (snd st) = q + of_nat k" "h_change_seq (fst st) = fst (snd st)"
    by (auto simp: moved_def)
  show ?thesis unfolding moved_def
    using k page_someone_seq [of e s now "fst st" "fst (snd st)"]
    by (intro exI [of _ "if marks e (fst st) s then Suc k else k"]) (auto simp: algebra_simps)
qed

lemma page_start:
  "fst (snd st) = q \<Longrightarrow> moved q 1 (call_page e s now st) \<or>
     (fst (snd (call_page e s now st)) = q \<and> numbered_view (fst (call_page e s now st)) = numbered_view (fst st))"
proof (cases "marks e (fst st) s")
  case True
  assume "fst (snd st) = q"
  with True page_someone_seq [of e s now "fst st" "fst (snd st)"] show ?thesis
    unfolding moved_def by (intro disjI1 exI [of _ 1]) simp
next
  case False
  assume "fst (snd st) = q"
  with False page_someone_seq [of e s now "fst st" "fst (snd st)"] show ?thesis
    by (simp add: numbered_view_def client_view_def frame)
qed

lemma handle_fail_seq:
  assumes "retval \<noteq> 0"
  shows "moved q 4 (handle_retval e nm retval now (h, q)) \<or>
     (fst (snd (handle_retval e nm retval now (h, q))) = q
      \<and> numbered_view (fst (handle_retval e nm retval now (h, q))) = numbered_view h)"
proof (cases "h_lastcheck h = word_of_int retval")
  case True
  then have v: "numbered_view (failed retval now h q) = numbered_view h" by (simp add: failed_def numbered_view_def client_view_def Let_def)
  show ?thesis
    using page_start [of "(failed retval now h q, q, [])" q e SYSM_CONTACT_DOWN now] True v
    by (auto simp: handle_fail [OF assms] page_if_down_def Let_def intro: moved_mono)
next
  case False
  let ?st = "(failed retval now h q, q + 1, [Statechange nm (h_lastcheck h) retval])"
  have "moved q 1 ?st"
    unfolding moved_def using False by (intro exI [of _ 1]) (simp add: failed_def Let_def)
  then have "moved q 4 ?st" "moved q 4 (call_page e SYSM_CONTACT_DOWN now ?st)"
    using moved_mono [of q 1 ?st 4] moved_mono [OF moved_page, of q 1 ?st 4 e SYSM_CONTACT_DOWN now] by simp_all
  then show ?thesis using False by (simp add: handle_fail [OF assms] page_if_down_def Let_def)
qed

lemma retval_ok_moved: "moved q n st \<Longrightarrow> moved q (Suc (Suc n)) (retval_ok e retval now st)"
proof -
  assume m: "moved q n st"
  define st1 where "st1 = set_host (\<lambda>h. h\<lparr>h_upct := h_upct h + 1, h_downct := 0\<rparr>) st"
  define st2 where "st2 = (if h_acked (fst st1) then mark_changed (set_host (h_acked_update (\<lambda>_. False)) st1) else st1)"
  have m1: "moved q n st1" unfolding st1_def by (rule moved_set_host [OF m]) simp
  have "moved q n (set_host (h_acked_update (\<lambda>_. False)) st1)" by (rule moved_set_host [OF m1]) simp
  then have m2: "moved q (Suc n) st2"
    using moved_mark moved_mono [OF m1] unfolding st2_def by simp
  show ?thesis
    using moved_page [OF m2, of e SYSM_CONTACT_UP now] moved_mono [OF m2] moved_mono [OF m]
    unfolding retval_ok_def Let_def st1_def [symmetric] st2_def [symmetric] by simp
qed

lemma retval_ok_same:
  assumes "fst (snd st) = q"
  shows "moved q 2 (retval_ok e retval now st) \<or>
     (fst (snd (retval_ok e retval now st)) = q \<and> numbered_view (fst (retval_ok e retval now st)) = numbered_view (fst st))"
proof (cases "retval = 0")
  case True
  define st1 where "st1 = set_host (\<lambda>h. h\<lparr>h_upct := h_upct h + 1, h_downct := 0\<rparr>) st"
  have q1: "fst (snd st1) = q" and v1: "numbered_view (fst st1) = numbered_view (fst st)"
    using assms by (simp_all add: st1_def numbered_view_def client_view_def)
  show ?thesis
  proof (cases "h_acked (fst st1)")
    case acked: True
    define st2 where "st2 = mark_changed (set_host (h_acked_update (\<lambda>_. False)) st1)"
    have "moved q 1 st2" unfolding st2_def by (rule moved_start) (simp add: q1)
    then have "moved q 2 st2" "moved q 2 (call_page e SYSM_CONTACT_UP now st2)"
      using moved_mono [of q 1 st2 2] moved_page [of q 1 st2] by (simp_all add: numeral_2_eq_2)
    then show ?thesis using True acked
      unfolding retval_ok_def Let_def st1_def [symmetric] by (simp add: st2_def [symmetric])
  next
    case False
    then show ?thesis using True page_start [OF q1, of e SYSM_CONTACT_UP now] v1 q1
        moved_mono [of q 1 "call_page e SYSM_CONTACT_UP now st1" 2]
      unfolding retval_ok_def Let_def st1_def [symmetric] by auto
  qed
next
  case False
  then show ?thesis using assms by (simp add: retval_ok_def)
qed

lemma handle_ok_seq:
  "moved q 4 (handle_retval e nm 0 now (h, q)) \<or>
     (fst (snd (handle_retval e nm 0 now (h, q))) = q
      \<and> numbered_view (fst (handle_retval e nm 0 now (h, q))) = numbered_view h)"
proof -
  define st0 where "st0 = retval_count now (h, q, [])"
  have q0: "fst (snd st0) = q" and v0: "numbered_view (fst st0) = numbered_view h" and l0: "h_lastcheck (fst st0) = h_lastcheck h"
    by (simp_all add: st0_def retval_count_def numbered_view_def client_view_def)
  define st3 where "st3 = retval_change e 0 now (retval_again e 0 now (retval_recover e 0 now (retval_report nm 0 st0)))"
  have st: "handle_retval e nm 0 now (h, q) = retval_ok e 0 now st3" by (simp add: handle_retval_def st0_def st3_def)
  show ?thesis
  proof (cases "h_lastcheck h = 0")
    case True
    then have "st3 = st0" using l0
      by (simp add: st3_def retval_report_def retval_recover_def retval_again_def retval_change_def Let_def split_beta)
    then show ?thesis using retval_ok_same [OF q0, of e 0 now] v0 moved_mono [of q 2 "retval_ok e 0 now st0" 4] by (auto simp: st)
  next
    case False
    define st1 where "st1 = retval_report nm 0 st0"
    have "moved q 1 st1" using False l0 q0 moved_start [of "(fst st0, q, snd (snd st0) @ [Statechange nm (h_lastcheck h) 0])" q]
      by (simp add: st1_def retval_report_def Let_def split_beta)
    then have m2: "moved q 2 (retval_recover e 0 now st1)"
      unfolding retval_recover_def Let_def
      by (auto simp: numeral_2_eq_2 intro: moved_mono intro!: moved_set_host moved_page)
    have "moved q 2 st3"
      unfolding st3_def st1_def [symmetric] using m2
      by (auto simp: retval_again_def retval_change_def Let_def intro!: moved_set_host)
    then show ?thesis using retval_ok_moved [of q 2 st3 e 0 now] by (simp add: st)
  qed
qed

lemma handle_retval_seq:
  "moved q 4 (handle_retval e nm retval now (h, q)) \<or>
     (fst (snd (handle_retval e nm retval now (h, q))) = q
      \<and> numbered_view (fst (handle_retval e nm retval now (h, q))) = numbered_view h)"
  using handle_ok_seq handle_fail_seq by (cases "retval = 0") auto

text \<open>
  A client that remembers the highest change number it has seen misses nothing: whenever
  handling a result alters what a client can see of an object (its status, whether somebody
  was contacted, its acknowledgement), the object carries the newest change number, which is
  above every number handed out before; and one result never uses more than four numbers.
\<close>

theorem change_seq_complete:
  "\<exists>k \<le> 4. fst (snd (handle_retval e nm retval now (h, q))) = q + of_nat k
     \<and> (client_view (fst (handle_retval e nm retval now (h, q))) \<noteq> client_view h \<longrightarrow>
          1 \<le> k \<and> h_change_seq (fst (handle_retval e nm retval now (h, q))) = q + of_nat k)"
  using handle_retval_seq[of q e nm retval now h]
proof
  assume "moved q 4 (handle_retval e nm retval now (h, q))"
  then show ?thesis by (auto simp: moved_def)
qed (auto simp: numbered_view_def intro: exI [of _ 0])

theorem change_seq_complete_witness:
  "\<exists>k \<le> 4. fst (snd (handle_retval quiet_env ''gw'' 4 100 (zero_host, 7))) = 7 + of_nat k
     \<and> 1 \<le> k \<and> h_change_seq (fst (handle_retval quiet_env ''gw'' 4 100 (zero_host, 7))) = 7 + of_nat k"
proof -
  have "h_lastcheck (fst (handle_retval quiet_env ''gw'' 4 100 (zero_host, 7))) = word_of_int 4"
    by (simp add: handle_fail_fields)
  then have "client_view (fst (handle_retval quiet_env ''gw'' 4 100 (zero_host, 7))) \<noteq> client_view zero_host"
    by (simp add: client_view_def zero_host_def)
  with change_seq_complete [of quiet_env "''gw''" 4 100 zero_host 7] show ?thesis by blast
qed

section \<open>Recovery\<close>

lemma targets_eq:
  assumes "h_contact_when h' = h_contact_when h" "h_contact h' = h_contact h" "h_command h' = h_command h"
  shows "wants h' n = wants h n" "reaches e h' n = reaches e h n"
  using same_targets [OF assms] by simp_all

lemma call_page_told:
  "length (filter told (snd (snd (call_page e n now st)))) =
   length (filter told (snd (snd st))) + (if reaches e (fst st) n then 1 else 0)"
  by (simp only: call_page_simps filter_append length_append page_someone_told)

lemma recover_effects:
  assumes "h_contacted (fst st)" "h_lastcheck (fst st) \<noteq> 0" "reaches e (fst st) SYSM_CONTACT_UP"
  shows "length (filter told (snd (snd (retval_recover e 0 now st)))) = length (filter told (snd (snd st))) + 1"
    and "\<not> h_contacted (fst (retval_recover e 0 now st))" "h_lastcheck (fst (retval_recover e 0 now st)) = 0"
    and "h_upct (fst (retval_recover e 0 now st)) = h_upct (fst st)"
    and "h_max_down (fst (retval_recover e 0 now st)) = h_max_down (fst st)"
    and "h_contact_when (fst (retval_recover e 0 now st)) = h_contact_when (fst st)"
    and "h_contact (fst (retval_recover e 0 now st)) = h_contact (fst st)"
    and "h_command (fst (retval_recover e 0 now st)) = h_command (fst st)"
proof -
  define st1 where "st1 = set_host (h_lastcheck_update (\<lambda>_. word_of_int 0)) st"
  have "h_contact_when (fst st1) = h_contact_when (fst st)" "h_contact (fst st1) = h_contact (fst st)"
    "h_command (fst st1) = h_command (fst st)" by (simp_all add: st1_def)
  from targets_eq [OF this] assms(3) reachesD [OF assms(3)]
  have t: "wants (fst st1) SYSM_CONTACT_UP" "reaches e (fst st1) SYSM_CONTACT_UP" "e_donotify e"
    by simp_all
  then have eq: "retval_recover e 0 now st =
      set_host (\<lambda>h. h\<lparr>h_last_up := now, h_last_recovery := now, h_contacted := False\<rparr>) (call_page e SYSM_CONTACT_UP now st1)"
    using assms(1,2) by (simp add: retval_recover_def Let_def st1_def [simplified, symmetric])
  show "length (filter told (snd (snd (retval_recover e 0 now st)))) = length (filter told (snd (snd st))) + 1"
    using t(2) by (simp only: eq set_host_simps call_page_told) (simp add: st1_def)
qed (use assms in \<open>simp_all add: retval_recover_def Let_def frame\<close>)

text \<open>
  An object that is to be announced only when it comes up (\<open>contact_when\<close> is UP) and whose
  threshold is 0 or 1 announces one recovery twice: the recovery branch pages and clears the
  contacted mark, and the success branch, finding the mark clear, pages again in the same call.
\<close>

theorem recovery_announced_twice:
  assumes "h_contacted h" "h_lastcheck h \<noteq> 0" "h_contact_when h = SYSM_CONTACT_UP" "h_upct h = 0"
    and "h_max_down h \<le> 1" "reaches e h SYSM_CONTACT_UP"
  shows "length (filter told (snd (snd (handle_retval e nm 0 now (h, q))))) = 2"
proof -
  define st1 where "st1 = retval_report nm 0 (retval_count now (h, q, []))"
  have st1: "snd (snd st1) = [Statechange nm (h_lastcheck h) 0]" "h_contacted (fst st1)" "h_lastcheck (fst st1) \<noteq> 0"
    "h_upct (fst st1) = 0" "h_max_down (fst st1) = h_max_down h" "h_contact_when (fst st1) = h_contact_when h"
    "h_contact (fst st1) = h_contact h" "h_command (fst st1) = h_command h"
    using assms by (simp_all add: st1_def retval_report_def retval_count_def Let_def split_beta)
  have "reaches e (fst st1) SYSM_CONTACT_UP" using targets_eq(2) [of "fst st1" h] st1 assms(6) by simp
  note rec = recover_effects [OF st1(2,3) this, of now]
  define st2 where "st2 = retval_recover e 0 now st1"
  have skip: "retval_change e 0 now (retval_again e 0 now st2) = st2"
    using rec(3) by (simp add: retval_again_def retval_change_def st2_def)
  define st3 where "st3 = set_host (\<lambda>h. h\<lparr>h_upct := h_upct h + 1, h_downct := 0\<rparr>) st2"
  define st4 where "st4 = (if h_acked (fst st3) then mark_changed (set_host (h_acked_update (\<lambda>_. False)) st3) else st3)"
  have st4: "snd (snd st4) = snd (snd st2)" "\<not> h_contacted (fst st4)" "h_upct (fst st4) = 1"
    "h_max_down (fst st4) = h_max_down h" "h_contact_when (fst st4) = SYSM_CONTACT_UP"
    "h_contact (fst st4) = h_contact h" "h_command (fst st4) = h_command h"
    using rec st1 assms(3) by (simp_all add: st4_def st3_def st2_def)
  then have "reaches e (fst st4) SYSM_CONTACT_UP" using targets_eq(2) [of "fst st4" h] assms(3,6) by simp
  moreover have "handle_retval e nm 0 now (h, q) = call_page e SYSM_CONTACT_UP now st4"
  proof -
    have "handle_retval e nm 0 now (h, q) = retval_ok e 0 now st2"
      by (simp add: handle_retval_def st1_def [symmetric] st2_def [symmetric] skip)
    then show ?thesis using st4 assms(5)
      unfolding retval_ok_def Let_def st3_def [symmetric] st4_def [symmetric] by simp
  qed
  ultimately show ?thesis using rec(1) st1(1) st4(1) by (simp only: call_page_told) (simp add: st2_def told_def)
qed

theorem recovery_announced_twice_witness:
  "length (filter told (snd (snd (handle_retval quiet_env ''gw'' 0 300
     (zero_host\<lparr>h_contact := Some ''noc'', h_contact_when := 2, h_contacted := True, h_lastcheck := 4\<rparr>, 0))))) = 2"
  using recovery_announced_twice [of "zero_host\<lparr>h_contact := Some ''noc'', h_contact_when := 2, h_contacted := True,
      h_lastcheck := 4\<rparr>" quiet_env "''gw''" 300 0]
  by (simp add: zero_host_def reaches_def wants_def no_contact_def quiet_env_def)

end
