(* ===== verification/Object_Graph.thy ===== *)
theory Object_Graph
  imports Host_Info
begin

text \<open>
  The graph of monitored objects of loadconfig.c. Objects live in one list, in the order of the
  list \<open>parser_head\<close>; a pointer to an object is its position, and every position outside the list
  stands for \<open>NULL\<close>. The theory holds the searches by name, the construction of the adjacency
  arrays from the dependency names (\<open>make_adjs\<close>), the depth first walk all traversals of the
  program share, and the report of unreachable objects (\<open>log_orphans\<close>).
\<close>

record graph_element =
  g_unique_name :: string
  g_data :: "hostinfo option"
  g_deps :: "string list"
  g_tot_nei :: "16 word"
  g_neighbors :: "nat list"
  g_visit :: bool

type_synonym graph = "graph_element list"

definition set_visit :: "nat \<Rightarrow> graph \<Rightarrow> graph" where
  "set_visit p gs = gs[p := (gs ! p)\<lparr>g_visit := True\<rparr>]"

definition clear_visited :: "graph \<Rightarrow> graph" where
  "clear_visited gs = map (\<lambda>g. g\<lparr>g_visit := False\<rparr>) gs"

text \<open>The loops \<open>for (x = 0; x < here->tot_nei; x++)\<close> read this part of the array.\<close>

definition nexts :: "graph \<Rightarrow> nat \<Rightarrow> nat list" where
  "nexts gs p = take (unat (g_tot_nei (gs ! p))) (g_neighbors (gs ! p))"

section \<open>Searching and building adjacencies\<close>

primrec find_name :: "string \<Rightarrow> graph \<Rightarrow> nat option" where
  "find_name name [] = None"
| "find_name name (g # gs) =
     (if g_unique_name g = name then Some 0 else map_option Suc (find_name name gs))"

definition find_object_by_name :: "graph \<Rightarrow> string option \<Rightarrow> nat option" where
  "find_object_by_name gs text_name =
     (case text_name of None \<Rightarrow> None | Some name \<Rightarrow> find_name name gs)"

primrec search_dep_loop :: "string list \<Rightarrow> nat \<Rightarrow> string \<Rightarrow> graph \<Rightarrow> graph \<times> nat option" where
  "search_dep_loop [] here name gs = (gs, None)"
| "search_dep_loop (d # ds) here name gs =
     (if g_visit (gs ! here) then (gs, None)
      else if d = name
           then let gs' = set_visit here gs in (gs', find_object_by_name gs' (Some d))
           else search_dep_loop ds here name gs)"

definition search_dep_list :: "nat \<Rightarrow> string \<Rightarrow> graph \<Rightarrow> graph \<times> nat option" where
  "search_dep_list here name gs = search_dep_loop (g_deps (gs ! here)) here name gs"

text \<open>The list under construction holds the name and the object of each neighbour.\<close>

definition make_adjs_add_neighbor ::
    "(string \<times> nat) list \<Rightarrow> string \<Rightarrow> nat \<Rightarrow> (string \<times> nat) list" where
  "make_adjs_add_neighbor current_list name p =
     (if name \<in> fst ` set current_list then current_list else (name, p) # current_list)"

type_synonym adj_state = "graph \<times> (string \<times> nat) list \<times> int"

definition collect_parent :: "string \<Rightarrow> adj_state \<Rightarrow> adj_state" where
  "collect_parent dep = (\<lambda>(gs, nl, numnei).
     case find_object_by_name gs (Some dep) of
       None \<Rightarrow> (gs, nl, numnei)
     | Some p \<Rightarrow>
         if g_visit (gs ! p) then (gs, nl, numnei)
         else let gs' = set_visit p gs
              in (gs', make_adjs_add_neighbor nl (g_unique_name (gs' ! p)) p, numnei + 1))"

definition collect_child :: "nat \<Rightarrow> nat \<Rightarrow> adj_state \<Rightarrow> adj_state" where
  "collect_child here here2 = (\<lambda>(gs, nl, numnei).
     if here2 = here then (gs, nl, numnei)
     else let (gs1, find_result) = search_dep_list here2 (g_unique_name (gs ! here)) gs
          in case find_result of
               None \<Rightarrow> (gs1, nl, numnei)
             | Some p \<Rightarrow> let gs2 = set_visit p gs1
                       in (gs2, make_adjs_add_neighbor nl (g_unique_name (gs2 ! here2)) here2, numnei + 1))"

definition collect_adjs :: "nat \<Rightarrow> graph \<Rightarrow> adj_state" where
  "collect_adjs here gs =
     fold (collect_child here) [0..<length gs]
       (fold collect_parent (g_deps (gs ! here)) (gs, [], 0))"

definition store_adjs :: "nat \<Rightarrow> (string \<times> nat) list \<Rightarrow> int \<Rightarrow> graph \<Rightarrow> graph" where
  "store_adjs here nl numnei gs =
     (if numnei \<noteq> 0
      then gs[here := (gs ! here)\<lparr>g_neighbors := map snd nl, g_tot_nei := of_nat (length nl)\<rparr>]
      else gs)"

definition make_adjs_step :: "nat \<Rightarrow> graph \<times> int \<Rightarrow> graph \<times> int" where
  "make_adjs_step here = (\<lambda>(gs, max_numnei).
     let (gs1, nl, numnei) = collect_adjs here gs;
         gs2 = store_adjs here nl numnei (clear_visited gs1)
     in (gs2, if numnei > max_numnei then numnei else max_numnei))"

definition make_adjs :: "graph \<Rightarrow> graph \<times> int" where
  "make_adjs gs = fold make_adjs_step [0..<length gs] (gs, 0)"

section \<open>The depth first walk\<close>

text \<open>
  The recursive traversals differ in when they turn back (\<open>skip\<close>), in what they do at an object
  (\<open>act\<close>, which sets its visited flag) and in where they go on (\<open>next\<close>, evaluated after \<open>act\<close>).
  The first argument bounds the depth of the recursion; running out of it is \<open>None\<close>.
\<close>

primrec each :: "('a \<Rightarrow> 's \<Rightarrow> 's option) \<Rightarrow> 'a list \<Rightarrow> 's \<Rightarrow> 's option" where
  "each f [] s = Some s"
| "each f (x # xs) s = (case f x s of None \<Rightarrow> None | Some s' \<Rightarrow> each f xs s')"

primrec graph_walk ::
    "nat \<Rightarrow> (nat \<Rightarrow> 's \<Rightarrow> bool) \<Rightarrow> (nat \<Rightarrow> 's \<Rightarrow> 's) \<Rightarrow> (nat \<Rightarrow> 's \<Rightarrow> nat list) \<Rightarrow> nat \<Rightarrow> 's \<Rightarrow> 's option" where
  "graph_walk 0 skip act next = (\<lambda>p s. None)"
| "graph_walk (Suc depth) skip act next = (\<lambda>p s.
     if skip p s then Some s
     else let s' = act p s in each (graph_walk depth skip act next) (next p s') s')"

definition visit_skip :: "nat \<Rightarrow> graph \<Rightarrow> bool" where
  "visit_skip p gs = (length gs \<le> p \<or> g_visit (gs ! p))"

definition visit_them :: "nat \<Rightarrow> graph \<Rightarrow> graph option" where
  "visit_them start gs = graph_walk (Suc (length gs)) visit_skip set_visit (\<lambda>p gs. nexts gs p) start gs"

definition log_orphans :: "nat \<Rightarrow> graph \<Rightarrow> (graph \<times> string list) option" where
  "log_orphans start gs =
     (if gs = [] then Some (gs, [])
      else case visit_them start (clear_visited gs) of
        None \<Rightarrow> None
      | Some gs' \<Rightarrow> Some (clear_visited gs', map g_unique_name (filter (\<lambda>g. \<not> g_visit g) gs')))"

section \<open>The contract of a walk\<close>

text \<open>
  A walk ends when every visit makes some natural number smaller: a depth above that number is
  never used up. \<open>inv\<close> is a property of the state the visits keep.
\<close>

locale bounded_walk =
  fixes skip :: "nat \<Rightarrow> 's \<Rightarrow> bool" and act :: "nat \<Rightarrow> 's \<Rightarrow> 's" and "next" :: "nat \<Rightarrow> 's \<Rightarrow> nat list"
    and remaining :: "'s \<Rightarrow> nat" and inv :: "'s \<Rightarrow> bool"
  assumes act_inv: "inv s \<Longrightarrow> \<not> skip p s \<Longrightarrow> inv (act p s)"
    and act_remaining: "inv s \<Longrightarrow> \<not> skip p s \<Longrightarrow> remaining (act p s) < remaining s"
begin

lemma each_total:
  assumes "\<And>p s. inv s \<Longrightarrow> remaining s < d \<Longrightarrow> \<exists>s'. f p s = Some s' \<and> inv s' \<and> remaining s' \<le> remaining s"
    and "inv s" "remaining s < d"
  shows "\<exists>s'. each f ps s = Some s' \<and> inv s' \<and> remaining s' \<le> remaining s"
  using assms(2,3)
proof (induction ps arbitrary: s)
  case (Cons p ps)
  obtain s1 where 1: "f p s = Some s1" "inv s1" "remaining s1 \<le> remaining s"
    using assms(1) Cons.prems by blast
  with Cons.IH[of s1] Cons.prems show ?case by fastforce
qed simp

theorem walk_total:
  "inv s \<Longrightarrow> remaining s < d \<Longrightarrow>
     \<exists>s'. graph_walk d skip act next p s = Some s' \<and> inv s' \<and> remaining s' \<le> remaining s"
proof (induction d arbitrary: p s)
  case (Suc d)
  show ?case
  proof (cases "skip p s")
    case False
    have "inv (act p s)" "remaining (act p s) < d"
      using act_inv act_remaining False Suc.prems by force+
    then obtain s' where "each (graph_walk d skip act next) (next p (act p s)) (act p s) = Some s'"
        "inv s'" "remaining s' \<le> remaining (act p s)"
      using each_total[of d "graph_walk d skip act next" "act p s" "next p (act p s)"] Suc.IH by blast
    with act_remaining[OF Suc.prems(1) False] show ?thesis using False by (simp add: Let_def)
  qed (use Suc.prems in auto)
qed simp

end

text \<open>Where a walk can get to: along \<open>edges\<close>, never entering a blocked object.\<close>

inductive reach :: "(nat \<Rightarrow> nat list) \<Rightarrow> (nat \<Rightarrow> bool) \<Rightarrow> nat \<Rightarrow> nat \<Rightarrow> bool"
  for edges blocked start where
  reach_root: "\<not> blocked start \<Longrightarrow> reach edges blocked start start"
| reach_step: "reach edges blocked start p \<Longrightarrow> q \<in> set (edges p) \<Longrightarrow> \<not> blocked q \<Longrightarrow> reach edges blocked start q"

text \<open>
  When the edges and the blocked objects stay what they were and a walk only avoids what it has
  visited, it visits exactly the reachable objects.
\<close>

locale search_walk = bounded_walk skip act "next" remaining inv
  for skip :: "nat \<Rightarrow> 's \<Rightarrow> bool" and act "next" remaining inv +
  fixes visited :: "'s \<Rightarrow> nat set" and edges :: "nat \<Rightarrow> nat list" and blocked :: "nat \<Rightarrow> bool"
  assumes skip_iff: "inv s \<Longrightarrow> skip p s \<longleftrightarrow> blocked p \<or> p \<in> visited s"
    and act_visited: "inv s \<Longrightarrow> \<not> skip p s \<Longrightarrow> visited (act p s) = insert p (visited s)"
    and next_edges: "inv s \<Longrightarrow> p \<in> visited s \<Longrightarrow> next p s = edges p"
begin

text \<open>What one call of the walk at \<open>ps\<close> may add to the visited objects.\<close>

definition explores :: "nat list \<Rightarrow> 's \<Rightarrow> 's \<Rightarrow> bool" where
  "explores ps s s' \<longleftrightarrow> inv s' \<and> visited s \<subseteq> visited s' \<and>
     (\<forall>p\<in>set ps. blocked p \<or> p \<in> visited s') \<and>
     (\<forall>q\<in>visited s' - visited s. (\<exists>p\<in>set ps. reach edges blocked p q) \<and>
        (\<forall>r\<in>set (edges q). blocked r \<or> r \<in> visited s'))"

lemma explores_each:
  assumes "\<And>p s s'. inv s \<Longrightarrow> f p s = Some s' \<Longrightarrow> explores [p] s s'"
  shows "inv s \<Longrightarrow> each f ps s = Some s' \<Longrightarrow> explores ps s s'"
proof (induction ps arbitrary: s)
  case (Cons p ps)
  then obtain s1 where s1: "f p s = Some s1" "each f ps s1 = Some s'" by (auto split: option.splits)
  have a: "explores [p] s s1" using assms Cons.prems(1) s1(1) .
  have b: "explores ps s1 s'" using Cons.IH[OF _ s1(2)] a by (simp add: explores_def)
  show ?case using a b unfolding explores_def by (auto 0 3)
qed (simp add: explores_def)

lemma reach_from_edge:
  assumes "reach edges blocked q r" "q \<in> set (edges p)" "\<not> blocked p"
  shows "reach edges blocked p r"
  using assms(1)
proof (induction rule: reach.induct)
  case reach_root
  show ?case by (rule reach.reach_step[where p = p]) (use assms(2,3) reach_root in \<open>auto intro: reach.reach_root\<close>)
next
  case (reach_step p q)
  then show ?case by (blast intro: reach.reach_step)
qed

lemma explores_new:
  assumes "explores ps s s'" "q \<in> visited s'" "q \<notin> visited s"
  obtains p where "p \<in> set ps" "reach edges blocked p q"
proof -
  have "\<exists>p\<in>set ps. reach edges blocked p q" using assms by (simp add: explores_def)
  then show thesis using that by blast
qed

lemma explores_closed:
  "explores ps s s' \<Longrightarrow> q \<in> visited s' \<Longrightarrow> q \<notin> visited s \<Longrightarrow> r \<in> set (edges q) \<Longrightarrow> blocked r \<or> r \<in> visited s'"
  by (simp add: explores_def)

lemma explores_act:
  assumes "visited t = insert p (visited s)" "\<not> blocked p" "explores (edges p) t s'"
  shows "explores [p] s s'"
proof -
  have "reach edges blocked p q" if q: "q \<in> visited s'" "q \<notin> visited s" for q
  proof (cases "q = p")
    case False
    then obtain p' where "p' \<in> set (edges p)" "reach edges blocked p' q"
      using explores_new[OF assms(3), of q] q assms(1) by auto
    then show ?thesis using reach_from_edge assms(2) by simp
  qed (simp add: reach.reach_root assms(2))
  moreover have "blocked r \<or> r \<in> visited s'" if "q \<in> visited s'" "q \<notin> visited s" "r \<in> set (edges q)" for q r
    using that assms(1) explores_closed[OF assms(3), of q r] assms(3)
    by (cases "q = p") (simp_all add: explores_def)
  moreover have "inv s'" "p \<in> visited s'" "visited s \<subseteq> visited s'"
    using assms(1,3) by (simp_all add: explores_def)
  ultimately show ?thesis unfolding explores_def by (intro conjI ballI) (simp_all, blast)
qed

lemma explores_walk: "inv s \<Longrightarrow> graph_walk d skip act next p s = Some s' \<Longrightarrow> explores [p] s s'"
proof (induction d arbitrary: p s s')
  case (Suc d)
  show ?case
  proof (cases "skip p s")
    case True
    then show ?thesis using Suc.prems skip_iff[OF Suc.prems(1)] by (simp add: explores_def)
  next
    case False
    let ?s = "act p s"
    have i: "inv ?s" and v: "visited ?s = insert p (visited s)" and nb: "\<not> blocked p"
      using act_inv act_visited skip_iff False Suc.prems(1) by blast+
    have n: "next p ?s = edges p" using next_edges[OF i] v by simp
    have "each (graph_walk d skip act next) (edges p) ?s = Some s'"
      using Suc.prems(2) False n by (simp add: Let_def)
    with explores_each[of "graph_walk d skip act next", OF _ i] Suc.IH
    have "explores (edges p) ?s s'" by simp
    with v nb show ?thesis by (rule explores_act)
  qed
qed simp

theorem walk_visits:
  assumes "inv s" "visited s = {}" "graph_walk d skip act next start s = Some s'"
  shows "visited s' = {q. reach edges blocked start q}"
proof -
  have ex: "explores [start] s s'" using explores_walk assms by blast
  have "reach edges blocked start q \<Longrightarrow> q \<in> visited s'" for q
    by (induction rule: reach.induct) (use ex assms(2) in \<open>auto simp: explores_def\<close>)
  with ex assms(2) show ?thesis by (auto simp: explores_def)
qed

end


section \<open>Visited flags\<close>

definition visited_set :: "graph \<Rightarrow> nat set" where
  "visited_set gs = {p. p < length gs \<and> g_visit (gs ! p)}"

definition unvisited :: "graph \<Rightarrow> nat" where
  "unvisited gs = length (filter (\<lambda>g. \<not> g_visit g) gs)"

lemma length_clear_visited [simp]: "length (clear_visited gs) = length gs"
  by (simp add: clear_visited_def)

lemma length_set_visit [simp]: "length (set_visit p gs) = length gs"
  by (simp add: set_visit_def)

lemma clear_set_visit [simp]: "clear_visited (set_visit p gs) = clear_visited gs"
  by (cases "p < length gs") (simp_all add: clear_visited_def set_visit_def map_update list_update_same_conv list_update_beyond)

lemma clear_clear_visited [simp]: "clear_visited (clear_visited gs) = clear_visited gs"
  by (simp add: clear_visited_def)

lemma nth_clear_visited: "p < length gs \<Longrightarrow> clear_visited gs ! p = (gs ! p)\<lparr>g_visit := False\<rparr>"
  by (simp add: clear_visited_def)

lemma visited_clear [simp]: "visited_set (clear_visited gs) = {}"
  by (auto simp: visited_set_def nth_clear_visited)

lemma same_length: "clear_visited gs = clear_visited gs0 \<Longrightarrow> length gs = length gs0"
  using length_clear_visited by metis

text \<open>Two states of one network agree on everything but the visited flags.\<close>

lemma same_node:
  assumes "clear_visited gs = clear_visited gs0" "p < length gs0"
  shows "gs ! p = (gs0 ! p)\<lparr>g_visit := g_visit (gs ! p)\<rparr>"
proof -
  have "(gs ! p)\<lparr>g_visit := False\<rparr> = (gs0 ! p)\<lparr>g_visit := False\<rparr>"
    using assms nth_clear_visited same_length by metis
  then have "(gs ! p)\<lparr>g_visit := False\<rparr>\<lparr>g_visit := g_visit (gs ! p)\<rparr> = (gs0 ! p)\<lparr>g_visit := False\<rparr>\<lparr>g_visit := g_visit (gs ! p)\<rparr>"
    by simp
  then show ?thesis by simp
qed

lemma same_fields:
  assumes "clear_visited gs = clear_visited gs0" "p < length gs0"
  shows "g_unique_name (gs ! p) = g_unique_name (gs0 ! p)" "g_deps (gs ! p) = g_deps (gs0 ! p)"
    "g_data (gs ! p) = g_data (gs0 ! p)" "nexts gs p = nexts gs0 p"
  unfolding nexts_def by (subst same_node[OF assms], simp)+

lemma visited_set_visit: "p < length gs \<Longrightarrow> visited_set (set_visit p gs) = insert p (visited_set gs)"
  by (auto simp: visited_set_def set_visit_def nth_list_update)

lemma unvisited_card: "unvisited gs = card ({..<length gs} - visited_set gs)"
proof -
  have "{i. i < length gs \<and> \<not> g_visit (gs ! i)} = {..<length gs} - visited_set gs"
    by (auto simp: visited_set_def)
  then show ?thesis by (simp add: unvisited_def length_filter_conv_card)
qed

lemma unvisited_le: "unvisited gs \<le> length gs"
  by (simp add: unvisited_def)

lemma unvisited_set_visit:
  assumes "p < length gs" "\<not> g_visit (gs ! p)"
  shows "unvisited (set_visit p gs) < unvisited gs"
proof -
  let ?left = "{..<length gs} - visited_set gs"
  have "{..<length gs} - visited_set (set_visit p gs) = ?left - {p}"
    unfolding visited_set_visit[OF assms(1)] by blast
  moreover have "p \<in> ?left" using assms by (simp add: visited_set_def)
  ultimately show ?thesis by (simp add: unvisited_card card_Diff1_less del: card_Diff_insert)
qed

interpretation vt: search_walk visit_skip set_visit "\<lambda>p gs. nexts gs p" unvisited
    "\<lambda>gs. clear_visited gs = clear_visited gs0" visited_set "nexts gs0" "\<lambda>p. length gs0 \<le> p"
  for gs0
proof unfold_locales
  fix s :: graph and p :: nat
  assume s: "clear_visited s = clear_visited gs0"
  note len = same_length[OF s]
  show "visit_skip p s \<longleftrightarrow> length gs0 \<le> p \<or> p \<in> visited_set s"
    using len by (simp add: visit_skip_def visited_set_def linorder_not_le) linarith
  show "p \<in> visited_set s \<Longrightarrow> nexts s p = nexts gs0 p"
    using same_fields(4)[OF s] len by (simp add: visited_set_def)
  assume "\<not> visit_skip p s"
  then have p: "p < length s" "\<not> g_visit (s ! p)" by (simp_all add: visit_skip_def)
  show "clear_visited (set_visit p s) = clear_visited gs0" using s by simp
  show "unvisited (set_visit p s) < unvisited s" using p by (rule unvisited_set_visit)
  show "visited_set (set_visit p s) = insert p (visited_set s)" using p(1) by (rule visited_set_visit)
qed

lemma visit_them_total:
  obtains gs' where "visit_them start gs = Some gs'" "clear_visited gs' = clear_visited gs"
  using vt.walk_total[of gs gs "Suc (length gs)" start] unvisited_le[of gs]
  by (auto simp: visit_them_def)

lemma visit_them_reach:
  assumes "visit_them start gs = Some gs'" "visited_set gs = {}"
  shows "visited_set gs' = {p. reach (nexts gs) (\<lambda>p. length gs \<le> p) start p}"
  using vt.walk_visits[of gs gs "Suc (length gs)" start gs'] assms by (simp add: visit_them_def)

lemma map_filter_idx: "map f (filter P xs) = map (\<lambda>i. f (xs ! i)) (filter (\<lambda>i. P (xs ! i)) [0..<length xs])"
  by (subst (1) map_nth[symmetric]) (simp add: filter_map comp_def)

lemma reach_cong:
  assumes "\<And>p. \<not> blocked p \<Longrightarrow> edges p = edges' p" "reach edges blocked start q"
  shows "reach edges' blocked start q"
  using assms(2)
proof (induction rule: reach.induct)
  case (reach_step p q)
  have "\<not> blocked p" using reach_step.hyps(1) by (rule reach.cases) simp_all
  with reach_step assms(1) show ?case by (metis reach.reach_step)
qed (rule reach.reach_root)

text \<open>
  C25. The report of unreachable objects is exact on every graph, cyclic ones included: the walk from
  the root ends, the names reported are those of the objects that no chain of neighbours joins to
  the root, in configuration order, and no visited flag stays set.
\<close>

theorem log_orphans_exact:
  "log_orphans start gs =
     Some (clear_visited gs,
       map (\<lambda>p. g_unique_name (gs ! p))
         (filter (\<lambda>p. \<not> reach (nexts gs) (\<lambda>p. length gs \<le> p) start p) [0..<length gs]))"
proof (cases "gs = []")
  case False
  obtain gs' where gs': "visit_them start (clear_visited gs) = Some gs'" "clear_visited gs' = clear_visited gs"
    using visit_them_total[of start "clear_visited gs"] by auto
  note same = same_fields[OF gs'(2)] and len = same_length[OF gs'(2)]
  have n: "nexts (clear_visited gs) p = nexts gs p" if "\<not> length gs \<le> p" for p
    using same_fields(4)[of "clear_visited gs" gs p] that by simp
  have "reach (nexts (clear_visited gs)) (\<lambda>p. length gs \<le> p) start p \<longleftrightarrow>
        reach (nexts gs) (\<lambda>p. length gs \<le> p) start p" for p
    using reach_cong[of "\<lambda>p. length gs \<le> p"] n by metis
  then have "visited_set gs' = {p. reach (nexts gs) (\<lambda>p. length gs \<le> p) start p}"
    using visit_them_reach[OF gs'(1)] by simp
  then have v: "p < length gs \<Longrightarrow> g_visit (gs' ! p) \<longleftrightarrow> reach (nexts gs) (\<lambda>p. length gs \<le> p) start p" for p
    using len by (auto simp: visited_set_def)
  have "map g_unique_name (filter (\<lambda>g. \<not> g_visit g) gs') =
      map (\<lambda>p. g_unique_name (gs ! p))
        (filter (\<lambda>p. \<not> reach (nexts gs) (\<lambda>p. length gs \<le> p) start p) [0..<length gs])"
    unfolding map_filter_idx[of g_unique_name] len
    using v same(1) by (intro map_cong filter_cong) auto
  with gs' False show ?thesis by (simp add: log_orphans_def)
qed (simp add: log_orphans_def clear_visited_def)

section \<open>Adjacency\<close>

lemma find_name_clear: "find_name name (clear_visited gs) = find_name name gs"
  by (induction gs) (simp_all add: clear_visited_def)

lemma find_name_same: "clear_visited gs = clear_visited gs0 \<Longrightarrow> find_name name gs = find_name name gs0"
  using find_name_clear by metis

lemma find_name_Some:
  "find_name name gs = Some p \<Longrightarrow> p < length gs \<and> g_unique_name (gs ! p) = name"
  by (induction gs arbitrary: p) (auto split: if_splits)

lemma find_name_distinct:
  assumes "distinct (map g_unique_name gs)" "p < length gs"
  shows "find_name (g_unique_name (gs ! p)) gs = Some p"
  using assms
proof (induction gs arbitrary: p)
  case (Cons g gs)
  show ?case
  proof (cases p)
    case (Suc q)
    with Cons show ?thesis using nth_mem[of q gs] by auto
  qed simp
qed simp

lemma search_dep_loop_spec:
  "search_dep_loop ds here name gs =
     (if \<not> g_visit (gs ! here) \<and> name \<in> set ds
      then (set_visit here gs, find_name name gs) else (gs, None))"
proof (induction ds)
  case (Cons d ds)
  have "find_name name (set_visit here gs) = find_name name gs"
    by (rule find_name_same) simp
  with Cons show ?case by (simp add: find_object_by_name_def Let_def)
qed simp

text \<open>
  While the neighbours of one object are collected: names and objects agree, no neighbour is listed
  twice, and a set flag means a listed neighbour or one of the objects in \<open>extra\<close>.
\<close>

definition adj_inv :: "graph \<Rightarrow> nat set \<Rightarrow> adj_state \<Rightarrow> bool" where
  "adj_inv gs0 extra = (\<lambda>(gs, nl, numnei).
     clear_visited gs = clear_visited gs0 \<and>
     (\<forall>(nm, p)\<in>set nl. p < length gs0 \<and> nm = g_unique_name (gs0 ! p)) \<and>
     distinct (map fst nl) \<and> visited_set gs \<subseteq> snd ` set nl \<union> extra \<and>
     0 \<le> numnei \<and> (numnei = 0 \<longleftrightarrow> nl = []))"

definition adj_ptrs :: "adj_state \<Rightarrow> nat set" where
  "adj_ptrs = (\<lambda>(gs, nl, numnei). snd ` set nl)"

lemma adj_inv_add:
  assumes "adj_inv gs0 extra (gs, nl, k)" "distinct (map g_unique_name gs0)" "p < length gs0"
    "clear_visited gs' = clear_visited gs0" "visited_set gs' \<subseteq> visited_set gs \<union> {p} \<union> extra'" "extra \<subseteq> extra'"
  defines "nl' \<equiv> make_adjs_add_neighbor nl (g_unique_name (gs' ! p)) p"
  shows "adj_inv gs0 extra' (gs', nl', k + 1) \<and> snd ` set nl' = insert p (snd ` set nl)"
proof -
  have name: "g_unique_name (gs' ! p) = g_unique_name (gs0 ! p)"
    using same_fields(1)[OF assms(4,3)] .
  have nl: "q < length gs0 \<and> nm = g_unique_name (gs0 ! q)" if "(nm, q) \<in> set nl" for nm q
    using assms(1) that by (auto simp: adj_inv_def)
  have "p \<in> snd ` set nl" if in_nl: "g_unique_name (gs0 ! p) \<in> fst ` set nl"
  proof -
    from in_nl obtain q where q: "(g_unique_name (gs0 ! p), q) \<in> set nl" by auto
    with nl[OF q] find_name_distinct[OF assms(2)] assms(3) have "q = p" by (metis option.inject)
    with q show ?thesis by force
  qed
  then have snd: "snd ` set nl' = insert p (snd ` set nl)"
    by (auto simp: nl'_def make_adjs_add_neighbor_def name)
  have "adj_inv gs0 extra' (gs', nl', k + 1)"
    unfolding adj_inv_def prod.case
  proof (intro conjI)
    show "\<forall>(nm, p)\<in>set nl'. p < length gs0 \<and> nm = g_unique_name (gs0 ! p)"
      using nl assms(3) by (auto simp: nl'_def make_adjs_add_neighbor_def name)
    show "distinct (map fst nl')"
      using assms(1) by (auto simp: nl'_def make_adjs_add_neighbor_def adj_inv_def)
    show "visited_set gs' \<subseteq> snd ` set nl' \<union> extra'"
      using assms(1,5,6) unfolding snd adj_inv_def prod.case by blast
    show "0 \<le> k + 1" "(k + 1 = 0) = (nl' = [])"
      using assms(1) snd by (auto simp: adj_inv_def)
  qed (rule assms(4))
  with snd show ?thesis by simp
qed

lemma collect_parent_inv:
  assumes "adj_inv gs0 {} st" "distinct (map g_unique_name gs0)"
  shows "adj_inv gs0 {} (collect_parent dep st) \<and>
    adj_ptrs (collect_parent dep st) = adj_ptrs st \<union> {p. p < length gs0 \<and> g_unique_name (gs0 ! p) = dep}"
proof -
  obtain gs nl k where st: "st = (gs, nl, k)" by (cases st)
  have cl: "clear_visited gs = clear_visited gs0" and vis: "visited_set gs \<subseteq> snd ` set nl"
    using assms(1) by (simp_all add: st adj_inv_def)
  note fn = find_name_same[OF cl, of dep] and len = same_length[OF cl]
  show ?thesis
  proof (cases "find_name dep gs0")
    case None
    then have "{p. p < length gs0 \<and> g_unique_name (gs0 ! p) = dep} = {}"
      using find_name_distinct[OF assms(2)] by force
    with None assms(1) show ?thesis by (auto simp: st collect_parent_def find_object_by_name_def fn)
  next
    case (Some p)
    have p: "p < length gs0" "g_unique_name (gs0 ! p) = dep" using find_name_Some[OF Some] by simp_all
    have "q = p" if "q < length gs0" "g_unique_name (gs0 ! q) = dep" for q
      using find_name_distinct[OF assms(2) that(1)] that(2) Some by simp
    with p have the_p: "{p. p < length gs0 \<and> g_unique_name (gs0 ! p) = dep} = {p}" by blast
    show ?thesis
    proof (cases "g_visit (gs ! p)")
      case True
      then have "p \<in> snd ` set nl" using vis p(1) len by (auto simp: visited_set_def)
      with True Some assms(1) show ?thesis
        by (auto simp: st collect_parent_def find_object_by_name_def fn adj_ptrs_def the_p)
    next
      case False
      have "visited_set (set_visit p gs) \<subseteq> visited_set gs \<union> {p} \<union> {}"
        using visited_set_visit p(1) len by simp
      from adj_inv_add[OF assms(1)[unfolded st] assms(2) p(1) _ this] cl False Some
      show ?thesis
        by (simp add: st collect_parent_def find_object_by_name_def fn adj_ptrs_def the_p Let_def)
    qed
  qed
qed

lemma collect_child_inv:
  assumes "adj_inv gs0 {here} st" "distinct (map g_unique_name gs0)" "here < length gs0" "here2 < length gs0"
  shows "adj_inv gs0 {here} (collect_child here here2 st) \<and>
    adj_ptrs (collect_child here here2 st) = adj_ptrs st \<union>
      (if here2 \<noteq> here \<and> g_unique_name (gs0 ! here) \<in> set (g_deps (gs0 ! here2)) then {here2} else {})"
proof -
  obtain gs nl k where st: "st = (gs, nl, k)" by (cases st)
  have cl: "clear_visited gs = clear_visited gs0" and vis: "visited_set gs \<subseteq> snd ` set nl \<union> {here}"
    using assms(1) by (simp_all add: st adj_inv_def)
  note len = same_length[OF cl] and name = same_fields(1)[OF cl assms(3)] and deps = same_fields(2)[OF cl assms(4)]
  have found: "find_name (g_unique_name (gs0 ! here)) gs = Some here"
    using find_name_same[OF cl] find_name_distinct[OF assms(2,3)] by simp
  consider "here2 = here" | "here2 \<noteq> here" "g_visit (gs ! here2)"
    | "here2 \<noteq> here" "\<not> g_visit (gs ! here2)" "g_unique_name (gs0 ! here) \<notin> set (g_deps (gs0 ! here2))"
    | "here2 \<noteq> here" "\<not> g_visit (gs ! here2)" "g_unique_name (gs0 ! here) \<in> set (g_deps (gs0 ! here2))"
    by blast
  then show ?thesis
  proof cases
    case 2
    then have "here2 \<in> snd ` set nl" using vis assms(4) len by (auto simp: visited_set_def)
    with 2 assms(1) show ?thesis
      by (auto simp: st collect_child_def search_dep_list_def search_dep_loop_spec adj_ptrs_def)
  next
    case 4
    let ?gs = "set_visit here (set_visit here2 gs)"
    have "visited_set ?gs \<subseteq> visited_set gs \<union> {here2} \<union> {here}"
      using visited_set_visit[of here "set_visit here2 gs"] visited_set_visit[of here2 gs] assms(3,4) len by simp
    from adj_inv_add[OF assms(1)[unfolded st] assms(2,4) _ this] cl 4
    show ?thesis
      by (simp add: st collect_child_def search_dep_list_def search_dep_loop_spec name deps found
          adj_ptrs_def Let_def)
  qed (use assms(1) in \<open>simp_all add: st collect_child_def search_dep_list_def search_dep_loop_spec name deps\<close>)
qed

lemma collect_parents:
  assumes "distinct (map g_unique_name gs0)" "adj_inv gs0 {} st"
  shows "adj_inv gs0 {} (fold collect_parent ds st) \<and>
    adj_ptrs (fold collect_parent ds st) = adj_ptrs st \<union> {p. p < length gs0 \<and> g_unique_name (gs0 ! p) \<in> set ds}"
  using assms(2)
proof (induction ds arbitrary: st)
  case (Cons d ds)
  note step = collect_parent_inv[OF Cons.prems assms(1), of d]
  show ?case using Cons.IH[of "collect_parent d st"] step by auto
qed simp

lemma collect_children:
  assumes "distinct (map g_unique_name gs0)" "here < length gs0" "adj_inv gs0 {here} st" "\<forall>q\<in>set qs. q < length gs0"
  shows "adj_inv gs0 {here} (fold (collect_child here) qs st) \<and>
    adj_ptrs (fold (collect_child here) qs st) = adj_ptrs st \<union>
      {q \<in> set qs. q \<noteq> here \<and> g_unique_name (gs0 ! here) \<in> set (g_deps (gs0 ! q))}"
  using assms(3,4)
proof (induction qs arbitrary: st)
  case (Cons q qs)
  have q: "q < length gs0" "\<forall>q\<in>set qs. q < length gs0" using Cons.prems(2) by simp_all
  note step = collect_child_inv[OF Cons.prems(1) assms(1,2) q(1)]
  show ?case using Cons.IH[of "collect_child here q st"] step q(2) by auto
qed simp

text \<open>Two objects are linked when one of them depends on the other.\<close>

definition linked :: "graph \<Rightarrow> nat \<Rightarrow> nat \<Rightarrow> bool" where
  "linked gs i j \<longleftrightarrow> i < length gs \<and> j < length gs \<and>
     (g_unique_name (gs ! j) \<in> set (g_deps (gs ! i)) \<or> g_unique_name (gs ! i) \<in> set (g_deps (gs ! j)))"

lemma collect_adjs_spec:
  assumes "distinct (map g_unique_name gs)" "visited_set gs = {}" "here < length gs"
    "collect_adjs here gs = (gs', nl, k)"
  shows "clear_visited gs' = clear_visited gs" "set (map snd nl) = {j. linked gs here j}"
    "distinct (map snd nl)" "k = 0 \<longleftrightarrow> nl = []"
proof -
  let ?init = "(gs, [], 0) :: adj_state" and ?st1 = "fold collect_parent (g_deps (gs ! here)) (gs, [], 0)"
  have "adj_inv gs {} ?init" using assms(2) by (simp add: adj_inv_def)
  note par = collect_parents[OF assms(1) this, of "g_deps (gs ! here)"]
  then have inv1: "adj_inv gs {here} ?st1" by (auto simp: adj_inv_def)
  have inv: "adj_inv gs {here} (gs', nl, k)" and
    ptrs: "snd ` set nl = adj_ptrs ?st1 \<union>
      {q. q < length gs \<and> q \<noteq> here \<and> g_unique_name (gs ! here) \<in> set (g_deps (gs ! q))}"
    using collect_children[OF assms(1,3) inv1, of "[0..<length gs]"] assms(4)
    by (auto simp: collect_adjs_def adj_ptrs_def)
  show "clear_visited gs' = clear_visited gs" "k = 0 \<longleftrightarrow> nl = []" using inv by (simp_all add: adj_inv_def)
  show "set (map snd nl) = {j. linked gs here j}"
    using ptrs par assms(3) by (auto simp: adj_ptrs_def linked_def)
  have "map fst nl = map (\<lambda>p. g_unique_name (gs ! p)) (map snd nl)"
    using inv by (auto simp: adj_inv_def)
  moreover have "distinct (map fst nl)" using inv by (simp add: adj_inv_def)
  ultimately show "distinct (map snd nl)" by (metis distinct_map)
qed

text \<open>Two graphs with the same objects and dependencies.\<close>

definition same_objects :: "graph \<Rightarrow> graph \<Rightarrow> bool" where
  "same_objects gs gs0 \<longleftrightarrow> length gs = length gs0 \<and>
     (\<forall>p<length gs0. g_unique_name (gs ! p) = g_unique_name (gs0 ! p) \<and>
        g_deps (gs ! p) = g_deps (gs0 ! p) \<and> g_data (gs ! p) = g_data (gs0 ! p))"

lemma same_objects_names: "same_objects gs gs0 \<Longrightarrow> map g_unique_name gs = map g_unique_name gs0"
  by (simp add: same_objects_def list_eq_iff_nth_eq)

lemma same_objects_linked: "same_objects gs gs0 \<Longrightarrow> linked gs = linked gs0"
  by (intro ext) (auto simp: same_objects_def linked_def)

lemma linked_sym: "linked gs i j \<longleftrightarrow> linked gs j i"
  by (auto simp: linked_def)

lemma length_distinct_bound:
  assumes "distinct xs" "set xs \<subseteq> {..<n}" shows "length xs \<le> n"
  using card_mono[OF _ assms(2)] distinct_card[OF assms(1)] by simp

lemma make_adjs_step_spec:
  assumes "distinct (map g_unique_name gs0)" "length gs0 < 65536" "same_objects gs gs0" "visited_set gs = {}"
    "p < length gs0" "g_tot_nei (gs ! p) = 0" "make_adjs_step p (gs, m) = (gs', m')"
  shows "same_objects gs' gs0" "visited_set gs' = {}" "distinct (nexts gs' p)"
    "set (nexts gs' p) = {j. linked gs0 p j}"
    "\<forall>q. q < length gs0 \<and> q \<noteq> p \<longrightarrow> nexts gs' q = nexts gs q \<and> g_tot_nei (gs' ! q) = g_tot_nei (gs ! q)"
proof -
  obtain gs1 nl k where c: "collect_adjs p gs = (gs1, nl, k)" by (cases "collect_adjs p gs")
  have len: "length gs = length gs0" using assms(3) by (simp add: same_objects_def)
  have dist: "distinct (map g_unique_name gs)" using same_objects_names[OF assms(3)] assms(1) by simp
  have p: "p < length gs" using assms(5) len by simp
  note spec = collect_adjs_spec[OF dist assms(4) p c]
  have gs': "gs' = store_adjs p nl k (clear_visited gs)"
    using assms(7) spec(1) by (simp add: make_adjs_step_def c Let_def)
  have "length nl \<le> length gs0"
    using length_distinct_bound[OF spec(3)] spec(2) len by (auto simp: linked_def)
  then have cnt: "unat (of_nat (length nl) :: 16 word) = length nl"
    using assms(2) by (simp add: unat_of_nat)
  have at_p: "nexts gs' p = map snd nl"
  proof (cases "k = 0")
    case True
    with spec(4) show ?thesis
      using assms(6) p by (simp add: gs' store_adjs_def nexts_def nth_clear_visited)
  next
    case False
    then show ?thesis using p cnt by (simp add: gs' store_adjs_def nexts_def)
  qed
  then show "distinct (nexts gs' p)" "set (nexts gs' p) = {j. linked gs0 p j}"
    using spec(2,3) same_objects_linked[OF assms(3)] by simp_all
  show "same_objects gs' gs0" "visited_set gs' = {}"
    using assms(3) p
    by (auto simp: gs' store_adjs_def same_objects_def visited_set_def nth_list_update nth_clear_visited)
  show "\<forall>q. q < length gs0 \<and> q \<noteq> p \<longrightarrow> nexts gs' q = nexts gs q \<and> g_tot_nei (gs' ! q) = g_tot_nei (gs ! q)"
    using len by (auto simp: gs' store_adjs_def nexts_def nth_clear_visited)
qed

lemma make_adjs_fold:
  assumes "distinct (map g_unique_name gs)" "length gs < 65536" "\<forall>g\<in>set gs. \<not> g_visit g \<and> g_tot_nei g = 0"
    "k \<le> length gs" "fold make_adjs_step [0..<k] (gs, m) = (gs', m')"
  shows "same_objects gs' gs \<and> visited_set gs' = {} \<and>
    (\<forall>p<length gs. if p < k then distinct (nexts gs' p) \<and> set (nexts gs' p) = {j. linked gs p j}
       else g_tot_nei (gs' ! p) = 0)"
  using assms(4,5)
proof (induction k arbitrary: gs' m')
  case 0
  then show ?case using assms(3) by (auto simp: same_objects_def visited_set_def)
next
  case (Suc k)
  obtain g1 m1 where 1: "fold make_adjs_step [0..<k] (gs, m) = (g1, m1)"
    by (cases "fold make_adjs_step [0..<k] (gs, m)")
  have k: "k < length gs" using Suc.prems(1) by simp
  from Suc.IH[OF _ 1] k have IH: "same_objects g1 gs" "visited_set g1 = {}" "g_tot_nei (g1 ! k) = 0"
    and nx: "\<forall>p<length gs. if p < k then distinct (nexts g1 p) \<and> set (nexts g1 p) = {j. linked gs p j}
       else g_tot_nei (g1 ! p) = 0" by auto
  have step: "make_adjs_step k (g1, m1) = (gs', m')" using Suc.prems(2) 1 by simp
  note sp = make_adjs_step_spec[OF assms(1,2) IH(1,2) k IH(3) step]
  have "if p < Suc k then distinct (nexts gs' p) \<and> set (nexts gs' p) = {j. linked gs p j}
       else g_tot_nei (gs' ! p) = 0" if "p < length gs" for p
    using that nx sp(3-5) by (cases "p = k") (auto simp: less_Suc_eq)
  with sp(1,2) show ?case by simp
qed

text \<open>
  C21. Adjacency is built completely and symmetrically: with distinct object names, fewer than 65536
  objects and a freshly parsed list, each object ends with exactly the objects it depends on and the
  objects that depend on it as neighbours, each once; neighbourhood goes both ways; and nothing else
  of any object changes.
\<close>

theorem make_adjs_links:
  assumes "distinct (map g_unique_name gs)" "length gs < 65536" "\<forall>g\<in>set gs. \<not> g_visit g \<and> g_tot_nei g = 0"
    and "i < length gs" "j < length gs" "make_adjs gs = (gs', max_nei)"
  shows "(j \<in> set (nexts gs' i) \<longleftrightarrow> linked gs i j) \<and> (j \<in> set (nexts gs' i) \<longleftrightarrow> i \<in> set (nexts gs' j)) \<and>
    distinct (nexts gs' i) \<and> same_objects gs' gs \<and> visited_set gs' = {}"
proof -
  note sp = make_adjs_fold[OF assms(1-3) order_refl assms(6)[unfolded make_adjs_def]]
  then have "p < length gs \<Longrightarrow> distinct (nexts gs' p) \<and> set (nexts gs' p) = {j. linked gs p j}" for p
    by simp
  with sp assms(4,5) linked_sym[of gs i j] show ?thesis by simp
qed

definition three_objects :: graph where
  "three_objects =
     [\<lparr>g_unique_name = ''core'', g_data = None, g_deps = [], g_tot_nei = 0, g_neighbors = [], g_visit = False\<rparr>,
      \<lparr>g_unique_name = ''edge'', g_data = None, g_deps = [''core''], g_tot_nei = 0, g_neighbors = [], g_visit = False\<rparr>,
      \<lparr>g_unique_name = ''lost'', g_data = None, g_deps = [''gone''], g_tot_nei = 0, g_neighbors = [], g_visit = False\<rparr>]"

theorem make_adjs_links_witness:
  "1 \<in> set (nexts (fst (make_adjs three_objects)) 0) \<and> 2 \<notin> set (nexts (fst (make_adjs three_objects)) 0)"
proof -
  have pre: "distinct (map g_unique_name three_objects)" "length three_objects < 65536"
    "\<forall>g\<in>set three_objects. \<not> g_visit g \<and> g_tot_nei g = 0" and i: "0 < length three_objects"
    and j: "1 < length three_objects" "2 < length three_objects"
    by (simp_all add: three_objects_def)
  have "linked three_objects 0 1" "\<not> linked three_objects 0 2"
    by (simp_all add: linked_def three_objects_def)
  moreover obtain gs' m where m: "make_adjs three_objects = (gs', m)" by (cases "make_adjs three_objects")
  ultimately show ?thesis
    using make_adjs_links[OF pre i j(1) m] make_adjs_links[OF pre i j(2) m] by simp
qed

end
