(* ===== verification/Check_Queue.thy ===== *)
theory Check_Queue
  imports Host_State Object_Graph "HOL-Library.Multiset"
begin

text \<open>
  The scheduler of syswatch.c: which objects become due, the queue of checks in progress, servicing
  it, waking up checks that hang, throwing the queue away before a reload and the periodic walks.
  The checks themselves (\<open>start_test_\<close>, \<open>service_test_\<close> and \<open>stop_test_\<close> of the protocols) are
  arguments: what they do to the queue entry, to the object and to the outside world.
\<close>

section \<open>State\<close>

type_synonym timeval = "int \<times> int"

record monitorent =
  m_checkent :: nat
  m_unique_name :: string
  m_queueat :: timeval
  m_lastserv :: timeval
  m_filedes :: int
  m_fd_state :: int
  m_started :: bool
  m_retval :: int
  m_monitordata :: bool
  m_wakeup_count :: u32
  m_last_wakeup_time :: int

text \<open>
  \<open>m_checkent\<close> is the position of the object in the graph, \<open>m_monitordata\<close> whether the check holds
  data of its own, which is part of the world \<open>'w\<close>.
\<close>

record 'w sched =
  s_graph :: graph
  s_root :: nat
  s_queue :: "monitorent list"
  s_numqueued :: int
  s_maxqueued :: int
  s_last_queued_at :: int
  s_last_queued_warn :: bool
  s_warnlog :: bool
  s_killafter :: "16 word"
  s_killed :: "16 word"
  s_pageinterval :: int
  s_last_wakeup_t :: int
  s_last_periodic_t :: int
  s_seq :: u64
  s_effects :: "effect list"
  s_world :: 'w

definition host_at :: "graph \<Rightarrow> nat \<Rightarrow> hostinfo option" where
  "host_at gs p = (if p < length gs then g_data (gs ! p) else None)"

definition put_host :: "nat \<Rightarrow> hostinfo \<Rightarrow> graph \<Rightarrow> graph" where
  "put_host p h gs = gs[p := (gs ! p)\<lparr>g_data := Some h\<rparr>]"

text \<open>The difference in microseconds; the rounding of the C \<open>float\<close> is left out.\<close>

definition mydifftime :: "timeval \<Rightarrow> timeval \<Rightarrow> int" where
  "mydifftime first second =
     (let sec = fst second - fst first; usec = snd second - snd first;
          (sec', usec') = (if usec < 0 then (sec - 1, usec + 1000000) else (sec, usec))
      in sec' * 1000000 + usec')"

section \<open>Queueing\<close>

text \<open>The entry is allocated and its members set one by one; \<open>lastserv\<close> is not among them, and is taken as zero here.\<close>

definition new_entry :: "nat \<Rightarrow> string \<Rightarrow> timeval \<Rightarrow> monitorent" where
  "new_entry p name tv =
     \<lparr>m_checkent = p, m_unique_name = name, m_queueat = tv, m_lastserv = (0, 0), m_filedes = - 1, m_fd_state = 0, m_started = False,
      m_retval = - 1, m_monitordata = False, m_wakeup_count = 0, m_last_wakeup_time = 0\<rparr>"

definition queue_check :: "timeval \<Rightarrow> nat \<Rightarrow> string \<Rightarrow> 'w sched \<Rightarrow> 'w sched" where
  "queue_check tv p name s =
     (case host_at (s_graph s) p of
        None \<Rightarrow> s
      | Some entry \<Rightarrow>
          if h_queued entry then s
          else s\<lparr>s_graph := put_host p (entry\<lparr>h_warnlog := False, h_queued := True\<rparr>) (s_graph s),
                 s_queue := new_entry p name tv # s_queue s, s_numqueued := s_numqueued s + 1\<rparr>)"

text \<open>An object lets a walk pass when it is up, or down if \<open>reverse\<close> is set.\<close>

definition lets_pass :: "hostinfo \<Rightarrow> bool" where
  "lets_pass h = ((h_lastcheck h = 0 \<and> \<not> h_reverse h) \<or> (h_lastcheck h \<noteq> 0 \<and> h_reverse h))"

definition add_skip :: "nat \<Rightarrow> graph \<times> nat list \<Rightarrow> bool" where
  "add_skip p = (\<lambda>(gs, array).
     length gs \<le> p \<or> g_visit (gs ! p) \<or>
     (case g_data (gs ! p) of None \<Rightarrow> True | Some h \<Rightarrow> h_queued h))"

definition is_due :: "int \<Rightarrow> graph \<Rightarrow> nat \<Rightarrow> bool" where
  "is_due now gs p = (case host_at gs p of None \<Rightarrow> False | Some h \<Rightarrow> h_next_queuetime h \<le> now)"

definition add_act :: "int \<Rightarrow> nat \<Rightarrow> graph \<times> nat list \<Rightarrow> graph \<times> nat list" where
  "add_act now p = (\<lambda>(gs, array). (set_visit p gs, if is_due now gs p then array @ [p] else array))"

definition pass_edges :: "graph \<Rightarrow> nat \<Rightarrow> nat list" where
  "pass_edges gs p =
     (case host_at gs p of None \<Rightarrow> [] | Some h \<Rightarrow> if lets_pass h then nexts gs p else [])"

definition walk_queue_checks_add :: "int \<Rightarrow> nat \<Rightarrow> graph \<times> nat list \<Rightarrow> (graph \<times> nat list) option" where
  "walk_queue_checks_add now start st =
     graph_walk (Suc (length (fst st))) add_skip (add_act now) (\<lambda>p (gs, array). pass_edges gs p) start st"

definition q_time_cmp :: "graph_element option \<Rightarrow> graph_element option \<Rightarrow> int" where
  "q_time_cmp a b =
     (case (a, b) of
        (None, None) \<Rightarrow> 0
      | (_, None) \<Rightarrow> 1
      | (None, _) \<Rightarrow> - 1
      | (Some ga, Some gb) \<Rightarrow>
          (case (g_data ga, g_data gb) of
             (None, None) \<Rightarrow> 0
           | (_, None) \<Rightarrow> 1
           | (None, _) \<Rightarrow> - 1
           | (Some ha, Some hb) \<Rightarrow>
               if h_next_queuetime ha = h_next_queuetime hb then 0
               else if h_next_queuetime ha > h_next_queuetime hb then 1 else - 1))"

text \<open>
  The library's \<open>qsort\<close> as an insertion sort on the comparison function it is given.
\<close>

primrec insort_cmp :: "('a \<Rightarrow> 'a \<Rightarrow> int) \<Rightarrow> 'a \<Rightarrow> 'a list \<Rightarrow> 'a list" where
  "insort_cmp cmp x [] = [x]"
| "insort_cmp cmp x (y # ys) = (if cmp x y \<le> 0 then x # y # ys else y # insort_cmp cmp x ys)"

definition qsort :: "('a \<Rightarrow> 'a \<Rightarrow> int) \<Rightarrow> 'a list \<Rightarrow> 'a list" where
  "qsort cmp xs = foldr (insort_cmp cmp) xs []"

definition node_at :: "graph \<Rightarrow> nat \<Rightarrow> graph_element option" where
  "node_at gs p = (if p < length gs then Some (gs ! p) else None)"

text \<open>One turn of the queueing loop; \<open>tv\<close> is what \<open>gettimeofday\<close> says in it.\<close>

definition queue_one :: "int \<Rightarrow> timeval \<Rightarrow> nat \<Rightarrow> 'w sched \<Rightarrow> 'w sched" where
  "queue_one now tv p s =
     (if s_numqueued s \<le> s_maxqueued s
      then let s1 = s\<lparr>s_last_queued_at := now, s_last_queued_warn := False\<rparr>
           in if p < length (s_graph s1) then queue_check tv p (g_unique_name (s_graph s1 ! p)) s1 else s1
      else if s_last_queued_at s + 3 < now \<and> s_warnlog s \<and> \<not> s_last_queued_warn s
           then s\<lparr>s_last_queued_warn := True\<rparr> else s)"

primrec queue_loop :: "int \<Rightarrow> (nat \<Rightarrow> timeval) \<Rightarrow> nat list \<Rightarrow> 'w sched \<Rightarrow> 'w sched" where
  "queue_loop now clock [] s = s"
| "queue_loop now clock (p # ps) s = queue_loop now clock ps (queue_one now (clock p) p s)"

definition queue_checks_qsort_way :: "int \<Rightarrow> (nat \<Rightarrow> timeval) \<Rightarrow> 'w sched \<Rightarrow> ('w sched \<times> int) option" where
  "queue_checks_qsort_way now clock s =
     (if length (s_graph s) \<le> s_root s then Some (s, 60)
      else case walk_queue_checks_add now (s_root s) (clear_visited (s_graph s), []) of
             None \<Rightarrow> None
           | Some (gs, queue_list) \<Rightarrow>
               let s1 = s\<lparr>s_graph := clear_visited gs\<rparr>;
                   sorted = qsort (\<lambda>p q. q_time_cmp (node_at gs p) (node_at gs q)) queue_list
               in Some (queue_loop now clock sorted s1, 1))"

section \<open>Servicing\<close>

text \<open>
  The operations of one kind of check, on the entry, its object and the world. The scheduler hands its counter of
  changes to the check as part of the world, for the checks that report their figures with \<open>object_changed\<close>.
\<close>

type_synonym 'w check_op = "int \<Rightarrow> monitorent \<times> hostinfo \<times> 'w \<Rightarrow> monitorent \<times> hostinfo \<times> 'w"

record 'w protocol =
  start_test :: "'w check_op"
  service_test :: "'w check_op"
  stop_test :: "'w check_op"

text \<open>The check types \<open>service_this\<close> and \<open>stop_this\<close> have a case for.\<close>

definition has_check :: "int \<Rightarrow> bool" where
  "has_check type \<longleftrightarrow>
     type \<in> {SYSM_TYPE_TCP, SYSM_TYPE_UDP, SYSM_TYPE_PING, SYSM_TYPE_PKTLOSS, SYSM_TYPE_PING_LATENCY,
             SYSM_TYPE_SNMP, SYSM_TYPE_NNTP, SYSM_TYPE_SMTP, SYSM_TYPE_IMAP, SYSM_TYPE_POP3, SYSM_TYPE_X500,
             SYSM_TYPE_DNS, SYSM_TYPE_WWW, SYSM_TYPE_RADIUS, SYSM_TYPE_SYSM, SYSM_TYPE_PINGv6, SYSM_TYPE_SSHD}"

definition stop_this :: "(int \<Rightarrow> 'w protocol) \<Rightarrow> 'w check_op" where
  "stop_this pr now = (\<lambda>(m, h, w).
     if has_check (h_type h) then stop_test (pr (h_type h)) now (m, h, w) else (m, h, w))"

definition service_this :: "(int \<Rightarrow> 'w protocol) \<Rightarrow> 'w check_op" where
  "service_this pr now = (\<lambda>(m, h, w).
     let (m1, h1, w1) = (if m_started m \<and> has_check (h_type h)
                         then service_test (pr (h_type h)) now (m, h, w) else (m, h, w))
     in if m_started m1 then (m1, h1, w1)
        else let (m2, h2, w2) = (if has_check (h_type h1)
                                 then start_test (pr (h_type h1)) now (m1, h1, w1) else (m1, h1, w1))
             in (m2\<lparr>m_started := True\<rparr>, h2, w2))"

text \<open>An operation on a queue entry carried out on the scheduler's state.\<close>

definition on_entry :: "(monitorent \<times> hostinfo \<times> u64 \<times> 'w \<Rightarrow> monitorent \<times> hostinfo \<times> u64 \<times> 'w) \<Rightarrow> monitorent \<Rightarrow> 'w sched \<Rightarrow> monitorent \<times> 'w sched" where
  "on_entry f m s =
     (case host_at (s_graph s) (m_checkent m) of
        None \<Rightarrow> (m, s)
      | Some h \<Rightarrow> let (m', h', q', w') = f (m, h, s_seq s, s_world s)
                  in (m', s\<lparr>s_graph := put_host (m_checkent m) h' (s_graph s), s_seq := q', s_world := w'\<rparr>))"

definition finish_entry :: "(string \<Rightarrow> page_env) \<Rightarrow> int \<Rightarrow> monitorent \<Rightarrow> 'w sched \<Rightarrow> 'w sched" where
  "finish_entry env now m s =
     (case host_at (s_graph s) (m_checkent m) of
        None \<Rightarrow> s
      | Some h \<Rightarrow>
          let (h', seq', eff) = handle_retval (env (m_unique_name m)) (m_unique_name m) (m_retval m) now (h, s_seq s)
          in s\<lparr>s_graph := put_host (m_checkent m) (h'\<lparr>h_queued := False, h_lchecktime := now\<rparr>) (s_graph s),
               s_numqueued := s_numqueued s - 1, s_seq := seq', s_effects := s_effects s @ eff\<rparr>)"

primrec service_loop :: "(int \<Rightarrow> (u64 \<times> 'w) protocol) \<Rightarrow> (string \<Rightarrow> page_env) \<Rightarrow> int \<Rightarrow> monitorent list \<Rightarrow> 'w sched \<Rightarrow> monitorent list \<times> 'w sched" where
  "service_loop pr env now [] s = ([], s)"
| "service_loop pr env now (m # ms) s =
     (if m_retval m = - 1
      then let (m', s1) = on_entry (service_this pr now) m s;
               (ms', s2) = service_loop pr env now ms s1
           in (m' # ms', s2)
      else service_loop pr env now ms (finish_entry env now m s))"

definition service_checks :: "(int \<Rightarrow> (u64 \<times> 'w) protocol) \<Rightarrow> (string \<Rightarrow> page_env) \<Rightarrow> int \<Rightarrow> 'w sched \<Rightarrow> 'w sched" where
  "service_checks pr env now s =
     (let (q, s1) = service_loop pr env now (s_queue s) s in s1\<lparr>s_queue := q\<rparr>)"

section \<open>Hanging checks\<close>

definition DEFAULT_MAX_WAKEUP_RETRIES :: u32 where
  "DEFAULT_MAX_WAKEUP_RETRIES = 3"

definition wakeup_one :: "(int \<Rightarrow> (u64 \<times> 'w) protocol) \<Rightarrow> int \<Rightarrow> timeval \<Rightarrow> monitorent \<Rightarrow> 'w sched \<Rightarrow> monitorent \<times> 'w sched" where
  "wakeup_one pr now_t now m s =
     (case host_at (s_graph s) (m_checkent m) of
        None \<Rightarrow> (m, s)
      | Some h \<Rightarrow>
          if mydifftime (m_queueat m) now \<ge> uint (s_killafter s) * 1000000
          then let max_retries = (if h_max_wakeup_retries h > 0 then h_max_wakeup_retries h
                                  else DEFAULT_MAX_WAKEUP_RETRIES);
                   (m1, s1) = (if h_type h \<noteq> SYSM_TYPE_PING then on_entry (stop_this pr now_t) m s else (m, s))
               in if m_wakeup_count m \<ge> max_retries
                  then (m1\<lparr>m_retval := SYSM_KILLED\<rparr>, s1\<lparr>s_killed := s_killed s1 + 1\<rparr>)
                  else on_entry (\<lambda>(m, h, w). (m, h\<lparr>h_lchecktime := sint (word_of_int now_t - h_queuetime h)\<rparr>, w))
                         (m1\<lparr>m_retval := SYSM_TIMEDOUT, m_wakeup_count := m_wakeup_count m1 + 1,
                             m_last_wakeup_time := now_t\<rparr>) s1
          else (m, s))"

primrec wakeup_loop :: "(int \<Rightarrow> (u64 \<times> 'w) protocol) \<Rightarrow> int \<Rightarrow> timeval \<Rightarrow> monitorent list \<Rightarrow> 'w sched \<Rightarrow> monitorent list \<times> 'w sched" where
  "wakeup_loop pr now_t now [] s = ([], s)"
| "wakeup_loop pr now_t now (m # ms) s =
     (let (m', s1) = wakeup_one pr now_t now m s; (ms', s2) = wakeup_loop pr now_t now ms s1 in (m' # ms', s2))"

definition wakeup_checks :: "(int \<Rightarrow> (u64 \<times> 'w) protocol) \<Rightarrow> int \<Rightarrow> timeval \<Rightarrow> 'w sched \<Rightarrow> 'w sched" where
  "wakeup_checks pr now_t now s =
     (let (q, s1) = wakeup_loop pr now_t now (s_queue s) s in s1\<lparr>s_queue := q\<rparr>)"

definition cleanup_one :: "(int \<Rightarrow> (u64 \<times> 'w) protocol) \<Rightarrow> int \<Rightarrow> monitorent \<Rightarrow> 'w sched \<Rightarrow> 'w sched" where
  "cleanup_one pr now m s =
     (if \<not> m_started m
      then snd (on_entry (\<lambda>(m, h, w). (m\<lparr>m_retval := sint (ucast (h_lastcheck h) :: 16 word)\<rparr>, h\<lparr>h_queued := False\<rparr>, w)) m s)
      else if m_monitordata m then snd (on_entry (stop_this pr now) m s) else s)"

definition fast_cleanup_checks :: "(int \<Rightarrow> (u64 \<times> 'w) protocol) \<Rightarrow> int \<Rightarrow> 'w sched \<Rightarrow> 'w sched" where
  "fast_cleanup_checks pr now s =
     (if s_numqueued s = 0 then s
      else let s1 = fold (cleanup_one pr now) (s_queue s) s
           in s1\<lparr>s_queue := [], s_numqueued := s_numqueued s1 - int (length (s_queue s))\<rparr>)"

section \<open>Periodic walks\<close>

text \<open>
  \<open>resolves\<close> tells for which names \<open>my_gethostbyname\<close> has an answer. The comparison with three check
  intervals is made in \<open>unsigned long\<close>.
\<close>

definition rewalk_host :: "(string \<Rightarrow> bool) \<Rightarrow> bool \<Rightarrow> int \<Rightarrow> hostinfo \<Rightarrow> hostinfo" where
  "rewalk_host resolves warnlog right_now h =
     (if right_now > h_next_queuetime h
      then let h1 = (if (word_of_int right_now :: u64) > 3 * h_queuetime h + word_of_int (h_next_queuetime h) \<and> warnlog \<and>
                       h_next_queuetime h \<noteq> 0 \<and> \<not> h_warnlog h
                     then h\<lparr>h_warnlog := True\<rparr> else h)
           in if h_lastcheck h1 = word_of_int SYSM_NODNS \<and> resolves (h_hostname h1) then h1\<lparr>h_lastcheck := 0\<rparr> else h1
      else h)"

definition periodic_rewalk :: "(string \<Rightarrow> bool) \<Rightarrow> int \<Rightarrow> 'w sched \<Rightarrow> 'w sched" where
  "periodic_rewalk resolves right_now s =
     s\<lparr>s_graph := map (\<lambda>g. g\<lparr>g_data := map_option (rewalk_host resolves (s_warnlog s) right_now) (g_data g)\<rparr>) (s_graph s)\<rparr>"

type_synonym page_state = "graph \<times> u64 \<times> effect list"

definition page_skip :: "nat \<Rightarrow> page_state \<Rightarrow> bool" where
  "page_skip p = (\<lambda>(gs, seq, eff). length gs \<le> p \<or> g_visit (gs ! p) \<or> g_data (gs ! p) = None)"

definition repage_due :: "int \<Rightarrow> int \<Rightarrow> hostinfo \<Rightarrow> bool" where
  "repage_due pageinterval now h =
     (let effective = (if h_pageinterval h = - 1 then pageinterval else h_pageinterval h)
      in now - h_lastcontacted h > effective * 60 \<and> h_contacted h)"

definition page_act :: "(string \<Rightarrow> page_env) \<Rightarrow> int \<Rightarrow> int \<Rightarrow> nat \<Rightarrow> page_state \<Rightarrow> page_state" where
  "page_act env pageinterval now p = (\<lambda>(gs, seq, eff).
     let gs1 = set_visit p gs
     in case host_at gs1 p of
          None \<Rightarrow> (gs1, seq, eff)
        | Some h \<Rightarrow>
            if repage_due pageinterval now h
            then let (h', seq', new) = page_someone (env (g_unique_name (gs1 ! p))) SYSM_CONTACT_DOWN now h seq
                 in (put_host p h' gs1, seq', eff @ new)
            else (gs1, seq, eff))"

definition walk_periodic_page_checks :: "(string \<Rightarrow> page_env) \<Rightarrow> int \<Rightarrow> int \<Rightarrow> nat \<Rightarrow> page_state \<Rightarrow> page_state option" where
  "walk_periodic_page_checks env pageinterval now start st =
     graph_walk (Suc (length (fst st))) page_skip (page_act env pageinterval now) (\<lambda>p (gs, seq, eff). pass_edges gs p) start st"

definition periodic_page :: "(string \<Rightarrow> page_env) \<Rightarrow> int \<Rightarrow> 'w sched \<Rightarrow> 'w sched option" where
  "periodic_page env now s =
     (if s_root s < length (s_graph s)
      then case walk_periodic_page_checks env (s_pageinterval s) now (s_root s)
                  (clear_visited (s_graph s), s_seq s, s_effects s) of
             None \<Rightarrow> None
           | Some (gs, seq, eff) \<Rightarrow> Some (s\<lparr>s_graph := clear_visited gs, s_seq := seq, s_effects := eff\<rparr>)
      else Some (s\<lparr>s_graph := clear_visited (s_graph s)\<rparr>))"

definition do_tree_periodic :: "(string \<Rightarrow> page_env) \<Rightarrow> (string \<Rightarrow> bool) \<Rightarrow> int \<Rightarrow> 'w sched \<Rightarrow> 'w sched option" where
  "do_tree_periodic env resolves now s =
     (let s1 = periodic_rewalk resolves now s
      in if s_pageinterval s1 \<noteq> 0 then periodic_page env now s1 else Some s1)"

section \<open>The main loop\<close>

text \<open>
  The part of \<open>needssleep\<close> that services checks whose descriptor is ready; \<open>ready\<close> is what \<open>select\<close>
  reports. Clients, traps and echo replies, which the function also serves, touch no queue entry.
\<close>

primrec ready_loop :: "(int \<Rightarrow> (u64 \<times> 'w) protocol) \<Rightarrow> (int \<Rightarrow> bool) \<Rightarrow> int \<Rightarrow> monitorent list \<Rightarrow> 'w sched \<Rightarrow> monitorent list \<times> 'w sched" where
  "ready_loop pr ready now [] s = ([], s)"
| "ready_loop pr ready now (m # ms) s =
     (let (m', s1) = (if m_filedes m \<noteq> - 1 \<and> m_retval m = - 1 \<and> ready (m_filedes m)
                      then on_entry (service_this pr now) m s else (m, s));
          (ms', s2) = ready_loop pr ready now ms s1
      in (m' # ms', s2))"

definition needssleep :: "(int \<Rightarrow> (u64 \<times> 'w) protocol) \<Rightarrow> (int \<Rightarrow> bool) \<Rightarrow> int \<Rightarrow> 'w sched \<Rightarrow> 'w sched" where
  "needssleep pr ready now s =
     (let (q, s1) = ready_loop pr ready now (s_queue s) s in s1\<lparr>s_queue := q\<rparr>)"

text \<open>What one turn of the loop sees of its surroundings.\<close>

record loop_input =
  i_now :: int
  i_clock :: "nat \<Rightarrow> timeval"
  i_tv :: timeval
  i_env :: "string \<Rightarrow> page_env"
  i_resolves :: "string \<Rightarrow> bool"
  i_ready :: "int \<Rightarrow> bool"

text \<open>One turn of the loop in \<open>do_watch\<close>, and one turn of the inner loop while monitoring is paused.\<close>

definition watch_pass :: "(int \<Rightarrow> (u64 \<times> 'w) protocol) \<Rightarrow> loop_input \<Rightarrow> 'w sched \<Rightarrow> 'w sched option" where
  "watch_pass pr i s =
     (case (if s_graph s \<noteq> [] \<and> s_numqueued s \<le> s_maxqueued s
            then map_option fst (queue_checks_qsort_way (i_now i) (i_clock i) s) else Some s) of
        None \<Rightarrow> None
      | Some s1 \<Rightarrow>
          let s2 = (if i_now i - s_last_wakeup_t s1 \<ge> 10
                    then (wakeup_checks pr (i_now i) (i_tv i) s1)\<lparr>s_last_wakeup_t := i_now i\<rparr> else s1);
              s3 = service_checks pr (i_env i) (i_now i) s2;
              s4 = needssleep pr (i_ready i) (i_now i) s3
          in if i_now i - s_last_periodic_t s4 > 60
             then map_option (s_last_periodic_t_update (\<lambda>_. i_now i))
                    (do_tree_periodic (i_env i) (i_resolves i) (i_now i) s4)
             else Some s4)"

definition paused_pass :: "(int \<Rightarrow> (u64 \<times> 'w) protocol) \<Rightarrow> loop_input \<Rightarrow> 'w sched \<Rightarrow> 'w sched option" where
  "paused_pass pr i s =
     (let s1 = service_checks pr (i_env i) (i_now i) s;
          s2 = wakeup_checks pr (i_now i) (i_tv i) s1
      in map_option (needssleep pr (i_ready i) (i_now i))
           (do_tree_periodic (i_env i) (i_resolves i) (i_now i) s2))"

section \<open>Objects in the graph\<close>

definition flags :: "graph \<Rightarrow> nat set" where
  "flags gs = {p. \<exists>h. host_at gs p = Some h \<and> h_queued h}"

lemma host_at_put: "host_at (put_host p h gs) q = (if q = p \<and> p < length gs then Some h else host_at gs q)"
  by (auto simp: host_at_def put_host_def)

lemma host_at_bound: "host_at gs p = Some h \<Longrightarrow> p < length gs"
  by (simp add: host_at_def split: if_splits)

lemma length_put_host [simp]: "length (put_host p h gs) = length gs"
  by (simp add: put_host_def)

lemma flags_put:
  assumes "host_at gs p = Some h0"
  shows "flags (put_host p h gs) = (if h_queued h then insert p (flags gs) else flags gs - {p})"
  using host_at_bound[OF assms] by (auto simp: flags_def host_at_put)

lemma flags_put_same:
  assumes "host_at gs p = Some h0" "h_queued h = h_queued h0"
  shows "flags (put_host p h gs) = flags gs"
proof -
  have "p \<in> flags gs \<longleftrightarrow> h_queued h" using assms by (simp add: flags_def)
  then show ?thesis unfolding flags_put[OF assms(1)] by auto
qed

lemma same_host:
  assumes "clear_visited gs = clear_visited gs0"
  shows "host_at gs p = host_at gs0 p"
  using same_length[OF assms] same_fields(3)[OF assms, of p] by (simp add: host_at_def)

lemma same_flags: "clear_visited gs = clear_visited gs0 \<Longrightarrow> flags gs = flags gs0"
  unfolding flags_def using same_host[of gs gs0] by presburger

lemma same_pass_edges:
  assumes "clear_visited gs = clear_visited gs0"
  shows "pass_edges gs p = pass_edges gs0 p"
proof (cases "p < length gs0")
  case True
  then show ?thesis using same_host[OF assms, of p] same_fields(4)[OF assms True]
    by (simp add: pass_edges_def split: option.split)
next
  case False
  then show ?thesis using same_length[OF assms] by (simp add: pass_edges_def host_at_def)
qed

lemma same_due: "clear_visited gs = clear_visited gs0 \<Longrightarrow> is_due now gs p = is_due now gs0 p"
  unfolding is_due_def by (drule same_host[of gs gs0 p]) simp

section \<open>Finding what is due\<close>

text \<open>Objects no check can be queued for now: not there, without data or queued already.\<close>

definition busy :: "graph \<Rightarrow> nat \<Rightarrow> bool" where
  "busy gs p = (case host_at gs p of None \<Rightarrow> True | Some h \<Rightarrow> h_queued h)"

lemma busy_bound: "\<not> busy gs p \<Longrightarrow> p < length gs"
  by (auto simp: busy_def host_at_def split: if_splits)

definition add_inv :: "int \<Rightarrow> graph \<Rightarrow> graph \<times> nat list \<Rightarrow> bool" where
  "add_inv now gs0 = (\<lambda>(gs, array). clear_visited gs = clear_visited gs0 \<and> distinct array \<and>
     set array = {p \<in> visited_set gs. is_due now gs0 p})"

lemma add_skip_iff:
  assumes "clear_visited gs = clear_visited gs0"
  shows "add_skip p (gs, array) \<longleftrightarrow> busy gs0 p \<or> p \<in> visited_set gs"
  using same_length[OF assms] same_fields(3)[OF assms, of p]
  by (cases "p < length gs0") (auto simp: add_skip_def busy_def host_at_def visited_set_def)

interpretation wq: search_walk add_skip "add_act now" "\<lambda>p (gs, array). pass_edges gs p" "\<lambda>(gs, array). unvisited gs"
    "add_inv now gs0" "\<lambda>(gs, array). visited_set gs" "pass_edges gs0" "busy gs0"
  for now gs0
proof unfold_locales
  fix st :: "graph \<times> nat list" and p :: nat
  assume inv: "add_inv now gs0 st"
  obtain gs array where st: "st = (gs, array)" by (cases st)
  have cl: "clear_visited gs = clear_visited gs0" and arr: "distinct array"
      "set array = {p \<in> visited_set gs. is_due now gs0 p}"
    using inv by (simp_all add: st add_inv_def)
  show skip: "add_skip p st \<longleftrightarrow> busy gs0 p \<or> p \<in> (case st of (gs, array) \<Rightarrow> visited_set gs)"
    using add_skip_iff[OF cl] by (simp add: st)
  show "(case st of (gs, array) \<Rightarrow> pass_edges gs p) = pass_edges gs0 p"
    using same_pass_edges[OF cl] by (simp add: st)
  assume "\<not> add_skip p st"
  then have nb: "\<not> busy gs0 p" and nv: "p \<notin> visited_set gs" using skip by (simp_all add: st)
  have p: "p < length gs" using nb same_length[OF cl] by (simp add: busy_def host_at_def split: if_splits)
  then have nvis: "\<not> g_visit (gs ! p)" using nv by (simp add: visited_set_def)
  show v: "(case add_act now p st of (gs, array) \<Rightarrow> visited_set gs) = insert p (case st of (gs, array) \<Rightarrow> visited_set gs)"
    using p by (simp add: st add_act_def visited_set_visit)
  show "(case add_act now p st of (gs, array) \<Rightarrow> unvisited gs) < (case st of (gs, array) \<Rightarrow> unvisited gs)"
    using p nvis by (simp add: st add_act_def unvisited_set_visit)
  show "add_inv now gs0 (add_act now p st)"
    using cl arr nv p same_due[OF cl] by (auto simp: st add_act_def add_inv_def visited_set_visit)
qed

lemma walk_queue_checks_add_spec:
  assumes "visited_set gs = {}"
  obtains gs' array where "walk_queue_checks_add now start (gs, []) = Some (gs', array)"
    "clear_visited gs' = clear_visited gs" "distinct array"
    "set array = {p. reach (pass_edges gs) (busy gs) start p \<and> is_due now gs p}"
proof -
  have inv: "add_inv now gs (gs, [])" using assms by (simp add: add_inv_def)
  have rem: "(case (gs, [] :: nat list) of (gs, array) \<Rightarrow> unvisited gs) < Suc (length gs)"
    using unvisited_le[of gs] by simp
  obtain st where w: "walk_queue_checks_add now start (gs, []) = Some st" and st: "add_inv now gs st"
    using wq.walk_total[OF inv rem, of start] by (auto simp: walk_queue_checks_add_def)
  have "(case st of (gs, array) \<Rightarrow> visited_set gs) = {p. reach (pass_edges gs) (busy gs) start p}"
    using wq.walk_visits[OF inv _ w[unfolded walk_queue_checks_add_def]] assms by simp
  with w st show ?thesis by (cases st) (auto intro!: that simp: add_inv_def)
qed

section \<open>Sorting by time\<close>

lemma insort_cmp_mset [simp]: "mset (insort_cmp cmp x ys) = add_mset x (mset ys)"
  by (induction ys) simp_all

lemma qsort_mset [simp]: "mset (qsort cmp xs) = mset xs"
  by (induction xs) (simp_all add: qsort_def)

lemma qsort_set [simp]: "set (qsort cmp xs) = set xs"
  using qsort_mset mset_eq_setD by metis

lemma qsort_distinct [simp]: "distinct (qsort cmp xs) = distinct xs"
  using qsort_mset mset_eq_imp_distinct_iff by metis

lemma set_insort_cmp: "set (insort_cmp cmp x ys) = insert x (set ys)"
  by (induction ys) auto

lemma insort_cmp_sorted:
  assumes "\<And>y. y \<in> set ys \<Longrightarrow> (cmp x y \<le> 0) = (key x \<le> key y)" "sorted (map key ys)"
  shows "sorted (map key (insort_cmp cmp x ys :: 'a list) :: int list)"
  using assms by (induction ys) (auto simp: set_insort_cmp)

lemma qsort_sorted:
  assumes "\<And>x y. x \<in> set xs \<Longrightarrow> y \<in> set xs \<Longrightarrow> (cmp x y \<le> 0) = (key x \<le> key y)"
  shows "sorted (map key (qsort cmp xs :: 'a list) :: int list)"
  using assms
proof (induction xs)
  case (Cons x xs)
  have "sorted (map key (insort_cmp cmp x (qsort cmp xs)))"
    using Cons by (intro insort_cmp_sorted) simp_all
  then show ?case by (simp add: qsort_def)
qed (simp add: qsort_def)

text \<open>When an object should be queued next.\<close>

definition due_time :: "graph \<Rightarrow> nat \<Rightarrow> int" where
  "due_time gs p = (case host_at gs p of None \<Rightarrow> 0 | Some h \<Rightarrow> h_next_queuetime h)"

lemma q_time_cmp_key:
  assumes "host_at gs p = Some h" "host_at gs q = Some h'"
  shows "(q_time_cmp (node_at gs p) (node_at gs q) \<le> 0) = (due_time gs p \<le> due_time gs q)"
  using assms by (auto simp: host_at_def node_at_def q_time_cmp_def due_time_def split: if_splits)

section \<open>The queue invariant\<close>

text \<open>
  The counter counts the queue, no object is queued twice, and the objects marked as queued are
  those in the queue. \<open>D\<close> are objects whose entries were dealt with already, for use inside the
  loops over the queue.
\<close>

definition queue_inv :: "int \<Rightarrow> nat set \<Rightarrow> monitorent list \<Rightarrow> 'w sched \<Rightarrow> bool" where
  "queue_inv n D ms s \<longleftrightarrow> s_numqueued s = n + int (length ms) \<and> distinct (map m_checkent ms) \<and>
     D \<inter> set (map m_checkent ms) = {} \<and> flags (s_graph s) = D \<union> set (map m_checkent ms)"

abbreviation sched_inv :: "'w sched \<Rightarrow> bool" where
  "sched_inv s \<equiv> queue_inv 0 {} (s_queue s) s"

text \<open>How many more checks the loop of \<open>queue_checks_qsort_way\<close> adds to the queue.\<close>

definition room :: "'w sched \<Rightarrow> nat" where
  "room s = nat (s_maxqueued s + 1 - s_numqueued s)"

lemma queue_check_free:
  assumes "host_at (s_graph s) p = Some h" "\<not> h_queued h"
  shows "queue_check tv p name s =
     s\<lparr>s_graph := put_host p (h\<lparr>h_warnlog := False, h_queued := True\<rparr>) (s_graph s),
       s_queue := new_entry p name tv # s_queue s, s_numqueued := s_numqueued s + 1\<rparr>"
  using assms by (simp add: queue_check_def)

lemma queue_one_fields:
  "s_maxqueued (queue_one now tv p s) = s_maxqueued s"
  "length (s_graph (queue_one now tv p s)) = length (s_graph s)"
  "s_root (queue_one now tv p s) = s_root s"
  by (simp_all add: queue_one_def queue_check_def Let_def split: option.split)

lemma queue_one_full:
  assumes "room s = 0"
  shows "s_queue (queue_one now tv p s) = s_queue s \<and> s_numqueued (queue_one now tv p s) = s_numqueued s \<and>
    s_graph (queue_one now tv p s) = s_graph s"
  using assms by (simp add: queue_one_def room_def)

lemma queue_one_adds:
  assumes "room s = Suc k" "host_at (s_graph s) p = Some h" "\<not> h_queued h"
  shows "s_queue (queue_one now tv p s) = new_entry p (g_unique_name (s_graph s ! p)) tv # s_queue s"
    "s_numqueued (queue_one now tv p s) = s_numqueued s + 1"
    "s_graph (queue_one now tv p s) = put_host p (h\<lparr>h_warnlog := False, h_queued := True\<rparr>) (s_graph s)"
    "room (queue_one now tv p s) = k"
proof -
  have "s_numqueued s \<le> s_maxqueued s" "nat (s_maxqueued s - s_numqueued s) = k"
    using assms(1) by (simp_all add: room_def)
  then show "s_queue (queue_one now tv p s) = new_entry p (g_unique_name (s_graph s ! p)) tv # s_queue s"
    "s_numqueued (queue_one now tv p s) = s_numqueued s + 1"
    "s_graph (queue_one now tv p s) = put_host p (h\<lparr>h_warnlog := False, h_queued := True\<rparr>) (s_graph s)"
    "room (queue_one now tv p s) = k"
    using assms(2,3) host_at_bound[OF assms(2)] by (simp_all add: queue_one_def queue_check_def room_def Let_def)
qed

lemma room_full: "room s = 0 \<Longrightarrow> room (queue_one now tv p s) = 0"
  by (simp add: queue_one_full queue_one_fields room_def)

lemma queue_loop_full:
  "room s = 0 \<Longrightarrow> s_queue (queue_loop now clock ps s) = s_queue s \<and>
     s_numqueued (queue_loop now clock ps s) = s_numqueued s \<and> s_graph (queue_loop now clock ps s) = s_graph s"
proof (induction ps arbitrary: s)
  case (Cons p ps)
  then show ?case using Cons.IH[OF room_full[OF Cons.prems]] queue_one_full[OF Cons.prems] by simp
qed simp

lemma queue_loop_spec:
  assumes "queue_inv 0 {} (s_queue s) s" "distinct ps" "\<forall>p\<in>set ps. \<not> busy (s_graph s) p"
  shows "map m_checkent (s_queue (queue_loop now clock ps s)) =
      rev (take (room s) ps) @ map m_checkent (s_queue s) \<and> sched_inv (queue_loop now clock ps s)"
  using assms
proof (induction ps arbitrary: s)
  case (Cons p ps)
  show ?case
  proof (cases "room s")
    case 0
    then show ?thesis using Cons.prems(1) queue_loop_full[OF 0, of now clock "p # ps"]
      by (simp add: queue_inv_def del: queue_loop.simps)
  next
    case (Suc k)
    obtain h where h: "host_at (s_graph s) p = Some h" "\<not> h_queued h"
      using Cons.prems(3) by (auto simp: busy_def split: option.splits)
    note add = queue_one_adds[OF Suc h, of now "clock p"]
    let ?s = "queue_one now (clock p) p s"
    have p: "p \<notin> flags (s_graph s)" using h by (simp add: flags_def)
    have g: "s_graph ?s = put_host p (h\<lparr>h_warnlog := False, h_queued := True\<rparr>) (s_graph s)" by (rule add(3))
    have inv: "sched_inv ?s"
      using Cons.prems(1) p by (simp add: queue_inv_def add(1-3) flags_put[OF h(1)] new_entry_def)
    have "host_at (s_graph ?s) q = host_at (s_graph s) q" if "q \<in> set ps" for q
      using that Cons.prems(2) by (auto simp: g host_at_put)
    then have "\<forall>q\<in>set ps. \<not> busy (s_graph ?s) q" using Cons.prems(3) by (simp add: busy_def)
    from Cons.IH[OF inv _ this] Cons.prems(2) show ?thesis
      by (simp add: add(1,4) Suc new_entry_def)
  qed
qed simp

lemma queue_checks_spec:
  assumes "sched_inv s" "s_root s < length (s_graph s)"
  shows "\<exists>s' due. queue_checks_qsort_way now clock s = Some (s', 1) \<and> sched_inv s' \<and>
     distinct due \<and> length due \<le> length (s_graph s) \<and>
     (\<forall>p. p \<in> set due \<longleftrightarrow>
        reach (pass_edges (s_graph s)) (busy (s_graph s)) (s_root s) p \<and> is_due now (s_graph s) p) \<and>
     sorted (map (due_time (s_graph s)) due) \<and>
     map m_checkent (s_queue s') = rev (take (room s) due) @ map m_checkent (s_queue s)"
proof -
  let ?g = "clear_visited (s_graph s)"
  have cl: "clear_visited ?g = clear_visited (s_graph s)" by simp
  obtain gs array where w: "walk_queue_checks_add now (s_root s) (?g, []) = Some (gs, array)"
    and gs: "clear_visited gs = clear_visited ?g" and arr: "distinct array"
      "set array = {p. reach (pass_edges ?g) (busy ?g) (s_root s) p \<and> is_due now ?g p}"
    using walk_queue_checks_add_spec[of ?g now "s_root s"] by auto
  have same: "pass_edges ?g = pass_edges (s_graph s)" "busy ?g = busy (s_graph s)"
    using same_pass_edges[OF cl] same_host[OF cl] by (simp_all add: busy_def fun_eq_iff)
  have set: "p \<in> set array \<longleftrightarrow>
      reach (pass_edges (s_graph s)) (busy (s_graph s)) (s_root s) p \<and> is_due now (s_graph s) p" for p
    using arr(2) same same_due[OF cl] by simp
  have idle: "\<not> busy (s_graph s) p" if "p \<in> set array" for p
    using that[unfolded set] by (auto elim: reach.cases)
  have host: "\<exists>h. host_at gs p = Some h" if "p \<in> set array" for p
    using idle[OF that] same_host[of gs "s_graph s" p] gs by (auto simp: busy_def split: option.splits)
  let ?due = "qsort (\<lambda>p q. q_time_cmp (node_at gs p) (node_at gs q)) array"
  have "due_time gs = due_time (s_graph s)"
    using same_host[of gs "s_graph s"] gs by (simp add: due_time_def fun_eq_iff)
  moreover have cmp: "(q_time_cmp (node_at gs p) (node_at gs q) \<le> 0) = (due_time gs p \<le> due_time gs q)"
    if "p \<in> set array" "q \<in> set array" for p q
    using host[OF that(1)] host[OF that(2)] q_time_cmp_key by blast
  ultimately have sorted: "sorted (map (due_time (s_graph s)) ?due)"
    using qsort_sorted[of array "\<lambda>p q. q_time_cmp (node_at gs p) (node_at gs q)" "due_time gs"] cmp by simp
  have "set array \<subseteq> {..<length (s_graph s)}"
    using idle busy_bound by blast
  then have len: "length ?due \<le> length (s_graph s)"
    using length_distinct_bound[of ?due "length (s_graph s)"] arr(1) by simp
  let ?s = "s\<lparr>s_graph := clear_visited gs\<rparr>"
  have cg: "clear_visited (clear_visited gs) = clear_visited (s_graph s)" by (simp add: gs)
  have fl: "flags (clear_visited gs) = flags (s_graph s)" using cg by (rule same_flags)
  have inv: "sched_inv ?s" using assms(1) fl by (simp add: queue_inv_def)
  have "\<forall>p\<in>set ?due. \<not> busy (s_graph ?s) p"
    using idle by (simp add: busy_def same_host[OF cg])
  from queue_loop_spec[OF inv _ this, of now clock] arr(1)
  have q: "map m_checkent (s_queue (queue_loop now clock ?due ?s)) = rev (take (room s) ?due) @ map m_checkent (s_queue s)"
    "sched_inv (queue_loop now clock ?due ?s)" by (simp_all add: room_def)
  have "queue_checks_qsort_way now clock s = Some (queue_loop now clock ?due ?s, 1)"
    using assms(2) w by (simp add: queue_checks_qsort_way_def Let_def)
  moreover have "distinct ?due" "\<forall>p. p \<in> set ?due \<longleftrightarrow>
      reach (pass_edges (s_graph s)) (busy (s_graph s)) (s_root s) p \<and> is_due now (s_graph s) p"
    using arr(1) set by simp_all
  ultimately show ?thesis using q len sorted by blast
qed

section \<open>The contract of a check\<close>

text \<open>
  What the scheduler relies on: a check sets its entry's result, descriptor and data, and figures of
  the object, but leaves alone which object the entry is for, when it was queued, how often it was
  woken up, and the object's place in the schedule.
\<close>

definition keeps_entry :: "'w check_op \<Rightarrow> bool" where
  "keeps_entry f \<longleftrightarrow> (\<forall>now m h w. case f now (m, h, w) of (m', h', w') \<Rightarrow>
     m_checkent m' = m_checkent m \<and> m_unique_name m' = m_unique_name m \<and> m_queueat m' = m_queueat m \<and>
     m_wakeup_count m' = m_wakeup_count m \<and> h_queued h' = h_queued h \<and> h_queuetime h' = h_queuetime h)"

locale check_protocol =
  fixes start service stop :: "'w check_op"
  assumes start_keeps: "keeps_entry start"
    and service_keeps: "keeps_entry service"
    and stop_keeps: "keeps_entry stop"

definition good_checks :: "(int \<Rightarrow> 'w protocol) \<Rightarrow> bool" where
  "good_checks pr \<longleftrightarrow>
     (\<forall>t. has_check t \<longrightarrow> check_protocol (start_test (pr t)) (service_test (pr t)) (stop_test (pr t)))"

lemma keeps_entryI:
  assumes "\<And>now m h w m' h' w'. f now (m, h, w) = (m', h', w') \<Longrightarrow>
     m_checkent m' = m_checkent m \<and> m_unique_name m' = m_unique_name m \<and> m_queueat m' = m_queueat m \<and>
     m_wakeup_count m' = m_wakeup_count m \<and> h_queued h' = h_queued h \<and> h_queuetime h' = h_queuetime h"
  shows "keeps_entry f"
  unfolding keeps_entry_def using assms by (auto split: prod.split)

lemma keeps_entryD:
  assumes "keeps_entry f" "f now (m, h, w) = (m', h', w')"
  shows "m_checkent m' = m_checkent m" "m_unique_name m' = m_unique_name m" "m_queueat m' = m_queueat m"
    "m_wakeup_count m' = m_wakeup_count m" "h_queued h' = h_queued h" "h_queuetime h' = h_queuetime h"
proof -
  have "case f now (m, h, w) of (m', h', w') \<Rightarrow>
     m_checkent m' = m_checkent m \<and> m_unique_name m' = m_unique_name m \<and> m_queueat m' = m_queueat m \<and>
     m_wakeup_count m' = m_wakeup_count m \<and> h_queued h' = h_queued h \<and> h_queuetime h' = h_queuetime h"
    by (rule assms(1)[unfolded keeps_entry_def, rule_format])
  then show "m_checkent m' = m_checkent m" "m_unique_name m' = m_unique_name m" "m_queueat m' = m_queueat m"
    "m_wakeup_count m' = m_wakeup_count m" "h_queued h' = h_queued h" "h_queuetime h' = h_queuetime h"
    using assms(2) by simp_all
qed

lemma good_checksD:
  assumes "good_checks pr" "has_check t"
  shows "keeps_entry (start_test (pr t))" "keeps_entry (service_test (pr t))" "keeps_entry (stop_test (pr t))"
  using assms by (auto simp: good_checks_def check_protocol_def)

lemma stop_this_keeps: "good_checks pr \<Longrightarrow> keeps_entry (stop_this pr)"
  by (rule keeps_entryI)
     (auto simp: stop_this_def split: if_splits dest: keeps_entryD[OF good_checksD(3)])

lemma service_this_keeps:
  assumes "good_checks pr"
  shows "keeps_entry (service_this pr)"
proof (rule keeps_entryI)
  fix now m h w m' h' w'
  assume r: "service_this pr now (m, h, w) = (m', h', w')"
  obtain m1 h1 w1 where 1: "(if m_started m \<and> has_check (h_type h)
      then service_test (pr (h_type h)) now (m, h, w) else (m, h, w)) = (m1, h1, w1)"
    by (metis prod_cases3)
  obtain m2 h2 w2 where 2: "(if has_check (h_type h1) then start_test (pr (h_type h1)) now (m1, h1, w1) else (m1, h1, w1)) = (m2, h2, w2)"
    by (metis prod_cases3)
  have k1: "m_checkent m1 = m_checkent m \<and> m_unique_name m1 = m_unique_name m \<and> m_queueat m1 = m_queueat m \<and>
     m_wakeup_count m1 = m_wakeup_count m \<and> h_queued h1 = h_queued h \<and> h_queuetime h1 = h_queuetime h"
    using 1 by (auto split: if_splits dest: keeps_entryD[OF good_checksD(2)[OF assms]])
  have k2: "m_checkent m2 = m_checkent m1 \<and> m_unique_name m2 = m_unique_name m1 \<and> m_queueat m2 = m_queueat m1 \<and>
     m_wakeup_count m2 = m_wakeup_count m1 \<and> h_queued h2 = h_queued h1 \<and> h_queuetime h2 = h_queuetime h1"
    using 2 by (auto split: if_splits dest: keeps_entryD[OF good_checksD(1)[OF assms]])
  have "(m', h', w') = (if m_started m1 then (m1, h1, w1) else (m2\<lparr>m_started := True\<rparr>, h2, w2))"
    using r by (simp only: service_this_def prod.case 1 Let_def 2)
  with k1 k2 show "m_checkent m' = m_checkent m \<and> m_unique_name m' = m_unique_name m \<and> m_queueat m' = m_queueat m \<and>
     m_wakeup_count m' = m_wakeup_count m \<and> h_queued h' = h_queued h \<and> h_queuetime h' = h_queuetime h"
    by (simp split: if_splits)
qed

text \<open>An operation that keeps its entry keeps the whole schedule.\<close>

lemma on_entry_keeps:
  assumes "keeps_entry f" "on_entry (f now) m s = (m', s')"
  shows "m_checkent m' = m_checkent m" "m_wakeup_count m' = m_wakeup_count m" "s_numqueued s' = s_numqueued s"
    "flags (s_graph s') = flags (s_graph s)" "s_queue s' = s_queue s" "s_killed s' = s_killed s"
    "s_killafter s' = s_killafter s"
proof -
  have "m_checkent m' = m_checkent m \<and> m_wakeup_count m' = m_wakeup_count m \<and> s_numqueued s' = s_numqueued s \<and>
    flags (s_graph s') = flags (s_graph s) \<and> s_queue s' = s_queue s \<and> s_killed s' = s_killed s \<and>
    s_killafter s' = s_killafter s"
  proof (cases "host_at (s_graph s) (m_checkent m)")
    case None
    then show ?thesis using assms(2) by (simp add: on_entry_def)
  next
    case (Some h)
    obtain m1 h1 q1 w1 where 1: "f now (m, h, s_seq s, s_world s) = (m1, h1, q1, w1)" by (metis prod_cases4)
    note k = keeps_entryD[OF assms(1) 1]
    have "m' = m1" "s' = s\<lparr>s_graph := put_host (m_checkent m) h1 (s_graph s), s_seq := q1, s_world := w1\<rparr>"
      using assms(2) by (simp_all add: on_entry_def Some 1)
    then show ?thesis using k(1,4) flags_put_same[OF Some k(5)] by simp
  qed
  then show "m_checkent m' = m_checkent m" "m_wakeup_count m' = m_wakeup_count m" "s_numqueued s' = s_numqueued s"
    "flags (s_graph s') = flags (s_graph s)" "s_queue s' = s_queue s" "s_killed s' = s_killed s"
    "s_killafter s' = s_killafter s" by simp_all
qed

section \<open>Results leave the queue\<close>

lemma handle_retval_queued:
  "h_queuetime (fst (handle_retval e nm r now (h, q))) = h_queuetime h"
  "h_next_queuetime (fst (handle_retval e nm r now (h, q))) = time_plus now (h_queuetime h)"
proof -
  have pg: "h_queuetime (fst (page_someone e n now svc seq)) = h_queuetime svc" for n svc seq
    by (rule page_someone_cases [of e svc n]; simp)
  show "h_queuetime (fst (handle_retval e nm r now (h, q))) = h_queuetime h"
  proof (cases "r = 0")
    case True
    then show ?thesis by (simp add: handle_retval_def handler_steps frame pg Let_def split_beta)
  next
    case False
    then show ?thesis by (simp add: handle_fail page_if_down_def pg failed_def Let_def)
  qed
  show "h_next_queuetime (fst (handle_retval e nm r now (h, q))) = time_plus now (h_queuetime h)"
    using handle_fail_fields(6) handle_ok_fields(6) by (cases "r = 0") simp_all
qed

lemma finish_entry_inv:
  assumes "queue_inv n D (m # ms) s"
  shows "queue_inv n D ms (finish_entry env now m s)"
    "s_queue (finish_entry env now m s) = s_queue s" "s_killed (finish_entry env now m s) = s_killed s"
    "s_killafter (finish_entry env now m s) = s_killafter s"
proof -
  have "m_checkent m \<in> flags (s_graph s)" using assms by (simp add: queue_inv_def)
  then obtain h where h: "host_at (s_graph s) (m_checkent m) = Some h" by (auto simp: flags_def)
  obtain h' q' eff where r: "handle_retval (env (m_unique_name m)) (m_unique_name m) (m_retval m) now (h, s_seq s) = (h', q', eff)"
    by (metis prod_cases3)
  show "queue_inv n D ms (finish_entry env now m s)"
    using assms by (auto simp: finish_entry_def h r queue_inv_def flags_put[OF h])
  show "s_queue (finish_entry env now m s) = s_queue s" "s_killed (finish_entry env now m s) = s_killed s"
    "s_killafter (finish_entry env now m s) = s_killafter s"
    by (simp_all add: finish_entry_def h r)
qed

lemma queue_inv_move:
  assumes "queue_inv n D (m # ms) s" "m_checkent m' = m_checkent m" "s_numqueued s' = s_numqueued s"
    "flags (s_graph s') = flags (s_graph s)"
  shows "queue_inv (n + 1) (insert (m_checkent m') D) ms s'"
  using assms by (auto simp: queue_inv_def)

lemma queue_inv_back:
  assumes "queue_inv (n + 1) (insert (m_checkent m) D) ms s" "m_checkent m \<notin> D"
  shows "queue_inv n D (m # ms) s"
  using assms by (auto simp: queue_inv_def)

lemma service_loop_inv:
  assumes "good_checks pr" "queue_inv n D ms s" "service_loop pr env now ms s = (ms', s')"
  shows "queue_inv n D ms' s'" "s_queue s' = s_queue s" "s_killed s' = s_killed s" "s_killafter s' = s_killafter s"
    "\<forall>m'\<in>set ms'. \<exists>m\<in>set ms. m_retval m = - 1 \<and> m_wakeup_count m' = m_wakeup_count m"
proof -
  have "queue_inv n D ms' s' \<and> s_queue s' = s_queue s \<and> s_killed s' = s_killed s \<and> s_killafter s' = s_killafter s \<and>
    (\<forall>m'\<in>set ms'. \<exists>m\<in>set ms. m_retval m = - 1 \<and> m_wakeup_count m' = m_wakeup_count m)"
    using assms(2,3)
  proof (induction ms arbitrary: n D s ms' s')
    case (Cons m ms)
    show ?case
    proof (cases "m_retval m = - 1")
      case True
      obtain m1 s1 where 1: "on_entry (service_this pr now) m s = (m1, s1)" by fastforce
      obtain ms2 s2 where 2: "service_loop pr env now ms s1 = (ms2, s2)" by fastforce
      note k = on_entry_keeps[OF service_this_keeps[OF assms(1)] 1]
      have r: "ms' = m1 # ms2" "s' = s2" using Cons.prems(2) True 1 2 by simp_all
      have "m_checkent m1 \<notin> D" using Cons.prems(1) k(1) by (simp add: queue_inv_def)
      with Cons.IH[OF queue_inv_move[OF Cons.prems(1) k(1,3,4)] 2] k True show ?thesis
        by (auto simp: r intro: queue_inv_back)
    next
      case False
      note fin = finish_entry_inv[OF Cons.prems(1), of env now]
      from Cons.IH[OF fin(1)] Cons.prems(2) False fin(2-4) show ?thesis by auto
    qed
  qed simp
  then show "queue_inv n D ms' s'" "s_queue s' = s_queue s" "s_killed s' = s_killed s" "s_killafter s' = s_killafter s"
    "\<forall>m'\<in>set ms'. \<exists>m\<in>set ms. m_retval m = - 1 \<and> m_wakeup_count m' = m_wakeup_count m" by simp_all
qed

lemma service_checks_inv:
  assumes "good_checks pr" "sched_inv s"
  shows "sched_inv (service_checks pr env now s)"
    "s_killed (service_checks pr env now s) = s_killed s"
    "\<forall>m'\<in>set (s_queue (service_checks pr env now s)).
       \<exists>m\<in>set (s_queue s). m_retval m = - 1 \<and> m_wakeup_count m' = m_wakeup_count m"
proof -
  obtain ms' s' where 1: "service_loop pr env now (s_queue s) s = (ms', s')" by fastforce
  note l = service_loop_inv[OF assms 1]
  show "sched_inv (service_checks pr env now s)" "s_killed (service_checks pr env now s) = s_killed s"
    "\<forall>m'\<in>set (s_queue (service_checks pr env now s)).
       \<exists>m\<in>set (s_queue s). m_retval m = - 1 \<and> m_wakeup_count m' = m_wakeup_count m"
    using l by (simp_all add: service_checks_def 1 queue_inv_def)
qed

section \<open>Waking up hanging checks\<close>

lemma lchecktime_keeps: "keeps_entry (\<lambda>now (m, h, w). (m, h\<lparr>h_lchecktime := t h\<rparr>, w))"
  by (rule keeps_entryI) auto

lemma wakeup_one_inv:
  assumes "good_checks pr" "wakeup_one pr now_t now m s = (m', s')"
  shows "m_checkent m' = m_checkent m" "s_numqueued s' = s_numqueued s" "flags (s_graph s') = flags (s_graph s)"
    "m_wakeup_count m = 0 \<Longrightarrow> s_killed s' = s_killed s"
    "m_wakeup_count m = 0 \<Longrightarrow> m_wakeup_count m' = 0 \<or> m_retval m' \<noteq> - 1"
proof -
  let ?ok = "m_checkent m' = m_checkent m \<and> s_numqueued s' = s_numqueued s \<and> flags (s_graph s') = flags (s_graph s) \<and>
    (m_wakeup_count m = 0 \<longrightarrow> s_killed s' = s_killed s \<and> (m_wakeup_count m' = 0 \<or> m_retval m' \<noteq> - 1))"
  have ?ok
  proof (cases "\<exists>h. host_at (s_graph s) (m_checkent m) = Some h \<and> mydifftime (m_queueat m) now \<ge> uint (s_killafter s) * 1000000")
    case False
    then have "m' = m \<and> s' = s" using assms(2) by (auto simp: wakeup_one_def split: option.splits)
    then show ?thesis by simp
  next
    case True
    then obtain h where h: "host_at (s_graph s) (m_checkent m) = Some h"
      and late: "mydifftime (m_queueat m) now \<ge> uint (s_killafter s) * 1000000" by blast
    define retries where "retries = (if h_max_wakeup_retries h > 0 then h_max_wakeup_retries h else DEFAULT_MAX_WAKEUP_RETRIES)"
    have pos: "retries > 0" by (simp add: retries_def DEFAULT_MAX_WAKEUP_RETRIES_def)
    obtain m1 s1 where 1: "(if h_type h \<noteq> SYSM_TYPE_PING then on_entry (stop_this pr now_t) m s else (m, s)) = (m1, s1)"
      by fastforce
    have k1: "m_checkent m1 = m_checkent m \<and> m_wakeup_count m1 = m_wakeup_count m \<and> s_numqueued s1 = s_numqueued s \<and>
        flags (s_graph s1) = flags (s_graph s) \<and> s_killed s1 = s_killed s"
      using 1 on_entry_keeps[OF stop_this_keeps[OF assms(1)], of now_t m s m1 s1] by (simp split: if_splits)
    show ?thesis
    proof (cases "m_wakeup_count m \<ge> retries")
      case True
      then have "m_wakeup_count m \<noteq> 0" using pos by (metis leD)
      moreover have "m' = m1\<lparr>m_retval := SYSM_KILLED\<rparr>" "s' = s1\<lparr>s_killed := s_killed s1 + 1\<rparr>"
        using assms(2) True late by (simp_all add: wakeup_one_def h 1 Let_def flip: retries_def)
      ultimately show ?thesis using k1 by simp
    next
      case False
      let ?m = "m1\<lparr>m_retval := SYSM_TIMEDOUT, m_wakeup_count := m_wakeup_count m1 + 1, m_last_wakeup_time := now_t\<rparr>"
      let ?f = "\<lambda>now (m, h, w). (m, h\<lparr>h_lchecktime := sint (word_of_int now_t - h_queuetime h)\<rparr>, w)"
      have 2: "on_entry (?f now_t) ?m s1 = (m', s')"
        using assms(2) False late by (simp add: wakeup_one_def h 1 Let_def flip: retries_def)
      have "m_retval m' = SYSM_TIMEDOUT"
        using 2 by (auto simp: on_entry_def split: option.splits)
      then show ?thesis
        using on_entry_keeps[OF lchecktime_keeps 2] k1 by simp
    qed
  qed
  then show "m_checkent m' = m_checkent m" "s_numqueued s' = s_numqueued s" "flags (s_graph s') = flags (s_graph s)"
    "m_wakeup_count m = 0 \<Longrightarrow> s_killed s' = s_killed s"
    "m_wakeup_count m = 0 \<Longrightarrow> m_wakeup_count m' = 0 \<or> m_retval m' \<noteq> - 1" by simp_all
qed

text \<open>No entry has been woken up, or has been and has a result.\<close>

definition woken_done :: "monitorent list \<Rightarrow> bool" where
  "woken_done ms \<longleftrightarrow> (\<forall>m\<in>set ms. m_wakeup_count m = 0 \<or> m_retval m \<noteq> - 1)"

definition never_woken :: "monitorent list \<Rightarrow> bool" where
  "never_woken ms \<longleftrightarrow> (\<forall>m\<in>set ms. m_wakeup_count m = 0)"

lemma wakeup_loop_inv:
  assumes "good_checks pr" "queue_inv n D ms s" "wakeup_loop pr now_t now ms s = (ms', s')"
  shows "queue_inv n D ms' s' \<and> (never_woken ms \<longrightarrow> s_killed s' = s_killed s \<and> woken_done ms')"
  using assms(2,3)
proof (induction ms arbitrary: n D s ms' s')
  case (Cons m ms)
  obtain m1 s1 where 1: "wakeup_one pr now_t now m s = (m1, s1)" by fastforce
  obtain ms2 s2 where 2: "wakeup_loop pr now_t now ms s1 = (ms2, s2)" by fastforce
  note k = wakeup_one_inv[OF assms(1) 1]
  have r: "ms' = m1 # ms2" "s' = s2" using Cons.prems(2) 1 2 by simp_all
  have "m_checkent m1 \<notin> D" using Cons.prems(1) k(1) by (simp add: queue_inv_def)
  with Cons.IH[OF queue_inv_move[OF Cons.prems(1) k(1-3)] 2] k(4,5) show ?case
    by (auto simp: r never_woken_def woken_done_def intro: queue_inv_back)
qed (simp add: woken_done_def)

lemma wakeup_checks_inv:
  assumes "good_checks pr" "sched_inv s"
  shows "sched_inv (wakeup_checks pr now_t now s)"
    "never_woken (s_queue s) \<Longrightarrow> s_killed (wakeup_checks pr now_t now s) = s_killed s"
    "never_woken (s_queue s) \<Longrightarrow> woken_done (s_queue (wakeup_checks pr now_t now s))"
proof -
  obtain ms' s' where 1: "wakeup_loop pr now_t now (s_queue s) s = (ms', s')" by fastforce
  note l = wakeup_loop_inv[OF assms 1]
  then show "sched_inv (wakeup_checks pr now_t now s)"
    "never_woken (s_queue s) \<Longrightarrow> s_killed (wakeup_checks pr now_t now s) = s_killed s"
    "never_woken (s_queue s) \<Longrightarrow> woken_done (s_queue (wakeup_checks pr now_t now s))"
    by (simp_all add: wakeup_checks_def 1 queue_inv_def)
qed

lemma service_checks_woken:
  assumes "good_checks pr" "sched_inv s" "woken_done (s_queue s)"
  shows "never_woken (s_queue (service_checks pr env now s))"
  unfolding never_woken_def
proof
  fix m' assume "m' \<in> set (s_queue (service_checks pr env now s))"
  then obtain m where "m \<in> set (s_queue s)" "m_retval m = - 1" "m_wakeup_count m' = m_wakeup_count m"
    using service_checks_inv(3)[OF assms(1,2), of env now] by blast
  with assms(3) show "m_wakeup_count m' = 0" by (auto simp: woken_done_def)
qed

lemma ready_loop_inv:
  assumes "good_checks pr" "queue_inv n D ms s" "ready_loop pr ready now ms s = (ms', s')"
  shows "queue_inv n D ms' s' \<and> s_killed s' = s_killed s \<and> map m_wakeup_count ms' = map m_wakeup_count ms \<and>
    (woken_done ms \<longrightarrow> woken_done ms')"
  using assms(2,3)
proof (induction ms arbitrary: n D s ms' s')
  case (Cons m ms)
  obtain m1 s1 where 1: "(if m_filedes m \<noteq> - 1 \<and> m_retval m = - 1 \<and> ready (m_filedes m)
      then on_entry (service_this pr now) m s else (m, s)) = (m1, s1)" by fastforce
  obtain ms2 s2 where 2: "ready_loop pr ready now ms s1 = (ms2, s2)" by fastforce
  have r: "ms' = m1 # ms2" "s' = s2" using Cons.prems(2) 1 2 by (simp_all add: Let_def)
  have k: "m_checkent m1 = m_checkent m" "m_wakeup_count m1 = m_wakeup_count m" "s_numqueued s1 = s_numqueued s"
      "flags (s_graph s1) = flags (s_graph s)" "s_killed s1 = s_killed s" "m1 = m \<or> m_retval m = - 1"
    using 1 on_entry_keeps[OF service_this_keeps[OF assms(1)], of now m s m1 s1] by (simp_all split: if_splits)
  have "m_checkent m1 \<notin> D" using Cons.prems(1) k(1) by (simp add: queue_inv_def)
  with Cons.IH[OF queue_inv_move[OF Cons.prems(1) k(1,3,4)] 2] k show ?case
    by (auto simp: r woken_done_def intro: queue_inv_back)
qed simp

lemma needssleep_inv:
  assumes "good_checks pr" "sched_inv s"
  shows "sched_inv (needssleep pr ready now s)" "s_killed (needssleep pr ready now s) = s_killed s"
    "map m_wakeup_count (s_queue (needssleep pr ready now s)) = map m_wakeup_count (s_queue s)"
    "woken_done (s_queue s) \<Longrightarrow> woken_done (s_queue (needssleep pr ready now s))"
proof -
  obtain ms' s' where 1: "ready_loop pr ready now (s_queue s) s = (ms', s')" by fastforce
  note l = ready_loop_inv[OF assms 1]
  then show "sched_inv (needssleep pr ready now s)" "s_killed (needssleep pr ready now s) = s_killed s"
    "map m_wakeup_count (s_queue (needssleep pr ready now s)) = map m_wakeup_count (s_queue s)"
    "woken_done (s_queue s) \<Longrightarrow> woken_done (s_queue (needssleep pr ready now s))"
    by (simp_all add: needssleep_def 1 queue_inv_def)
qed

lemma never_woken_map: "map m_wakeup_count xs = map m_wakeup_count ys \<Longrightarrow> never_woken xs = never_woken ys"
  unfolding never_woken_def by (metis in_set_conv_nth length_map nth_map)

section \<open>Reminders\<close>

lemma host_at_set_visit [simp]: "host_at (set_visit p gs) q = host_at gs q"
  by (rule same_host) simp

lemma pass_edges_set_visit [simp]: "pass_edges (set_visit p gs) q = pass_edges gs q"
  by (rule same_pass_edges) simp

lemma visited_put [simp]: "visited_set (put_host p h gs) = visited_set gs"
proof -
  have "g_visit (put_host p h gs ! q) = g_visit (gs ! q)" if "q < length gs" for q
    using that by (cases "q = p") (simp_all add: put_host_def)
  then show ?thesis by (auto simp: visited_set_def)
qed

lemma unvisited_put [simp]: "unvisited (put_host p h gs) = unvisited gs"
  by (simp add: unvisited_card)

lemma name_put: "q < length gs \<Longrightarrow> g_unique_name (put_host p h gs ! q) = g_unique_name (gs ! q)"
  by (cases "q = p") (simp_all add: put_host_def)

lemma name_set_visit: "q < length gs \<Longrightarrow> g_unique_name (set_visit p gs ! q) = g_unique_name (gs ! q)"
  by (cases "q = p") (simp_all add: set_visit_def)

lemma pass_edges_put:
  assumes "host_at gs p = Some h" "lets_pass h' = lets_pass h"
  shows "pass_edges (put_host p h' gs) q = pass_edges gs q"
proof (cases "q = p")
  case True
  have p: "p < length gs" using host_at_bound[OF assms(1)] .
  then have "nexts (put_host p h' gs) p = nexts gs p" by (simp add: nexts_def put_host_def)
  then show ?thesis using assms p True by (simp add: pass_edges_def host_at_put)
next
  case False
  then have "nexts (put_host p h' gs) q = nexts gs q" by (simp add: nexts_def put_host_def)
  with False show ?thesis by (simp add: pass_edges_def host_at_put split: option.split)
qed

lemma page_someone_schedule:
  "h_reverse (fst (page_someone e n now svc seq)) = h_reverse svc"
  "h_queued (fst (page_someone e n now svc seq)) = h_queued svc"
  by (rule page_someone_cases [of e svc n]; simp)+

text \<open>The objects a reminder goes out for, as they were before the walk.\<close>

definition reminded :: "(string \<Rightarrow> page_env) \<Rightarrow> int \<Rightarrow> int \<Rightarrow> graph \<Rightarrow> nat \<Rightarrow> bool" where
  "reminded env pageinterval now gs p =
     (case host_at gs p of
        None \<Rightarrow> False
      | Some h \<Rightarrow> repage_due pageinterval now h \<and> reaches (env (g_unique_name (gs ! p))) h SYSM_CONTACT_DOWN)"

definition page_inv :: "(string \<Rightarrow> page_env) \<Rightarrow> int \<Rightarrow> int \<Rightarrow> nat \<Rightarrow> graph \<Rightarrow> page_state \<Rightarrow> bool" where
  "page_inv env pageinterval now base gs0 = (\<lambda>(gs, seq, eff).
     length gs = length gs0 \<and> (\<forall>p. pass_edges gs p = pass_edges gs0 p) \<and>
     (\<forall>p. (host_at gs p = None) = (host_at gs0 p = None)) \<and>
     (\<forall>p. p \<notin> visited_set gs \<longrightarrow> host_at gs p = host_at gs0 p) \<and> flags gs = flags gs0 \<and>
     (\<forall>p<length gs0. g_unique_name (gs ! p) = g_unique_name (gs0 ! p)) \<and>
     length (filter told eff) = base + card {p \<in> visited_set gs. reminded env pageinterval now gs0 p})"

text \<open>One visit, seen from outside.\<close>

lemma page_act_at:
  assumes "host_at gs p = Some h"
  obtains h' seq' new where "page_act env pageinterval now p (gs, seq, eff) = (put_host p h' (set_visit p gs), seq', eff @ new)"
    "lets_pass h' = lets_pass h" "h_queued h' = h_queued h"
    "length (filter told new) =
       (if repage_due pageinterval now h \<and> reaches (env (g_unique_name (gs ! p))) h SYSM_CONTACT_DOWN then 1 else 0)"
proof (cases "repage_due pageinterval now h")
  case True
  let ?e = "env (g_unique_name (set_visit p gs ! p))"
  obtain h' seq' new where r: "page_someone ?e SYSM_CONTACT_DOWN now h seq = (h', seq', new)" by (metis prod_cases3)
  have nm: "g_unique_name (set_visit p gs ! p) = g_unique_name (gs ! p)"
    using name_set_visit host_at_bound[OF assms] by blast
  show ?thesis
  proof (rule that[of h' seq' new])
    show "page_act env pageinterval now p (gs, seq, eff) = (put_host p h' (set_visit p gs), seq', eff @ new)"
      using True r by (simp add: page_act_def assms Let_def)
    show "lets_pass h' = lets_pass h" "h_queued h' = h_queued h"
      using page_someone_frame(1)[of ?e SYSM_CONTACT_DOWN now h seq] page_someone_schedule[of ?e SYSM_CONTACT_DOWN now h seq]
      by (simp_all add: r lets_pass_def)
    show "length (filter told new) =
       (if repage_due pageinterval now h \<and> reaches (env (g_unique_name (gs ! p))) h SYSM_CONTACT_DOWN then 1 else 0)"
      using page_someone_told[of ?e SYSM_CONTACT_DOWN now h seq] True r by (simp add: nm)
  qed
next
  case False
  have "g_data (gs ! p) = Some h" using assms by (simp add: host_at_def split: if_splits)
  then have "(gs ! p)\<lparr>g_visit := True, g_data := Some h\<rparr> = (gs ! p)\<lparr>g_visit := True\<rparr>"
    by (cases "gs ! p") simp
  then have "put_host p h (set_visit p gs) = set_visit p gs"
    using host_at_bound[OF assms] by (simp add: put_host_def set_visit_def)
  with False show ?thesis by (intro that[of h seq "[]"]) (simp_all add: page_act_def assms Let_def)
qed

interpretation pp: search_walk page_skip "page_act env pageinterval now" "\<lambda>p (gs, seq, eff). pass_edges gs p"
    "\<lambda>(gs, seq, eff). unvisited gs" "page_inv env pageinterval now base gs0" "\<lambda>(gs, seq, eff). visited_set gs"
    "pass_edges gs0" "\<lambda>p. host_at gs0 p = None"
  for env pageinterval now base gs0
proof unfold_locales
  fix st :: page_state and p :: nat
  assume inv: "page_inv env pageinterval now base gs0 st"
  obtain gs seq eff where st: "st = (gs, seq, eff)" by (cases st)
  note i = inv[unfolded st page_inv_def prod.case]
  have skip: "page_skip p st \<longleftrightarrow> host_at gs p = None \<or> p \<in> visited_set gs"
    by (auto simp: st page_skip_def host_at_def visited_set_def)
  then show "page_skip p st \<longleftrightarrow> host_at gs0 p = None \<or> p \<in> (case st of (gs, seq, eff) \<Rightarrow> visited_set gs)"
    using i by (simp add: st)
  show "(case st of (gs, seq, eff) \<Rightarrow> pass_edges gs p) = pass_edges gs0 p" using i by (simp add: st)
  assume "\<not> page_skip p st"
  then obtain h where h: "host_at gs p = Some h" and nv: "p \<notin> visited_set gs" using skip by auto
  have p: "p < length gs" using host_at_bound[OF h] .
  have nvis: "\<not> g_visit (gs ! p)" using nv p by (simp add: visited_set_def)
  obtain h' seq' new where a: "page_act env pageinterval now p (gs, seq, eff) = (put_host p h' (set_visit p gs), seq', eff @ new)"
    and lp: "lets_pass h' = lets_pass h" and hq: "h_queued h' = h_queued h" and new: "length (filter told new) =
       (if repage_due pageinterval now h \<and> reaches (env (g_unique_name (gs ! p))) h SYSM_CONTACT_DOWN then 1 else 0)"
    by (rule page_act_at[OF h])
  let ?gs = "put_host p h' (set_visit p gs)"
  have v: "visited_set ?gs = insert p (visited_set gs)" using p by (simp add: visited_set_visit)
  then show "(case page_act env pageinterval now p st of (gs, seq, eff) \<Rightarrow> visited_set gs) =
      insert p (case st of (gs, seq, eff) \<Rightarrow> visited_set gs)" by (simp add: st a)
  show "(case page_act env pageinterval now p st of (gs, seq, eff) \<Rightarrow> unvisited gs) < (case st of (gs, seq, eff) \<Rightarrow> unvisited gs)"
    using unvisited_set_visit[OF p nvis] by (simp add: st a)
  have h0: "host_at gs0 p = Some h" using i nv h by simp
  have "reminded env pageinterval now gs0 p \<longleftrightarrow> length (filter told new) = 1"
    using i p new h0 by (simp add: reminded_def)
  moreover have "{q \<in> insert p (visited_set gs). reminded env pageinterval now gs0 q} =
      (if reminded env pageinterval now gs0 p then insert p {q \<in> visited_set gs. reminded env pageinterval now gs0 q}
       else {q \<in> visited_set gs. reminded env pageinterval now gs0 q})" by auto
  moreover have "finite (visited_set gs)" by (simp add: visited_set_def)
  ultimately have cnt: "length (filter told (eff @ new)) =
      base + card {q \<in> insert p (visited_set gs). reminded env pageinterval now gs0 q}"
    using i nv new by simp
  have "host_at (set_visit p gs) p = Some h" using h by simp
  note edges = pass_edges_put[OF this lp] and fl = flags_put_same[OF this hq]
  have "flags (set_visit p gs) = flags gs" by (simp add: flags_def)
  with fl have fl': "flags ?gs = flags gs" by simp
  have nm: "\<forall>q<length gs0. g_unique_name (?gs ! q) = g_unique_name (gs0 ! q)"
    using i by (simp add: name_put name_set_visit)
  show "page_inv env pageinterval now base gs0 (page_act env pageinterval now p st)"
    unfolding st a page_inv_def prod.case v
    using i cnt edges fl' nm h0 p by (simp add: host_at_put)
qed

lemma periodic_page_spec:
  assumes "s_root s < length (s_graph s)" "sched_inv s"
  shows "\<exists>s'. periodic_page env now s = Some s' \<and> sched_inv s' \<and> s_queue s' = s_queue s \<and> s_killed s' = s_killed s \<and>
     length (filter told (s_effects s')) = length (filter told (s_effects s)) +
       card {p. reach (pass_edges (s_graph s)) (\<lambda>p. host_at (s_graph s) p = None) (s_root s) p \<and>
                reminded env (s_pageinterval s) now (s_graph s) p}"
proof -
  let ?g = "clear_visited (s_graph s)" and ?st = "(clear_visited (s_graph s), s_seq s, s_effects s)"
  let ?base = "length (filter told (s_effects s))"
  have cl: "clear_visited ?g = clear_visited (s_graph s)" by simp
  have nm: "g_unique_name (?g ! p) = g_unique_name (s_graph s ! p)" if "p < length (s_graph s)" for p
    using same_fields(1)[OF cl that] .
  have inv: "page_inv env (s_pageinterval s) now ?base ?g ?st" by (simp add: page_inv_def)
  have rem: "(case ?st of (gs, seq, eff) \<Rightarrow> unvisited gs) < Suc (length (fst ?st))"
    using unvisited_le[of ?g] by simp
  obtain gs seq eff where w: "walk_periodic_page_checks env (s_pageinterval s) now (s_root s) ?st = Some (gs, seq, eff)"
    and st: "page_inv env (s_pageinterval s) now ?base ?g (gs, seq, eff)"
    using pp.walk_total[OF inv rem, of "s_root s"] by (auto simp: walk_periodic_page_checks_def)
  have vis: "visited_set gs = {p. reach (pass_edges ?g) (\<lambda>p. host_at ?g p = None) (s_root s) p}"
    using pp.walk_visits[OF inv _ w[unfolded walk_periodic_page_checks_def]] by simp
  have pe: "pass_edges ?g = pass_edges (s_graph s)" using same_pass_edges[OF cl] by (rule ext)
  have rm: "reminded env (s_pageinterval s) now ?g p = reminded env (s_pageinterval s) now (s_graph s) p" for p
    using nm host_at_bound by (auto simp: reminded_def same_host[OF cl] split: option.split)
  have eff: "length (filter told eff) = ?base + card {p. reach (pass_edges (s_graph s)) (\<lambda>p. host_at (s_graph s) p = None) (s_root s) p \<and>
                reminded env (s_pageinterval s) now (s_graph s) p}"
    using st by (simp add: page_inv_def vis rm pe same_host[OF cl])
  let ?s = "s\<lparr>s_graph := clear_visited gs, s_seq := seq, s_effects := eff\<rparr>"
  have "flags (clear_visited gs) = flags (s_graph s)"
    using st same_flags[OF cl] same_flags[of "clear_visited gs" gs] by (simp add: page_inv_def)
  then have "sched_inv ?s" using assms(2) by (simp add: queue_inv_def)
  moreover have "periodic_page env now s = Some ?s" using assms(1) w by (simp add: periodic_page_def)
  ultimately show ?thesis using eff by (intro exI[of _ ?s]) simp
qed

section \<open>Runs of the main loop\<close>

text \<open>What no operation of the scheduler changes.\<close>

definition settings :: "'w sched \<Rightarrow> nat \<times> int" where
  "settings s = (s_root s, s_maxqueued s)"

lemma on_entry_settings: "on_entry f m s = (m', s') \<Longrightarrow> settings s' = settings s \<and> length (s_graph s') = length (s_graph s)"
  by (auto simp: on_entry_def settings_def split: option.splits prod.splits)

lemma finish_entry_settings:
  "settings (finish_entry env now m s) = settings s \<and> length (s_graph (finish_entry env now m s)) = length (s_graph s)"
  by (simp add: finish_entry_def settings_def split: option.split prod.split)

lemma snd_on_entry_settings [simp]:
  "settings (snd (on_entry f m s)) = settings s" "length (s_graph (snd (on_entry f m s))) = length (s_graph s)"
  using on_entry_settings[of f m s "fst (on_entry f m s)" "snd (on_entry f m s)"] by simp_all

lemma settings_killed [simp]: "settings (s\<lparr>s_killed := k\<rparr>) = settings s"
  by (simp add: settings_def)

lemma wakeup_one_settings:
  assumes "wakeup_one pr now_t now m s = (m', s')"
  shows "settings s' = settings s \<and> length (s_graph s') = length (s_graph s)"
proof -
  have "settings (snd (wakeup_one pr now_t now m s)) = settings s \<and>
      length (s_graph (snd (wakeup_one pr now_t now m s))) = length (s_graph s)"
    by (simp add: wakeup_one_def Let_def split_beta split: option.split)
  with assms show ?thesis by simp
qed

lemma service_loop_settings:
  "service_loop pr env now ms s = (ms', s') \<Longrightarrow>
     settings s' = settings s \<and> length (s_graph s') = length (s_graph s) \<and> length ms' \<le> length ms"
proof (induction ms arbitrary: s ms' s')
  case (Cons m ms)
  obtain m1 s1 where 1: "on_entry (service_this pr now) m s = (m1, s1)" by fastforce
  obtain ms2 s2 where 2: "service_loop pr env now ms s1 = (ms2, s2)" by fastforce
  show ?case
  proof (cases "m_retval m = - 1")
    case True
    with Cons.prems 1 2 have "ms' = m1 # ms2" "s' = s2" by simp_all
    with Cons.IH[OF 2] on_entry_settings[OF 1] show ?thesis by simp
  next
    case False
    with Cons.prems Cons.IH[of "finish_entry env now m s" ms' s'] finish_entry_settings[of env now m s] show ?thesis by simp
  qed
qed simp

lemma wakeup_loop_settings:
  "wakeup_loop pr now_t now ms s = (ms', s') \<Longrightarrow>
     settings s' = settings s \<and> length (s_graph s') = length (s_graph s) \<and> length ms' = length ms"
proof (induction ms arbitrary: s ms' s')
  case (Cons m ms)
  obtain m1 s1 where 1: "wakeup_one pr now_t now m s = (m1, s1)" by fastforce
  obtain ms2 s2 where 2: "wakeup_loop pr now_t now ms s1 = (ms2, s2)" by fastforce
  have "ms' = m1 # ms2" "s' = s2" using Cons.prems 1 2 by simp_all
  with Cons.IH[OF 2] wakeup_one_settings[OF 1] show ?case by simp
qed simp

lemma ready_loop_settings:
  "ready_loop pr ready now ms s = (ms', s') \<Longrightarrow>
     settings s' = settings s \<and> length (s_graph s') = length (s_graph s) \<and> length ms' = length ms"
proof (induction ms arbitrary: s ms' s')
  case (Cons m ms)
  obtain m1 s1 where 1: "(if m_filedes m \<noteq> - 1 \<and> m_retval m = - 1 \<and> ready (m_filedes m)
      then on_entry (service_this pr now) m s else (m, s)) = (m1, s1)" by fastforce
  obtain ms2 s2 where 2: "ready_loop pr ready now ms s1 = (ms2, s2)" by fastforce
  have "ms' = m1 # ms2" "s' = s2" using Cons.prems 1 2 by (simp_all add: Let_def)
  moreover have "settings s1 = settings s \<and> length (s_graph s1) = length (s_graph s)"
    using 1 on_entry_settings[of "service_this pr now" m s m1 s1] by (simp split: if_splits)
  ultimately show ?case using Cons.IH[OF 2] by simp
qed simp

text \<open>The invariant of the loop: the queue's invariant and its bound.\<close>

definition loop_inv :: "'w sched \<Rightarrow> bool" where
  "loop_inv s \<longleftrightarrow> sched_inv s \<and> int (length (s_queue s)) \<le> s_maxqueued s + 1"

lemma loop_invI:
  assumes "loop_inv s" "sched_inv s'" "settings s' = settings s" "length (s_queue s') \<le> length (s_queue s)"
  shows "loop_inv s'"
  using assms by (simp add: loop_inv_def settings_def)

lemma service_checks_loop:
  assumes "good_checks pr" "loop_inv s"
  shows "loop_inv (service_checks pr env now s)"
proof -
  obtain ms' s' where 1: "service_loop pr env now (s_queue s) s = (ms', s')" by fastforce
  show ?thesis
    using assms service_checks_inv(1)[OF assms(1), of s env now] service_loop_settings[OF 1]
    by (intro loop_invI[OF assms(2)]) (simp_all add: loop_inv_def service_checks_def 1 settings_def)
qed

lemma wakeup_checks_loop:
  assumes "good_checks pr" "loop_inv s"
  shows "loop_inv (wakeup_checks pr now_t now s)"
proof -
  obtain ms' s' where 1: "wakeup_loop pr now_t now (s_queue s) s = (ms', s')" by fastforce
  show ?thesis
    using assms wakeup_checks_inv(1)[OF assms(1), of s now_t now] wakeup_loop_settings[OF 1]
    by (intro loop_invI[OF assms(2)]) (simp_all add: loop_inv_def wakeup_checks_def 1 settings_def)
qed

lemma needssleep_loop:
  assumes "good_checks pr" "loop_inv s"
  shows "loop_inv (needssleep pr ready now s)"
proof -
  obtain ms' s' where 1: "ready_loop pr ready now (s_queue s) s = (ms', s')" by fastforce
  show ?thesis
    using assms needssleep_inv(1)[OF assms(1), of s ready now] ready_loop_settings[OF 1]
    by (intro loop_invI[OF assms(2)]) (simp_all add: loop_inv_def needssleep_def 1 settings_def)
qed

lemma rewalk_host_queued: "h_queued (rewalk_host resolves wl now h) = h_queued h"
  by (simp add: rewalk_host_def Let_def)

lemma periodic_rewalk_flags: "flags (s_graph (periodic_rewalk resolves now s)) = flags (s_graph s)"
  by (auto simp: periodic_rewalk_def flags_def host_at_def rewalk_host_queued)

lemma periodic_rewalk_fields:
  "s_queue (periodic_rewalk resolves now s) = s_queue s" "s_numqueued (periodic_rewalk resolves now s) = s_numqueued s"
  "s_killed (periodic_rewalk resolves now s) = s_killed s" "settings (periodic_rewalk resolves now s) = settings s"
  by (simp_all add: periodic_rewalk_def settings_def)

lemma periodic_page_total:
  assumes "loop_inv s"
  shows "\<exists>s'. periodic_page env now s = Some s' \<and> loop_inv s' \<and> s_queue s' = s_queue s \<and> s_killed s' = s_killed s"
proof (cases "s_root s < length (s_graph s)")
  case True
  obtain s' where s': "periodic_page env now s = Some s'" "sched_inv s'" "s_queue s' = s_queue s" "s_killed s' = s_killed s"
    using periodic_page_spec[OF True, of env now] assms unfolding loop_inv_def by blast
  moreover have "settings s' = settings s"
    using s'(1) True by (auto simp: periodic_page_def settings_def split: option.splits)
  ultimately show ?thesis using assms by (auto intro: loop_invI)
next
  case False
  have "flags (clear_visited (s_graph s)) = flags (s_graph s)" by (rule same_flags) simp
  with assms have "loop_inv (s\<lparr>s_graph := clear_visited (s_graph s)\<rparr>)" by (simp add: loop_inv_def queue_inv_def)
  with False show ?thesis by (simp add: periodic_page_def)
qed

lemma do_tree_periodic_total:
  assumes "loop_inv s"
  shows "\<exists>s'. do_tree_periodic env resolves now s = Some s' \<and> loop_inv s' \<and> s_queue s' = s_queue s \<and> s_killed s' = s_killed s"
proof -
  let ?s = "periodic_rewalk resolves now s"
  have "sched_inv ?s"
    using assms periodic_rewalk_flags[of resolves now s] by (simp add: loop_inv_def queue_inv_def periodic_rewalk_fields)
  then have inv: "loop_inv ?s" by (intro loop_invI[OF assms]) (simp_all add: periodic_rewalk_fields)
  show ?thesis using periodic_page_total[OF inv, of env now] inv
    by (auto simp: do_tree_periodic_def Let_def periodic_rewalk_fields)
qed

lemma queue_check_entries:
  "s_killed (queue_check tv p name s) = s_killed s" "settings (queue_check tv p name s) = settings s"
  "m \<in> set (s_queue (queue_check tv p name s)) \<Longrightarrow> m \<in> set (s_queue s) \<or> m_wakeup_count m = 0"
  by (auto simp: queue_check_def new_entry_def settings_def split: option.splits if_splits)

lemma queue_loop_entries:
  "s_killed (queue_loop now clock ps s) = s_killed s \<and> settings (queue_loop now clock ps s) = settings s \<and>
   (\<forall>m\<in>set (s_queue (queue_loop now clock ps s)). m \<in> set (s_queue s) \<or> m_wakeup_count m = 0)"
proof (induction ps arbitrary: s)
  case (Cons p ps)
  have "s_killed (queue_one now (clock p) p s) = s_killed s" "settings (queue_one now (clock p) p s) = settings s"
    "\<forall>m\<in>set (s_queue (queue_one now (clock p) p s)). m \<in> set (s_queue s) \<or> m_wakeup_count m = 0"
    by (auto simp: queue_one_def Let_def queue_check_entries(1) dest: queue_check_entries(3))
       (simp_all add: settings_def queue_check_entries(2)[unfolded settings_def])
  with Cons.IH[of "queue_one now (clock p) p s"] show ?case by auto
qed simp

lemma queue_checks_loop:
  assumes "loop_inv s"
  shows "\<exists>s' r. queue_checks_qsort_way now clock s = Some (s', r) \<and> loop_inv s' \<and> s_killed s' = s_killed s \<and>
     (never_woken (s_queue s) \<longrightarrow> never_woken (s_queue s'))"
proof (cases "s_root s < length (s_graph s)")
  case True
  have si: "sched_inv s" using assms by (simp add: loop_inv_def)
  obtain s' due where q: "queue_checks_qsort_way now clock s = Some (s', 1)" and inv: "sched_inv s'"
    and l: "map m_checkent (s_queue s') = rev (take (room s) due) @ map m_checkent (s_queue s)"
    using queue_checks_spec[OF si True, of now clock] by blast
  obtain gs ps where "s' = queue_loop now clock ps (s\<lparr>s_graph := clear_visited gs\<rparr>)"
    using q True by (auto simp: queue_checks_qsort_way_def Let_def split: option.splits)
  with queue_loop_entries[of now clock ps "s\<lparr>s_graph := clear_visited gs\<rparr>"]
  have e: "s_killed s' = s_killed s" "s_maxqueued s' = s_maxqueued s"
    "\<forall>m\<in>set (s_queue s'). m \<in> set (s_queue s) \<or> m_wakeup_count m = 0" by (simp_all add: settings_def)
  have "length (s_queue s') \<le> room s + length (s_queue s)"
    using arg_cong[OF l, of length] by simp
  then have "loop_inv s'" using assms inv e(2) by (auto simp: loop_inv_def queue_inv_def room_def)
  with q e show ?thesis by (auto simp: never_woken_def)
next
  case False
  with assms show ?thesis by (simp add: queue_checks_qsort_way_def)
qed

lemma loop_inv_clock [simp]:
  "loop_inv (s\<lparr>s_last_wakeup_t := t\<rparr>) = loop_inv s" "loop_inv (s\<lparr>s_last_periodic_t := t\<rparr>) = loop_inv s"
  by (simp_all add: loop_inv_def queue_inv_def)

lemma never_woken_done: "never_woken ms \<Longrightarrow> woken_done ms"
  by (simp add: never_woken_def woken_done_def)

lemma watch_pass_total:
  assumes "good_checks pr" "loop_inv s"
  shows "\<exists>s'. watch_pass pr i s = Some s' \<and> loop_inv s' \<and>
     (never_woken (s_queue s) \<longrightarrow> never_woken (s_queue s') \<and> s_killed s' = s_killed s)"
proof -
  let ?q = "if s_graph s \<noteq> [] \<and> s_numqueued s \<le> s_maxqueued s
            then map_option fst (queue_checks_qsort_way (i_now i) (i_clock i) s) else Some s"
  obtain s1 where s1: "?q = Some s1" "loop_inv s1" "s_killed s1 = s_killed s"
      "never_woken (s_queue s) \<Longrightarrow> never_woken (s_queue s1)"
  proof (cases "s_graph s \<noteq> [] \<and> s_numqueued s \<le> s_maxqueued s")
    case True
    then show ?thesis using that queue_checks_loop[OF assms(2), of "i_now i" "i_clock i"] by fastforce
  next
    case False
    then show ?thesis using that[of s] assms(2) by auto
  qed
  define s2 where "s2 = (if i_now i - s_last_wakeup_t s1 \<ge> 10
      then (wakeup_checks pr (i_now i) (i_tv i) s1)\<lparr>s_last_wakeup_t := i_now i\<rparr> else s1)"
  have sc1: "sched_inv s1" using s1(2) by (simp add: loop_inv_def)
  have s2: "loop_inv s2" "never_woken (s_queue s1) \<Longrightarrow> woken_done (s_queue s2) \<and> s_killed s2 = s_killed s1"
    using wakeup_checks_loop[OF assms(1) s1(2), of "i_now i" "i_tv i"] s1(2) never_woken_done[of "s_queue s1"]
      wakeup_checks_inv(2,3)[OF assms(1) sc1, of "i_now i" "i_tv i"] by (simp_all add: s2_def)
  define s3 where "s3 = service_checks pr (i_env i) (i_now i) s2"
  have sc2: "sched_inv s2" using s2(1) by (simp add: loop_inv_def)
  have s3: "loop_inv s3" "s_killed s3 = s_killed s2" "woken_done (s_queue s2) \<Longrightarrow> never_woken (s_queue s3)"
    using service_checks_loop[OF assms(1) s2(1)] service_checks_inv(2)[OF assms(1) sc2]
      service_checks_woken[OF assms(1) sc2] by (simp_all add: s3_def)
  define s4 where "s4 = needssleep pr (i_ready i) (i_now i) s3"
  have sc3: "sched_inv s3" using s3(1) by (simp add: loop_inv_def)
  have s4: "loop_inv s4" "s_killed s4 = s_killed s3" "never_woken (s_queue s4) = never_woken (s_queue s3)"
    unfolding s4_def
    by (rule needssleep_loop[OF assms(1) s3(1)], rule needssleep_inv(2)[OF assms(1) sc3],
        rule never_woken_map[OF needssleep_inv(3)[OF assms(1) sc3]])
  obtain s5 where s5: "do_tree_periodic (i_env i) (i_resolves i) (i_now i) s4 = Some s5" "loop_inv s5"
      "s_queue s5 = s_queue s4" "s_killed s5 = s_killed s4"
    using do_tree_periodic_total[OF s4(1)] by blast
  have pass: "watch_pass pr i s = (if i_now i - s_last_periodic_t s4 > 60
      then Some (s5\<lparr>s_last_periodic_t := i_now i\<rparr>) else Some s4)"
    by (simp add: watch_pass_def s1(1) s5(1) Let_def flip: s2_def s3_def s4_def)
  have all: "never_woken (s_queue s) \<Longrightarrow> never_woken (s_queue s4) \<and> s_killed s4 = s_killed s"
    using s1(3,4) s2(2) s3(2,3) s4(2,3) by simp
  show ?thesis
  proof (cases "i_now i - s_last_periodic_t s4 > 60")
    case True
    with pass s5 all show ?thesis by simp
  next
    case False
    with pass s4(1) all show ?thesis by simp
  qed
qed

lemma paused_pass_total:
  assumes "good_checks pr" "loop_inv s"
  shows "\<exists>s'. paused_pass pr i s = Some s' \<and> loop_inv s'"
proof -
  let ?s = "wakeup_checks pr (i_now i) (i_tv i) (service_checks pr (i_env i) (i_now i) s)"
  have "loop_inv ?s" by (intro wakeup_checks_loop service_checks_loop assms)
  then obtain s' where "do_tree_periodic (i_env i) (i_resolves i) (i_now i) ?s = Some s'" "loop_inv s'"
    using do_tree_periodic_total by blast
  then show ?thesis using needssleep_loop[OF assms(1)] by (simp add: paused_pass_def Let_def)
qed

text \<open>The states the daemon goes through between two reloads of its configuration. The world may
  change in any way between two turns of the loop.\<close>

inductive sched_run :: "(int \<Rightarrow> (u64 \<times> 'w) protocol) \<Rightarrow> 'w sched \<Rightarrow> 'w sched \<Rightarrow> bool" for pr s0 where
  run_start: "sched_run pr s0 s0"
| run_watch: "sched_run pr s0 s \<Longrightarrow> watch_pass pr i s = Some s' \<Longrightarrow> sched_run pr s0 s'"
| run_world: "sched_run pr s0 s \<Longrightarrow> sched_run pr s0 (s\<lparr>s_world := w\<rparr>)"
| run_paused: "sched_run pr s0 s \<Longrightarrow> paused_pass pr i s = Some s' \<Longrightarrow> sched_run pr s0 s'"

inductive_cases sched_runE: "sched_run pr s0 s"

lemma loop_inv_world [simp]: "loop_inv (s\<lparr>s_world := w\<rparr>) = loop_inv s"
  by (simp add: loop_inv_def queue_inv_def)

lemma sched_run_inv:
  assumes "good_checks pr" "loop_inv s0" "sched_run pr s0 s"
  shows "loop_inv s"
  using assms(3)
proof (induction rule: sched_run.induct)
  case (run_watch s i s')
  then show ?case using watch_pass_total[OF assms(1), of s i] by auto
next
  case (run_world s w)
  then show ?case by simp
next
  case (run_paused s i s')
  then show ?case using paused_pass_total[OF assms(1), of s i] by auto
qed (rule assms(2))

text \<open>Turns of the loop with what happens to the world before each of them.\<close>

fun watch_run :: "(int \<Rightarrow> (u64 \<times> 'w) protocol) \<Rightarrow> (loop_input \<times> ('w \<Rightarrow> 'w)) list \<Rightarrow> 'w sched \<Rightarrow> 'w sched option" where
  "watch_run pr [] s = Some s"
| "watch_run pr ((i, f) # is) s =
     (case watch_pass pr i (s\<lparr>s_world := f (s_world s)\<rparr>) of None \<Rightarrow> None | Some s' \<Rightarrow> watch_run pr is s')"

lemma watch_run_inv:
  assumes "good_checks pr"
  shows "loop_inv s \<Longrightarrow> never_woken (s_queue s) \<Longrightarrow>
    \<exists>s'. watch_run pr is s = Some s' \<and> loop_inv s' \<and> never_woken (s_queue s') \<and> s_killed s' = s_killed s"
proof (induction "is" arbitrary: s)
  case (Cons x "is")
  obtain i f where x: "x = (i, f)" by fastforce
  let ?s = "s\<lparr>s_world := f (s_world s)\<rparr>"
  have pre: "loop_inv ?s" "never_woken (s_queue ?s)" using Cons.prems by simp_all
  obtain s1 where 1: "watch_pass pr i ?s = Some s1" "loop_inv s1" "never_woken (s_queue s1)" "s_killed s1 = s_killed ?s"
    using watch_pass_total[OF assms pre(1), of i] pre(2) by blast
  from Cons.IH[OF 1(2,3)] 1 show ?case by (auto simp: x)
qed simp

section \<open>Properties\<close>

text \<open>
  The scheduler keeps its books in every run of the main loop, paused or not: the counter is the
  length of the queue, no object is queued twice, an object is marked as queued exactly when it is in
  the queue, the queue never holds more than one check above \<open>maxqueued\<close>, and every further turn of
  the loop ends.
\<close>

theorem scheduler_invariant:
  assumes "good_checks pr" "loop_inv s0" "sched_run pr s0 s"
  shows "s_numqueued s = int (length (s_queue s)) \<and> distinct (map m_checkent (s_queue s)) \<and>
    (\<forall>p. p \<in> m_checkent ` set (s_queue s) \<longleftrightarrow> (\<exists>h. host_at (s_graph s) p = Some h \<and> h_queued h)) \<and>
    s_numqueued s \<le> s_maxqueued s + 1 \<and>
    (\<exists>s'. watch_pass pr i s = Some s') \<and> (\<exists>s'. paused_pass pr i s = Some s')"
proof -
  have inv: "loop_inv s" by (rule sched_run_inv[OF assms])
  then show ?thesis
    using watch_pass_total[OF assms(1) inv, of i] paused_pass_total[OF assms(1) inv, of i]
    by (auto simp: loop_inv_def queue_inv_def flags_def set_eq_iff)
qed


text \<open>
  Reminders are exact. The walk that repeats pages ends on every dependency graph, and the number
  of people told is the number of objects that were paged for before, whose interval since then has
  passed, whose contacts take failure messages, and that a chain of objects which are up (down with
  \<open>reverse\<close>) joins to the root; the queue stays as it is.
\<close>

theorem periodic_page_exact:
  assumes "s_root s < length (s_graph s)" "sched_inv s"
  shows "\<exists>s'. periodic_page env now s = Some s' \<and> s_queue s' = s_queue s \<and>
     length (filter told (s_effects s')) = length (filter told (s_effects s)) +
       card {p. reach (pass_edges (s_graph s)) (\<lambda>p. host_at (s_graph s) p = None) (s_root s) p \<and>
                reminded env (s_pageinterval s) now (s_graph s) p}"
  using periodic_page_spec[OF assms] by blast

text \<open>
  A hanging check is never given up. However long the main loop runs, as long as monitoring is not
  paused, no check is killed and no entry in the queue has been woken up before: an entry that was
  woken up has a result, is removed in the same turn, and the next check of the object starts with
  a fresh count, so that the limit on retries is never reached.
\<close>

theorem killed_never_reached:
  assumes "good_checks pr" "loop_inv s0" "s_queue s0 = []"
  shows "\<exists>s. watch_run pr is s0 = Some s \<and> s_killed s = s_killed s0 \<and> (\<forall>m\<in>set (s_queue s). m_wakeup_count m = 0)"
proof -
  have "never_woken (s_queue s0)" using assms(3) by (simp add: never_woken_def)
  from watch_run_inv[OF assms(1,2) this] show ?thesis by (auto simp: never_woken_def)
qed

text \<open>
  A recovery from a failed name lookup is lost. When the periodic walk finds that the name of an
  object marked as unresolvable has an answer again, it clears the failure without a change number;
  if the outage had been paged for, the next success then sends no recovery message, leaves the
  object marked as contacted and gives it no change number either, and no message goes out for the
  next failure of any kind.
\<close>

theorem nodns_recovery_lost:
  assumes "h_lastcheck h = word_of_int SYSM_NODNS" "h_contacted h" "\<not> h_acked h" "resolves (h_hostname h)"
    "now > h_next_queuetime h" "handle_retval e nm SYSM_OK t1 (rewalk_host resolves wl now h, seq) = (h1, seq1, eff)"
    "r \<noteq> SYSM_OK"
  shows "client_view (rewalk_host resolves wl now h) \<noteq> client_view h \<and>
    h_change_seq (rewalk_host resolves wl now h) = h_change_seq h \<and>
    eff = [] \<and> seq1 = seq \<and> h_contacted h1 \<and> h_change_seq h1 = h_change_seq h \<and>
    filter told (snd (snd (handle_retval e' nm r t2 (h1, seq1)))) = []"
proof -
  let ?h = "rewalk_host resolves wl now h"
  have w: "h_lastcheck ?h = 0" "h_contacted ?h" "\<not> h_acked ?h" "h_change_seq ?h = h_change_seq h"
    using assms(1-5) by (simp_all add: rewalk_host_def Let_def)
  have "handle_retval e nm 0 t1 (?h, seq) =
      (?h\<lparr>h_totalchecked := h_totalchecked ?h + 1, h_next_queuetime := time_plus t1 (h_queuetime ?h),
          h_upct := h_upct ?h + 1, h_downct := 0\<rparr>, seq, [])"
    using w(1-3) by (simp add: handle_retval_def handler_steps set_host_def Let_def)
  with assms(6) w have r: "eff = []" "seq1 = seq" "h_contacted h1" "h_change_seq h1 = h_change_seq h" by auto
  have "length (filter told (snd (snd (handle_retval e' nm r t2 (h1, seq1))))) = 0"
    using handle_fail_told(1)[OF assms(7), of e' nm t2 h1 seq1] r(3) by (simp add: pages_now_def)
  with r w assms(1) show ?thesis by (simp add: client_view_def)
qed

section \<open>Witnesses\<close>

definition one_object :: "hostinfo \<Rightarrow> graph" where
  "one_object h =
     [\<lparr>g_unique_name = ''core'', g_data = Some h, g_deps = [], g_tot_nei = 0, g_neighbors = [], g_visit = False\<rparr>]"

definition small_sched :: "hostinfo \<Rightarrow> unit sched" where
  "small_sched h =
     \<lparr>s_graph = one_object h, s_root = 0, s_queue = [], s_numqueued = 0, s_maxqueued = 75, s_last_queued_at = 0,
      s_last_queued_warn = False, s_warnlog = False, s_killafter = 61, s_killed = 0, s_pageinterval = 60,
      s_last_wakeup_t = 0, s_last_periodic_t = 0, s_seq = 0, s_effects = [], s_world = ()\<rparr>"

definition quick_check :: "(u64 \<times> unit) protocol" where
  "quick_check =
     \<lparr>start_test = \<lambda>now (m, h, w). (m\<lparr>m_retval := SYSM_OK\<rparr>, h, w), service_test = \<lambda>now x. x, stop_test = \<lambda>now x. x\<rparr>"

lemma quick_check_good: "good_checks (\<lambda>t. quick_check)"
  unfolding good_checks_def check_protocol_def by (auto simp: quick_check_def intro!: keeps_entryI)

lemma host_at_one: "host_at (one_object h) p = (if p = 0 then Some h else None)"
  by (simp add: host_at_def one_object_def)

lemma pass_edges_one: "pass_edges (one_object h) p = []"
  by (cases "p = 0") (simp_all add: pass_edges_def host_at_one nexts_def, simp add: one_object_def)

lemma small_sched_inv: "\<not> h_queued h \<Longrightarrow> loop_inv (small_sched h)"
  by (auto simp: loop_inv_def queue_inv_def small_sched_def flags_def host_at_one)

theorem scheduler_invariant_witness:
  "\<forall>i. s_numqueued (small_sched zero_host) = 0 \<and> (\<exists>s'. watch_pass (\<lambda>t. quick_check) i (small_sched zero_host) = Some s')"
proof
  fix i
  have "loop_inv (small_sched zero_host)" by (rule small_sched_inv) (simp add: zero_host_def)
  from scheduler_invariant[OF quick_check_good this sched_run.run_start, of i]
  show "s_numqueued (small_sched zero_host) = 0 \<and> (\<exists>s'. watch_pass (\<lambda>t. quick_check) i (small_sched zero_host) = Some s')"
    by (simp add: small_sched_def)
qed


theorem periodic_page_exact_witness:
  "\<exists>s'. periodic_page (\<lambda>_. quiet_env) 5 (small_sched zero_host) = Some s' \<and> filter told (s_effects s') = []"
proof -
  have inv: "sched_inv (small_sched zero_host)"
    using small_sched_inv[of zero_host] by (simp add: loop_inv_def zero_host_def)
  have start: "s_root (small_sched zero_host) < length (s_graph (small_sched zero_host))"
    by (simp add: small_sched_def one_object_def)
  have "\<not> reminded (\<lambda>_. quiet_env) pi 5 (s_graph (small_sched zero_host)) p" for pi p
    by (simp add: reminded_def small_sched_def host_at_one repage_due_def zero_host_def)
  with periodic_page_exact[OF start inv, of "\<lambda>_. quiet_env" 5] show ?thesis by (auto simp: small_sched_def)
qed

theorem killed_never_reached_witness:
  "\<forall>is. \<exists>s. watch_run (\<lambda>t. quick_check) is (small_sched zero_host) = Some s \<and> s_killed s = 0"
proof
  fix "is" :: "(loop_input \<times> (unit \<Rightarrow> unit)) list"
  have "loop_inv (small_sched zero_host)" by (rule small_sched_inv) (simp add: zero_host_def)
  from killed_never_reached[OF quick_check_good this, of "is"]
  show "\<exists>s. watch_run (\<lambda>t. quick_check) is (small_sched zero_host) = Some s \<and> s_killed s = 0"
    by (auto simp: small_sched_def)
qed

theorem nodns_recovery_lost_witness:
  "filter told (snd (snd (handle_retval quiet_env ''core'' SYSM_CONNREF 20
     (fst (handle_retval quiet_env ''core'' SYSM_OK 10
        (rewalk_host (\<lambda>_. True) False 5 (zero_host\<lparr>h_lastcheck := 5, h_contacted := True\<rparr>), 0)), 0)))) = []"
proof -
  let ?h = "zero_host\<lparr>h_lastcheck := 5, h_contacted := True\<rparr>"
  obtain h1 seq1 eff where r: "handle_retval quiet_env ''core'' SYSM_OK 10 (rewalk_host (\<lambda>_. True) False 5 ?h, 0) = (h1, seq1, eff)"
    by (metis prod_cases3)
  have pre: "h_lastcheck ?h = word_of_int SYSM_NODNS" "h_contacted ?h" "\<not> h_acked ?h" "(\<lambda>_. True) (h_hostname ?h)"
    "5 > h_next_queuetime ?h" "SYSM_CONNREF \<noteq> SYSM_OK" by (simp_all add: zero_host_def)
  from nodns_recovery_lost[where resolves = "\<lambda>_. True", OF pre(1-5) r pre(6), of quiet_env 20] r show ?thesis
    by (elim conjE) simp
qed

end
