(* ===== verification/Trap_Receive.thy ===== *)
theory Trap_Receive
  imports Trap_History Check_Queue
begin

text \<open>
  The trap port of snmp.c: which configured object may send traps (\<open>find_trap_source\<close>), the page a
  trap asks for (\<open>send_trap_alert\<close>) and the handling of one datagram (\<open>process_snmp_trap\<close>), which joins
  the decoder, the pager and the trap history.
\<close>

section \<open>Definitions\<close>

definition claims_address :: "string \<Rightarrow> hostinfo \<Rightarrow> bool" where
  "claims_address ip h = (h_trap_alert h \<and> (h_ipv4_str h = Some ip \<or> h_hostname h = ip))"

primrec find_source_loop :: "string \<Rightarrow> graph \<Rightarrow> nat option" where
  "find_source_loop ip [] = None"
| "find_source_loop ip (g # gs) =
     (case g_data g of
        None \<Rightarrow> map_option Suc (find_source_loop ip gs)
      | Some h \<Rightarrow> if claims_address ip h then Some 0 else map_option Suc (find_source_loop ip gs))"

definition find_trap_source :: "string option \<Rightarrow> graph \<Rightarrow> nat option" where
  "find_trap_source ip_string gs =
     (case ip_string of None \<Rightarrow> None | Some ip \<Rightarrow> find_source_loop ip gs)"

definition trap_page_text :: "hostinfo \<Rightarrow> string option \<Rightarrow> trap_content option \<Rightarrow> string" where
  "trap_page_text h source trap =
     (let src = (case source of Some s \<Rightarrow> s | None \<Rightarrow> ''an unknown address'')
      in case trap of
           Some t \<Rightarrow>
             if t_name t \<noteq> []
             then fit 4096 ((case h_message h of Some msg \<Rightarrow> msg @ '' - '' | None \<Rightarrow> []) @ ''SNMP trap '' @ t_name t @
                    '' ('' @ t_severity t @ '')'' @ (if t_iface t \<noteq> [] then '' on '' else []) @ t_iface t @
                    '' from '' @ src @ '': '' @ t_description t)
             else fit 4096 (''SNMP trap from '' @ src)
         | None \<Rightarrow> fit 4096 (''SNMP trap from '' @ src))"

record trap_daemon =
  td_graph :: graph
  td_seq :: u64
  td_effects :: "effect list"
  td_history :: trap_history

text \<open>\<open>page_someone\<close> never stores the message, so putting the old one back after it is the whole restoration.\<close>

definition send_trap_alert :: "page_env \<Rightarrow> int \<Rightarrow> nat \<Rightarrow> string option \<Rightarrow> trap_content option \<Rightarrow> trap_daemon \<Rightarrow> trap_daemon" where
  "send_trap_alert e now p source trap st =
     (case host_at (td_graph st) p of
        None \<Rightarrow> st
      | Some h \<Rightarrow>
          let (h1, seq1, eff) = page_someone e SYSM_SNMP_TRAP now (h\<lparr>h_message := Some (trap_page_text h source trap)\<rparr>) (td_seq st)
          in st\<lparr>td_graph := put_host p (h1\<lparr>h_message := h_message h\<rparr>) (td_graph st), td_seq := seq1,
               td_effects := td_effects st @ eff\<rparr>)"

text \<open>
  A datagram: its bytes, cut to the buffer by \<open>recvfrom\<close>, the sender's address in print (\<open>unknown\<close> when
  \<open>inet_ntop\<close> fails) and the surroundings at that moment. A failing \<open>recvfrom\<close> handles no datagram.
\<close>

record datagram =
  dg_bytes :: "byte list"
  dg_source :: string
  dg_now :: int
  dg_env :: page_env

definition arrival :: "datagram \<Rightarrow> graph \<Rightarrow> nat \<Rightarrow> trap_content \<Rightarrow> trap_arrival" where
  "arrival dg gs p trap =
     \<lparr>a_source = Some (dg_source dg), a_when = dg_now dg, a_bytes = int (length (take 4096 (dg_bytes dg))),
      a_content = Some trap, a_matched = Some (g_unique_name (gs ! p)), a_alert_enabled = True,
      a_alert_sent = t_alertable trap\<rparr>"

definition process_snmp_trap :: "datagram \<Rightarrow> trap_daemon \<Rightarrow> trap_daemon" where
  "process_snmp_trap dg st =
     (case find_trap_source (Some (dg_source dg)) (td_graph st) of
        None \<Rightarrow> st
      | Some p \<Rightarrow>
          (case decode_snmp_trap (take 4096 (dg_bytes dg)) of
             Got (r, trap) \<Rightarrow>
               let st1 = (if t_alertable trap
                          then send_trap_alert (dg_env dg) (dg_now dg) p (Some (dg_source dg)) (Some trap) st else st)
               in st1\<lparr>td_history := trap_history_add (arrival dg (td_graph st1) p trap) (td_history st1)\<rparr>
           | _ \<Rightarrow> st))"

section \<open>Who may send traps\<close>

lemma find_source_loop_Some:
  "find_source_loop ip gs = Some p \<Longrightarrow> \<exists>h. host_at gs p = Some h \<and> claims_address ip h"
proof (induction gs arbitrary: p)
  case (Cons g gs)
  have suc: "host_at (g # gs) (Suc q) = host_at gs q" for q by (simp add: host_at_def)
  from Cons show ?case
    by (cases "g_data g") (auto simp: suc split: if_splits, auto simp: host_at_def)
qed simp

lemma find_source_loop_None:
  "find_source_loop ip gs = None \<longleftrightarrow> (\<forall>p h. host_at gs p = Some h \<longrightarrow> \<not> claims_address ip h)"
proof (induction gs)
  case (Cons g gs)
  have suc: "host_at (g # gs) q = (case q of 0 \<Rightarrow> g_data g | Suc q' \<Rightarrow> host_at gs q')" for q
    by (simp add: host_at_def split: nat.split)
  have all: "(\<forall>p h. host_at (g # gs) p = Some h \<longrightarrow> \<not> claims_address ip h) \<longleftrightarrow>
      (\<forall>h. g_data g = Some h \<longrightarrow> \<not> claims_address ip h) \<and> (\<forall>p h. host_at gs p = Some h \<longrightarrow> \<not> claims_address ip h)"
    unfolding suc by (auto split: nat.splits)
  show ?case unfolding all using Cons by (cases "g_data g") auto
qed (simp add: host_at_def)

text \<open>An address some object with \<open>trap_alert\<close> claims.\<close>

definition allowed :: "graph \<Rightarrow> string \<Rightarrow> bool" where
  "allowed gs ip \<longleftrightarrow> (\<exists>p h. host_at gs p = Some h \<and> claims_address ip h)"

lemma find_trap_source_iff: "find_trap_source (Some ip) gs \<noteq> None \<longleftrightarrow> allowed gs ip"
  using find_source_loop_None[of ip gs] by (auto simp: find_trap_source_def allowed_def)

lemma page_someone_addresses:
  "h_ipv4_str (fst (page_someone e n now svc seq)) = h_ipv4_str svc"
  "h_hostname (fst (page_someone e n now svc seq)) = h_hostname svc"
  "h_trap_alert (fst (page_someone e n now svc seq)) = h_trap_alert svc"
  "h_message (fst (page_someone e n now svc seq)) = h_message svc"
  by (rule page_someone_cases [of e svc n]; simp)+

lemma send_trap_alert_at:
  assumes "host_at (td_graph st) p = Some h"
  obtains h' seq' eff where
    "send_trap_alert e now p source trap st =
       st\<lparr>td_graph := put_host p h' (td_graph st), td_seq := seq', td_effects := td_effects st @ eff\<rparr>"
    "claims_address ip h' = claims_address ip h" "h_message h' = h_message h" "h_contact_when h' = h_contact_when h"
    "eff = snd (snd (page_someone e SYSM_SNMP_TRAP now (h\<lparr>h_message := Some (trap_page_text h source trap)\<rparr>) (td_seq st)))"
proof -
  let ?h = "h\<lparr>h_message := Some (trap_page_text h source trap)\<rparr>"
  obtain h1 seq1 eff where r: "page_someone e SYSM_SNMP_TRAP now ?h (td_seq st) = (h1, seq1, eff)" by (metis prod_cases3)
  show thesis
  proof (rule that)
    show "send_trap_alert e now p source trap st =
       st\<lparr>td_graph := put_host p (h1\<lparr>h_message := h_message h\<rparr>) (td_graph st), td_seq := seq1, td_effects := td_effects st @ eff\<rparr>"
      by (simp add: send_trap_alert_def assms r)
    show "claims_address ip (h1\<lparr>h_message := h_message h\<rparr>) = claims_address ip h"
      using page_someone_addresses[of e SYSM_SNMP_TRAP now ?h "td_seq st"] by (simp add: r claims_address_def)
    show "h_contact_when (h1\<lparr>h_message := h_message h\<rparr>) = h_contact_when h"
      using page_someone_frame(11)[of e SYSM_SNMP_TRAP now ?h "td_seq st"] by (simp add: r)
  qed (simp_all add: r)
qed

lemma find_trap_source_host:
  assumes "find_trap_source (Some ip) gs = Some p"
  obtains h where "host_at gs p = Some h" "claims_address ip h"
  using assms find_source_loop_Some[of ip gs p] that by (auto simp: find_trap_source_def)

lemma allowed_put:
  assumes "host_at gs p = Some h" "claims_address ip h' = claims_address ip h"
  shows "allowed (put_host p h' gs) ip = allowed gs ip"
proof -
  have "(\<exists>h. host_at (put_host p h' gs) q = Some h \<and> claims_address ip h) \<longleftrightarrow>
      (\<exists>h. host_at gs q = Some h \<and> claims_address ip h)" for q
    using assms host_at_bound[OF assms(1)] by (cases "q = p") (simp_all add: host_at_put)
  then show ?thesis by (simp add: allowed_def)
qed

lemma process_snmp_trap_allowed: "allowed (td_graph (process_snmp_trap dg st)) ip = allowed (td_graph st) ip"
proof (cases "find_trap_source (Some (dg_source dg)) (td_graph st)")
  case None
  then show ?thesis by (simp add: process_snmp_trap_def)
next
  case (Some p)
  obtain h where h: "host_at (td_graph st) p = Some h" using find_trap_source_host[OF Some] .
  have "allowed (td_graph (send_trap_alert e now p src tr st)) ip = allowed (td_graph st) ip" for e now src tr
    by (rule send_trap_alert_at[OF h, of e now src tr ip]) (simp add: allowed_put[OF h])
  with Some show ?thesis by (auto simp: process_snmp_trap_def Let_def split: outcome.split)
qed

lemma stranger_ignored: "\<not> allowed (td_graph st) (dg_source dg) \<Longrightarrow> process_snmp_trap dg st = st"
  using find_trap_source_iff[of "dg_source dg" "td_graph st"] by (simp add: process_snmp_trap_def)

lemma fold_allowed: "allowed (td_graph (fold process_snmp_trap dgs st)) ip = allowed (td_graph st) ip"
  by (induction dgs arbitrary: st) (simp_all add: process_snmp_trap_allowed)

text \<open>
  C13. Datagrams from strangers have no effect at all. In any sequence of datagrams on the trap port,
  those whose sender's address no object with \<open>trap_alert\<close> claims can be left out without changing the
  trap history, the objects, the pages or anything else, now or later: a flood of forged packets
  cannot push real traps out of the history.
\<close>

theorem trap_strangers_ignored:
  "fold process_snmp_trap dgs st =
     fold process_snmp_trap (filter (\<lambda>dg. \<exists>p h. host_at (td_graph st) p = Some h \<and> h_trap_alert h \<and>
        (h_ipv4_str h = Some (dg_source dg) \<or> h_hostname h = dg_source dg)) dgs) st"
proof -
  have "fold process_snmp_trap dgs st = fold process_snmp_trap (filter (\<lambda>dg. allowed gs (dg_source dg)) dgs) st"
    if "\<And>ip. allowed gs ip = allowed (td_graph st) ip" for gs st
    using that
  proof (induction dgs arbitrary: st)
    case (Cons dg dgs)
    show ?case
      using Cons.IH[of "process_snmp_trap dg st"] Cons.IH[of st] Cons.prems stranger_ignored[of st dg]
      by (simp add: process_snmp_trap_allowed)
  qed simp
  from this[of "td_graph st" st] show ?thesis by (simp add: allowed_def claims_address_def)
qed

text \<open>
  Every datagram from a configured sender is recorded: it becomes the newest entry of the trap
  history, with its sender, its size, the decoded content and the name of the first object that
  claims the address; the object keeps its configured message.
\<close>

theorem trap_recorded:
  assumes "find_trap_source (Some (dg_source dg)) (td_graph st) = Some p" "trap_history_wf (td_history st)"
  shows "\<exists>r trap. decode_snmp_trap (take 4096 (dg_bytes dg)) = Got (r, trap) \<and>
     trap_history_get 0 (td_history (process_snmp_trap dg st)) =
       Some (trap_history_entry (arrival dg (td_graph st) p trap) (td_history st)) \<and>
     map_option h_message (host_at (td_graph (process_snmp_trap dg st)) p) = map_option h_message (host_at (td_graph st) p)"
proof -
  obtain h where h: "host_at (td_graph st) p = Some h" using find_trap_source_host[OF assms(1)] .
  obtain r trap where d: "decode_snmp_trap (take 4096 (dg_bytes dg)) = Got (r, trap)"
    using decode_snmp_trap_reports[of "take 4096 (dg_bytes dg)"] by (auto simp: reports_def)
  obtain h' seq' eff where a: "send_trap_alert (dg_env dg) (dg_now dg) p (Some (dg_source dg)) (Some trap) st =
       st\<lparr>td_graph := put_host p h' (td_graph st), td_seq := seq', td_effects := td_effects st @ eff\<rparr>"
    and m: "h_message h' = h_message h"
    using send_trap_alert_at[OF h] by metis
  have p: "p < length (td_graph st)" using host_at_bound[OF h] .
  have arr: "arrival dg (put_host p h' (td_graph st)) p trap = arrival dg (td_graph st) p trap"
    using p by (simp add: arrival_def name_put)
  let ?add = "trap_history_add (arrival dg (td_graph st) p trap) (td_history st)"
  have hist: "td_history (process_snmp_trap dg st) = ?add"
    by (simp add: process_snmp_trap_def assms(1) d a arr Let_def)
  have "trap_held ?add = take 128 (trap_history_entry (arrival dg (td_graph st) p trap) (td_history st) # trap_held (td_history st))"
    using traps.held_adds[OF assms(2), of "[arrival dg (td_graph st) p trap]"] by simp
  moreover have "trap_history_wf ?add" using traps.inv_adds[OF assms(2), of "[arrival dg (td_graph st) p trap]"] by simp
  ultimately have "trap_history_get 0 ?add = Some (trap_history_entry (arrival dg (td_graph st) p trap) (td_history st))"
    by (simp add: trap_history_get_held)
  moreover have "map_option h_message (host_at (td_graph (process_snmp_trap dg st)) p) = map_option h_message (host_at (td_graph st) p)"
    using m h p by (simp add: process_snmp_trap_def assms(1) d a Let_def host_at_put)
  ultimately show ?thesis using d hist by (intro exI[of _ r] exI[of _ trap]) simp
qed

text \<open>
  A trap is never delivered to anybody, yet recorded as alerted. An object's contacts take failure
  messages, recovery messages or both, values 1 to 3 of \<open>contact_when\<close>, and the pager is called with
  \<open>SYSM_SNMP_TRAP\<close>, whose bits are none of these: no datagram makes the pager tell anybody, while the
  history entry of an alertable trap says the alert was sent.
\<close>

theorem trap_never_delivered:
  assumes "find_trap_source (Some (dg_source dg)) (td_graph st) = Some p" "host_at (td_graph st) p = Some h"
    "h_contact_when h \<in> {0, SYSM_CONTACT_DOWN, SYSM_CONTACT_UP, 3}"
    "decode_snmp_trap (take 4096 (dg_bytes dg)) = Got (r, trap)" "t_alertable trap" "trap_history_wf (td_history st)"
  shows "filter told (td_effects (process_snmp_trap dg st)) = filter told (td_effects st) \<and>
     map_option r_alert_sent (trap_history_get 0 (td_history (process_snmp_trap dg st))) = Some True"
proof -
  have nw: "\<not> wants h SYSM_SNMP_TRAP" using assms(3) by (auto simp: wants_def)
  obtain h' seq' eff where a: "send_trap_alert (dg_env dg) (dg_now dg) p (Some (dg_source dg)) (Some trap) st =
       st\<lparr>td_graph := put_host p h' (td_graph st), td_seq := seq', td_effects := td_effects st @ eff\<rparr>"
    and eff: "eff = snd (snd (page_someone (dg_env dg) SYSM_SNMP_TRAP (dg_now dg)
      (h\<lparr>h_message := Some (trap_page_text h (Some (dg_source dg)) (Some trap))\<rparr>) (td_seq st)))"
    using send_trap_alert_at[OF assms(2)] by metis
  have "\<not> reaches (dg_env dg) (h\<lparr>h_message := Some (trap_page_text h (Some (dg_source dg)) (Some trap))\<rparr>) SYSM_SNMP_TRAP"
    using nw by (simp add: reaches_def wants_def)
  then have none: "filter told eff = []" unfolding eff by (rule page_someone_not_told)
  let ?a = "arrival dg (put_host p h' (td_graph st)) p trap"
  have "trap_held (trap_history_add ?a (td_history st)) = take 128 (trap_history_entry ?a (td_history st) # trap_held (td_history st))"
    using traps.held_adds[OF assms(6), of "[?a]"] by simp
  moreover have "trap_history_wf (trap_history_add ?a (td_history st))"
    using traps.inv_adds[OF assms(6), of "[?a]"] by simp
  ultimately have "trap_history_get 0 (trap_history_add ?a (td_history st)) = Some (trap_history_entry ?a (td_history st))"
    by (simp add: trap_history_get_held)
  then show ?thesis
    using none assms(5) by (simp add: process_snmp_trap_def assms(1,4) a Let_def trap_history_entry_def arrival_def)
qed

section \<open>Witnesses\<close>

definition trap_host :: hostinfo where
  "trap_host = zero_host\<lparr>h_hostname := ''r1'', h_ipv4_str := Some ''192.0.2.1'', h_trap_alert := True,
     h_contact_when := SYSM_CONTACT_DOWN\<rparr>"

definition trap_start :: trap_daemon where
  "trap_start = \<lparr>td_graph = one_object trap_host, td_seq = 0, td_effects = [], td_history = trap_history_init\<rparr>"

definition v3_packet :: datagram where
  "v3_packet = \<lparr>dg_bytes = [0x30, 3, 2, 1, 3], dg_source = ''192.0.2.1'', dg_now = 5, dg_env = quiet_env\<rparr>"

lemma trap_start_source: "find_trap_source (Some (dg_source v3_packet)) (td_graph trap_start) = Some 0"
  by (simp add: find_trap_source_def trap_start_def v3_packet_def one_object_def claims_address_def trap_host_def)

lemma v3_packet_alertable:
  "\<exists>trap. decode_snmp_trap (take 4096 (dg_bytes v3_packet)) = Got (False, trap) \<and> t_alertable trap"
proof -
  have pkt: "take 4096 (dg_bytes v3_packet) = tlv 0x30 (tlv 2 [3])"
    by (simp add: v3_packet_def tlv_def tlv_header_def)
  have 1: "take_tlv (snmp_ber_open (tlv 0x30 (tlv 2 [3]))) (\<lambda>t. t = BER_SEQUENCE) out k =
      k 0x30 (tlv 2 [3]) (advance (snmp_ber_open (tlv 0x30 (tlv 2 [3]))) (length (tlv 0x30 (tlv 2 [3]))))" for out k
    by (rule take_tlv_reads[where rest = "[]"]) (simp_all add: tlv_def tlv_header_def)
  have 2: "take_tlv (snmp_ber_open (tlv 2 [3])) (\<lambda>t. t = BER_INTEGER) out k =
      k 2 [3] (advance (snmp_ber_open (tlv 2 [3])) (length (tlv 2 [3])))" for out k
    by (rule take_tlv_reads[where rest = "[]"]) simp_all
  have v: "to_int32 (snmp_ber_int [3]) = 3" by (simp add: snmp_ber_int_def to_int32_def)
  have ne: "tlv 0x30 (tlv 2 [3]) \<noteq> []" by (simp add: tlv_def tlv_header_def)
  show ?thesis unfolding pkt decode_snmp_trap_def 1 2 using v ne by (simp add: Let_def)
qed

lemma trap_start_wf: "trap_history_wf (td_history trap_start)"
  by (simp add: trap_start_def trap_history_wf_init)

theorem trap_recorded_witness:
  "map_option r_source (trap_history_get 0 (td_history (process_snmp_trap v3_packet trap_start))) = Some ''192.0.2.1''"
proof -
  obtain trap where "trap_history_get 0 (td_history (process_snmp_trap v3_packet trap_start)) =
      Some (trap_history_entry (arrival v3_packet (td_graph trap_start) 0 trap) (td_history trap_start))"
    using trap_recorded[OF trap_start_source trap_start_wf] by blast
  then show ?thesis by (simp add: trap_history_entry_def arrival_def v3_packet_def fit_def)
qed

theorem trap_never_delivered_witness:
  "map_option r_alert_sent (trap_history_get 0 (td_history (process_snmp_trap v3_packet trap_start))) = Some True \<and>
   filter told (td_effects (process_snmp_trap v3_packet trap_start)) = []"
proof -
  have h: "host_at (td_graph trap_start) 0 = Some trap_host" by (simp add: trap_start_def host_at_one)
  have cw: "h_contact_when trap_host \<in> {0, SYSM_CONTACT_DOWN, SYSM_CONTACT_UP, 3}" by (simp add: trap_host_def)
  obtain trap where d: "decode_snmp_trap (take 4096 (dg_bytes v3_packet)) = Got (False, trap)" "t_alertable trap"
    using v3_packet_alertable by blast
  from trap_never_delivered[OF trap_start_source h cw d trap_start_wf] show ?thesis by (simp add: trap_start_def)
qed

end
