(* ===== verification/Save_State.thy ===== *)
theory Save_State
  imports Check_Queue Ber_Reader
begin

text \<open>
  The checkpoint of savestate.c: writing the state of every object to a file, atomically and every
  ten minutes, and putting it back on the objects of a freshly loaded configuration. Files are
  texts; whether the system calls succeed is an argument of the operations.
\<close>

abbreviation (input) NEWLINE :: char where "NEWLINE \<equiv> CHR 0x0A"
abbreviation (input) STATE_MAX_AGE :: int where "STATE_MAX_AGE \<equiv> 43200"
abbreviation (input) STATE_CHECKPOINT_SECS :: int where "STATE_CHECKPOINT_SECS \<equiv> 600"

section \<open>Writing\<close>

type_synonym files = "string \<Rightarrow> string option"

definition bool_digit :: "bool \<Rightarrow> string" where
  "bool_digit b = (if b then ''1'' else ''0'')"

text \<open>The pairs of one line in order, and the line.\<close>

definition state_pairs :: "hostinfo \<Rightarrow> (string \<times> string) list" where
  "state_pairs d =
     [(''lastcheck'', dec_string (unat (h_lastcheck d))), (''downct'', dec_string (unat (h_downct d))),
      (''upct'', dec_string (unat (h_upct d))), (''totalchecked'', dec_string (unat (h_totalchecked d))),
      (''totaldown'', dec_string (unat (h_totaldown d))), (''contacted'', bool_digit (h_contacted d)),
      (''acked'', bool_digit (h_acked d)), (''lastcontacted'', int_string (h_lastcontacted d)),
      (''deathtime'', int_string (h_deathtime d)), (''last_up'', int_string (h_last_up d)),
      (''last_recovery'', int_string (h_last_recovery d))]"

definition state_line :: "string \<Rightarrow> hostinfo \<Rightarrow> string" where
  "state_line name d =
     concat (map (\<lambda>(k, v). k @ ''='' @ v @ '' '') (state_pairs d)) @ ''name='' @ name @ [NEWLINE]"

definition state_header :: "int \<Rightarrow> nat \<Rightarrow> string" where
  "state_header now objects = ''sysmon-state 1 '' @ int_string now @ '' '' @ dec_string objects @ [NEWLINE]"

definition state_text :: "int \<Rightarrow> graph \<Rightarrow> string" where
  "state_text now gs =
     state_header now (length gs) @
     concat (map (\<lambda>g. case g_data g of None \<Rightarrow> [] | Some d \<Rightarrow> state_line (g_unique_name g) d) gs)"

record write_calls =
  fopen_ok :: bool
  fclose_ok :: bool
  rename_ok :: bool

definition write_state :: "write_calls \<Rightarrow> int \<Rightarrow> string option \<Rightarrow> graph \<Rightarrow> files \<Rightarrow> int \<times> files" where
  "write_state c now path gs fs =
     (case path of None \<Rightarrow> (- 1, fs)
      | Some p \<Rightarrow>
         if p = [] then (- 1, fs)
         else let tmp = fit 4104 (p @ ''.new'') in
           if \<not> fopen_ok c then (- 1, fs)
           else let fs1 = fs(tmp \<mapsto> state_text now gs) in
             if \<not> fclose_ok c then (- 1, fs1(tmp := None))
             else if \<not> rename_ok c then (- 1, fs1(tmp := None))
             else (int (length gs), (fs1(p := fs1 tmp))(tmp := None)))"

text \<open>The static variable \<open>last\<close> goes in and comes out.\<close>

definition checkpoint_state :: "write_calls \<Rightarrow> int \<Rightarrow> string option \<Rightarrow> graph \<Rightarrow> int \<times> files \<Rightarrow> int \<times> files" where
  "checkpoint_state c now path gs = (\<lambda>(last, fs).
     if path = None \<or> path = Some [] then (last, fs)
     else if last = 0 \<or> now < last then (now, fs)
     else if now - last < STATE_CHECKPOINT_SECS then (last, fs)
     else (now, snd (write_state c now path gs fs)))"

section \<open>Reading\<close>

text \<open>A field is \<open>None\<close> while its bit of \<open>seen\<close> is not set.\<close>

record saved_state =
  v_name :: "string option"
  v_lastcheck :: "u32 option"
  v_downct :: "u64 option"
  v_upct :: "u64 option"
  v_totalchecked :: "u64 option"
  v_totaldown :: "u64 option"
  v_contacted :: "bool option"
  v_acked :: "bool option"
  v_lastcontacted :: "int option"
  v_deathtime :: "int option"
  v_last_up :: "int option"
  v_last_recovery :: "int option"

definition empty_saved :: saved_state where
  "empty_saved =
     \<lparr>v_name = None, v_lastcheck = None, v_downct = None, v_upct = None, v_totalchecked = None, v_totaldown = None,
      v_contacted = None, v_acked = None, v_lastcontacted = None, v_deathtime = None, v_last_up = None,
      v_last_recovery = None\<rparr>"

text \<open>
  What \<open>next_pair\<close> stores in \<open>key\<close> and \<open>val\<close>, if it stores anything, and where it goes on.
\<close>

definition next_pair :: "string \<Rightarrow> (string \<times> string) option \<times> string option" where
  "next_pair p0 =
     (let p = dropWhile (\<lambda>c. c = CHR '' '' \<or> c = CHR 0x09) p0 in
      if p = [] \<or> CHR ''='' \<notin> set p then (None, None)
      else let key = takeWhile (\<lambda>c. c \<noteq> CHR ''='') p; rest = tl (dropWhile (\<lambda>c. c \<noteq> CHR ''='') p) in
        if key = ''name'' then (Some (key, rest), None)
        else if CHR '' '' \<in> set rest
             then (Some (key, takeWhile (\<lambda>c. c \<noteq> CHR '' '') rest), Some (tl (dropWhile (\<lambda>c. c \<noteq> CHR '' '') rest)))
             else (Some (key, rest), None))"

definition store_pair :: "string \<Rightarrow> string \<Rightarrow> saved_state \<Rightarrow> saved_state" where
  "store_pair key val s =
     (if key = ''name'' then s\<lparr>v_name := Some val\<rparr>
      else if key = ''lastcheck'' then s\<lparr>v_lastcheck := Some (of_nat (strtoul val))\<rparr>
      else if key = ''downct'' then s\<lparr>v_downct := Some (of_nat (strtoul val))\<rparr>
      else if key = ''upct'' then s\<lparr>v_upct := Some (of_nat (strtoul val))\<rparr>
      else if key = ''totalchecked'' then s\<lparr>v_totalchecked := Some (of_nat (strtoul val))\<rparr>
      else if key = ''totaldown'' then s\<lparr>v_totaldown := Some (of_nat (strtoul val))\<rparr>
      else if key = ''contacted'' then s\<lparr>v_contacted := Some (strtol val \<noteq> 0)\<rparr>
      else if key = ''acked'' then s\<lparr>v_acked := Some (strtol val \<noteq> 0)\<rparr>
      else if key = ''lastcontacted'' then s\<lparr>v_lastcontacted := Some (strtol val)\<rparr>
      else if key = ''deathtime'' then s\<lparr>v_deathtime := Some (strtol val)\<rparr>
      else if key = ''last_up'' then s\<lparr>v_last_up := Some (strtol val)\<rparr>
      else if key = ''last_recovery'' then s\<lparr>v_last_recovery := Some (strtol val)\<rparr>
      else s)"

lemma next_pair_shorter: "next_pair p = (upd, Some p') \<Longrightarrow> length p' < length p"
proof -
  assume a: "next_pair p = (upd, Some p')"
  define q where "q = dropWhile (\<lambda>c. c = CHR '' '' \<or> c = CHR 0x09) p"
  define r where "r = tl (dropWhile (\<lambda>c. c \<noteq> CHR ''='') q)"
  have p': "p' = tl (dropWhile (\<lambda>c. c \<noteq> CHR '' '') r)" "q \<noteq> []"
    using a by (auto simp: next_pair_def Let_def q_def r_def split: if_splits)
  have "length p' \<le> length r" using length_dropWhile_le[of "\<lambda>c. c \<noteq> CHR '' ''" r] p'(1) by simp
  also have "length r \<le> length (dropWhile (\<lambda>c. c \<noteq> CHR ''='') q) - 1" by (simp add: r_def)
  also have "\<dots> \<le> length q - 1" using length_dropWhile_le by (intro diff_le_mono)
  also have "\<dots> < length q" using p'(2) by simp
  also have "length q \<le> length p" unfolding q_def by (rule length_dropWhile_le)
  finally show ?thesis .
qed

text \<open>
  The loop over the pairs of a line. \<open>kv\<close> is what \<open>key\<close> and \<open>val\<close> hold: nothing at first, since they
  are not initialised, and the last pair when \<open>next_pair\<close> stores none. Reading them unset is a \<open>Fault\<close>.
\<close>

function pair_loop :: "string \<Rightarrow> (string \<times> string) option \<Rightarrow> saved_state \<Rightarrow> saved_state outcome" where
  "pair_loop p kv s =
     (case next_pair p of (upd, nxt) \<Rightarrow>
        (case (case upd of None \<Rightarrow> kv | Some _ \<Rightarrow> upd) of
           None \<Rightarrow> Fault
         | Some (key, val) \<Rightarrow>
             (case nxt of
                None \<Rightarrow> Got (store_pair key val s)
              | Some p' \<Rightarrow> pair_loop p' (Some (key, val)) (store_pair key val s))))"
  by pat_completeness auto
termination by (relation "measure (\<lambda>(p, _, _). length p)") (auto dest!: next_pair_shorter[OF sym])

declare pair_loop.simps [simp del]

function read_loop :: "string \<Rightarrow> saved_state list \<Rightarrow> saved_state list outcome" where
  "read_loop file head =
     (if file = [] then Got head
      else case fgets 4095 file of (raw, rest) \<Rightarrow>
        let line = takeWhile (\<lambda>c. c \<noteq> NEWLINE) raw in
        if line = [] then read_loop rest head
        else (case pair_loop line None empty_saved of
                Got s \<Rightarrow> read_loop rest (if v_name s = None then head else s # head)
              | Reject \<Rightarrow> Reject
              | Fault \<Rightarrow> Fault))"
  by pat_completeness auto
termination by (relation "measure (\<lambda>(s, _). length s)") (auto dest!: fgets_shorter[OF sym])

declare read_loop.simps [simp del]

text \<open>One conversion of \<open>sscanf\<close>: the number, or nothing when there are no digits, and the rest.\<close>

definition scan_conv :: "string \<Rightarrow> (int \<times> string) option" where
  "scan_conv s =
     (case scan_number s of (neg, ds, rest) \<Rightarrow>
        if ds = [] then None
        else let v = (if neg then - int (digits_val 0 ds) else int (digits_val 0 ds))
             in Some (if v > LONG_MAX then LONG_MAX else if v < LONG_MIN then LONG_MIN else v, rest))"

text \<open>\<open>sscanf(line, STATE_MAGIC " %d %lld %lu", ...) != 3\<close> is \<open>None\<close>; the count is not used.\<close>

definition scan_header :: "string \<Rightarrow> (int \<times> int) option" where
  "scan_header line =
     (if take 12 line \<noteq> ''sysmon-state'' then None
      else case scan_conv (drop 12 line) of None \<Rightarrow> None
           | Some (version, r1) \<Rightarrow>
               (case scan_conv r1 of None \<Rightarrow> None
                | Some (written, r2) \<Rightarrow>
                    if no_conversion r2 then None else Some (to_int32 version, written)))"

definition read_state :: "string option \<Rightarrow> int \<Rightarrow> saved_state list outcome" where
  "read_state file now =
     (case file of None \<Rightarrow> Got []
      | Some f \<Rightarrow>
          (case fgets 4095 f of (line, rest) \<Rightarrow>
             if line = [] then Got []
             else (case scan_header line of None \<Rightarrow> Got []
                   | Some (version, written) \<Rightarrow>
                       if version \<noteq> 1 then Got []
                       else if now - written > STATE_MAX_AGE then Got []
                       else read_loop rest [])))"

definition restore :: "saved_state \<Rightarrow> hostinfo \<Rightarrow> hostinfo" where
  "restore s h =
     h\<lparr>h_lastcheck := (case v_lastcheck s of Some x \<Rightarrow> x | None \<Rightarrow> h_lastcheck h),
       h_downct := (case v_downct s of Some x \<Rightarrow> x | None \<Rightarrow> h_downct h),
       h_upct := (case v_upct s of Some x \<Rightarrow> x | None \<Rightarrow> h_upct h),
       h_totalchecked := (case v_totalchecked s of Some x \<Rightarrow> x | None \<Rightarrow> h_totalchecked h),
       h_totaldown := (case v_totaldown s of Some x \<Rightarrow> x | None \<Rightarrow> h_totaldown h),
       h_contacted := (case v_contacted s of Some x \<Rightarrow> x | None \<Rightarrow> h_contacted h),
       h_acked := (case v_acked s of Some x \<Rightarrow> x | None \<Rightarrow> h_acked h),
       h_lastcontacted := (case v_lastcontacted s of Some x \<Rightarrow> x | None \<Rightarrow> h_lastcontacted h),
       h_deathtime := (case v_deathtime s of Some x \<Rightarrow> x | None \<Rightarrow> h_deathtime h),
       h_last_up := (case v_last_up s of Some x \<Rightarrow> x | None \<Rightarrow> h_last_up h),
       h_last_recovery := (case v_last_recovery s of Some x \<Rightarrow> x | None \<Rightarrow> h_last_recovery h)\<rparr>"

definition load_object :: "saved_state list \<Rightarrow> graph_element \<Rightarrow> graph_element" where
  "load_object saved g =
     (case g_data g of None \<Rightarrow> g
      | Some d \<Rightarrow>
          (case find (\<lambda>s. v_name s = Some (g_unique_name g)) saved of
             None \<Rightarrow> g
           | Some s \<Rightarrow> g\<lparr>g_data := Some (restore s d)\<rparr>))"

definition load_state :: "string option \<Rightarrow> int \<Rightarrow> files \<Rightarrow> graph \<Rightarrow> graph outcome" where
  "load_state path now fs gs =
     (case path of None \<Rightarrow> Got gs
      | Some p \<Rightarrow>
         if p = [] \<or> gs = [] then Got gs
         else (case read_state (fs p) now of
                 Got saved \<Rightarrow> Got (map (load_object saved) gs)
               | Reject \<Rightarrow> Reject
               | Fault \<Rightarrow> Fault))"

section \<open>Lines come back\<close>

definition plain_text :: "string \<Rightarrow> bool" where
  "plain_text s \<longleftrightarrow> (\<forall>c\<in>set s. c \<noteq> CHR '' '' \<and> c \<noteq> CHR ''='' \<and> c \<noteq> NEWLINE \<and> c \<noteq> CHR 0x09)"

lemma pair_loop_step:
  assumes "plain_text k" "k \<noteq> []" "k \<noteq> ''name''" "\<forall>c\<in>set v. c \<noteq> CHR '' ''"
  shows "pair_loop (k @ ''='' @ v @ '' '' @ rest) kv s = pair_loop rest (Some (k, v)) (store_pair k v s)"
proof -
  obtain c cs where k: "k = c # cs" using assms(2) by (cases k) auto
  have d: "dropWhile (\<lambda>c. c = CHR '' '' \<or> c = CHR 0x09) (k @ ''='' @ v @ '' '' @ rest) = k @ ''='' @ v @ '' '' @ rest"
    using assms(1) by (simp add: k plain_text_def)
  have tk: "takeWhile (\<lambda>c. c \<noteq> CHR ''='') (k @ ''='' @ v @ '' '' @ rest) = k"
    "dropWhile (\<lambda>c. c \<noteq> CHR ''='') (k @ ''='' @ v @ '' '' @ rest) = ''='' @ v @ '' '' @ rest"
    using assms(1) by (auto simp: plain_text_def takeWhile_append dropWhile_append)
  have tv: "takeWhile (\<lambda>c. c \<noteq> CHR '' '') (v @ '' '' @ rest) = v"
    "dropWhile (\<lambda>c. c \<noteq> CHR '' '') (v @ '' '' @ rest) = '' '' @ rest"
    using assms(4) by (auto simp: takeWhile_append dropWhile_append)
  have "next_pair (k @ ''='' @ v @ '' '' @ rest) = (Some (k, v), Some rest)"
    unfolding next_pair_def Let_def d tk using assms(2,3) tv by simp
  then show ?thesis by (subst pair_loop.simps) simp
qed

lemma pair_loop_name: "pair_loop (''name='' @ nm) kv s = Got (store_pair ''name'' nm s)"
proof -
  have "next_pair (''name='' @ nm) = (Some (''name'', nm), None)" by (simp add: next_pair_def Let_def)
  then show ?thesis by (subst pair_loop.simps) simp
qed

lemma pair_loop_pairs:
  assumes "\<forall>(k, v)\<in>set kvs. plain_text k \<and> k \<noteq> [] \<and> k \<noteq> ''name'' \<and> (\<forall>c\<in>set v. c \<noteq> CHR '' '')"
  shows "pair_loop (concat (map (\<lambda>(k, v). k @ ''='' @ v @ '' '') kvs) @ ''name='' @ nm) kv s =
     Got (store_pair ''name'' nm (fold (\<lambda>(k, v). store_pair k v) kvs s))"
  using assms
proof (induction kvs arbitrary: kv s)
  case Nil
  then show ?case using pair_loop_name by simp
next
  case (Cons x kvs)
  obtain k v where x: "x = (k, v)" by fastforce
  have st: "pair_loop (k @ ''='' @ v @ '' '' @ rest) kv s = pair_loop rest (Some (k, v)) (store_pair k v s)" for rest
    by (rule pair_loop_step) (use Cons.prems x in auto)
  have "concat (map (\<lambda>(k, v). k @ ''='' @ v @ '' '') (x # kvs)) @ ''name='' @ nm =
      k @ ''='' @ v @ '' '' @ (concat (map (\<lambda>(k, v). k @ ''='' @ v @ '' '') kvs) @ ''name='' @ nm)"
    by (simp add: x)
  with st Cons.IH[of "Some (k, v)" "store_pair k v s"] Cons.prems show ?case by (simp only:) (simp add: x)
qed

text \<open>What reading a written line gives.\<close>

definition saved_of :: "string \<Rightarrow> hostinfo \<Rightarrow> saved_state" where
  "saved_of name d =
     \<lparr>v_name = Some name, v_lastcheck = Some (h_lastcheck d), v_downct = Some (h_downct d), v_upct = Some (h_upct d),
      v_totalchecked = Some (h_totalchecked d), v_totaldown = Some (h_totaldown d), v_contacted = Some (h_contacted d),
      v_acked = Some (h_acked d), v_lastcontacted = Some (h_lastcontacted d), v_deathtime = Some (h_deathtime d),
      v_last_up = Some (h_last_up d), v_last_recovery = Some (h_last_recovery d)\<rparr>"

definition is_time :: "int \<Rightarrow> bool" where
  "is_time t \<longleftrightarrow> LONG_MIN \<le> t \<and> t \<le> LONG_MAX"

definition times_ok :: "hostinfo \<Rightarrow> bool" where
  "times_ok d \<longleftrightarrow> is_time (h_lastcontacted d) \<and> is_time (h_deathtime d) \<and> is_time (h_last_up d) \<and> is_time (h_last_recovery d)"

lemma strtoul_word: "of_nat (strtoul (dec_string (unat (w :: u64)))) = w"
proof -
  have "unat w < 2 ^ LENGTH(64)" by (rule unsigned_less)
  then show ?thesis by (simp add: strtoul_dec_string)
qed

lemma strtoul_word32: "of_nat (strtoul (dec_string (unat (w :: u32)))) = w"
proof -
  have "unat w < 2 ^ LENGTH(32)" by (rule unsigned_less)
  then show ?thesis by (simp add: strtoul_dec_string)
qed

lemma strtol_bool: "(strtol (bool_digit b) \<noteq> 0) = b"
proof -
  have "''1'' = int_string 1" "''0'' = int_string 0" by code_simp+
  moreover have "strtol (int_string 1) = 1" "strtol (int_string 0) = 0" by (simp_all add: strtol_int_string)
  ultimately show ?thesis by (simp add: bool_digit_def)
qed

lemma state_pairs_read:
  assumes "times_ok d"
  shows "store_pair ''name'' nm (fold (\<lambda>(k, v). store_pair k v) (state_pairs d) empty_saved) = saved_of nm d"
proof -
  have t: "strtol (int_string (h_lastcontacted d)) = h_lastcontacted d" "strtol (int_string (h_deathtime d)) = h_deathtime d"
    "strtol (int_string (h_last_up d)) = h_last_up d" "strtol (int_string (h_last_recovery d)) = h_last_recovery d"
    using assms by (simp_all add: times_ok_def is_time_def strtol_int_string)
  show ?thesis
    by (simp add: state_pairs_def store_pair_def empty_saved_def saved_of_def t strtoul_word strtoul_word32 strtol_bool)
qed

lemma bool_digit_plain: "c \<in> set (bool_digit b) \<Longrightarrow> c \<noteq> CHR '' '' \<and> c \<noteq> NEWLINE"
  by (auto simp: bool_digit_def split: if_splits)

lemma state_pairs_plain:
  "\<forall>(k, v)\<in>set (state_pairs d). plain_text k \<and> k \<noteq> [] \<and> k \<noteq> ''name'' \<and> (\<forall>c\<in>set v. c \<noteq> CHR '' '' \<and> c \<noteq> NEWLINE)"
  using dec_string_plain int_string_plain bool_digit_plain by (auto simp: state_pairs_def plain_text_def)

text \<open>Objects the format can carry: the name has no newline and the line fits the buffer.\<close>

definition line_ok :: "string \<Rightarrow> hostinfo \<Rightarrow> bool" where
  "line_ok name d \<longleftrightarrow> NEWLINE \<notin> set name \<and> length (state_line name d) < 4096 \<and> times_ok d"

lemma state_line_split:
  "\<exists>l. state_line name d = l @ [NEWLINE] \<and> l = concat (map (\<lambda>(k, v). k @ ''='' @ v @ '' '') (state_pairs d)) @ ''name='' @ name"
  by (simp add: state_line_def)

lemma pairs_no_newline: "NEWLINE \<notin> set (concat (map (\<lambda>(k, v). k @ ''='' @ v @ '' '') (state_pairs d)))"
proof
  assume "NEWLINE \<in> set (concat (map (\<lambda>(k, v). k @ ''='' @ v @ '' '') (state_pairs d)))"
  then obtain k v where kv: "(k, v) \<in> set (state_pairs d)" and nl: "NEWLINE \<in> set (k @ ''='' @ v @ '' '')" by auto
  have "plain_text k \<and> k \<noteq> [] \<and> k \<noteq> ''name'' \<and> (\<forall>c\<in>set v. c \<noteq> CHR '' '' \<and> c \<noteq> NEWLINE)"
    using bspec[OF state_pairs_plain kv] by simp
  with nl show False by (auto simp: plain_text_def)
qed

lemma read_loop_line:
  assumes "line_ok name d"
  shows "read_loop (state_line name d @ rest) head = read_loop rest (saved_of name d # head)"
proof -
  define l where "l = concat (map (\<lambda>(k, v). k @ ''='' @ v @ '' '') (state_pairs d)) @ ''name='' @ name"
  have sl: "state_line name d = l @ [NEWLINE]" by (simp add: state_line_def l_def)
  have nn: "\<forall>c\<in>set l. c \<noteq> NEWLINE" using pairs_no_newline[of d] assms by (auto simp: l_def line_ok_def)
  have "length l < 4095" using assms sl by (simp add: line_ok_def)
  then have f: "fgets 4095 (l @ NEWLINE # rest) = (l @ [NEWLINE], rest)"
    using fgets_line[OF nn] by simp
  have tw: "takeWhile (\<lambda>c. c \<noteq> NEWLINE) (l @ [NEWLINE]) = l" using nn by (simp add: takeWhile_append)
  have "\<forall>(k, v)\<in>set (state_pairs d). plain_text k \<and> k \<noteq> [] \<and> k \<noteq> ''name'' \<and> (\<forall>c\<in>set v. c \<noteq> CHR '' '')"
    using state_pairs_plain[of d] by fastforce
  from pair_loop_pairs[OF this, of name None empty_saved] state_pairs_read[of d name] assms
  have pl: "pair_loop l None empty_saved = Got (saved_of name d)" by (simp add: l_def line_ok_def)
  have ne: "l \<noteq> []" "v_name (saved_of name d) \<noteq> None" by (simp_all add: l_def saved_of_def)
  show ?thesis
    by (subst read_loop.simps) (simp add: f sl tw pl ne Let_def)
qed

definition objects :: "graph \<Rightarrow> (string \<times> hostinfo) list" where
  "objects gs = map (\<lambda>g. (g_unique_name g, the (g_data g))) (filter (\<lambda>g. g_data g \<noteq> None) gs)"

lemma state_text_objects:
  "state_text now gs = state_header now (length gs) @ concat (map (\<lambda>(n, d). state_line n d) (objects gs))"
proof -
  have "concat (map (\<lambda>g. case g_data g of None \<Rightarrow> [] | Some d \<Rightarrow> state_line (g_unique_name g) d) gs) =
      concat (map (\<lambda>(n, d). state_line n d) (objects gs))"
    by (induction gs) (auto simp: objects_def)
  then show ?thesis by (simp add: state_text_def)
qed

lemma read_loop_lines:
  "\<forall>(n, d)\<in>set objs. line_ok n d \<Longrightarrow>
   read_loop (concat (map (\<lambda>(n, d). state_line n d) objs)) head = Got (rev (map (\<lambda>(n, d). saved_of n d) objs) @ head)"
proof (induction objs arbitrary: head)
  case Nil
  then show ?case by (subst read_loop.simps) simp
next
  case (Cons x objs)
  then show ?case by (cases x) (simp add: read_loop_line)
qed

lemma scan_number_front:
  assumes "r = [] \<or> \<not> is_digit (hd r)"
  shows "scan_number (CHR '' '' # dec_string n @ r) = (False, dec_string n, r)"
    "scan_number (CHR '' '' # CHR ''-'' # dec_string n @ r) = (True, dec_string n, r)"
proof -
  obtain c cs where c: "dec_string n = c # cs" "is_digit c" using dec_string_Cons by blast
  have r: "takeWhile is_digit r = []" "dropWhile is_digit r = r" using assms by (cases r; simp)+
  have tw: "takeWhile is_digit (dec_string n @ r) = dec_string n" "dropWhile is_digit (dec_string n @ r) = r"
    using dec_string_digits r by simp_all
  have sp: "is_space CHR '' ''" "\<not> is_space CHR ''-''" by (simp_all add: is_space_def)
  show "scan_number (CHR '' '' # dec_string n @ r) = (False, dec_string n, r)"
    using c tw sp digit_not_sign[of c] digit_not_space[of c] by (simp add: scan_number_def Let_def)
  show "scan_number (CHR '' '' # CHR ''-'' # dec_string n @ r) = (True, dec_string n, r)"
    using tw sp by (simp add: scan_number_def Let_def)
qed

lemma scan_conv_int:
  assumes "is_time i" "r = [] \<or> \<not> is_digit (hd r)"
  shows "scan_conv (CHR '' '' # int_string i @ r) = Some (i, r)"
  using assms scan_number_front[OF assms(2)]
  by (cases "i < 0") (simp_all add: scan_conv_def int_string_def digits_val_dec_string is_time_def)

lemma scan_header_written:
  assumes "is_time now"
  shows "scan_header (state_header now n) = Some (1, now)"
proof -
  have one: "''1'' = int_string 1" by code_simp
  have d: "drop 12 (state_header now n) = CHR '' '' # int_string 1 @ CHR '' '' # int_string now @ CHR '' '' # dec_string n @ [NEWLINE]"
    by (simp add: state_header_def flip: one)
  have nd: "\<not> is_digit CHR '' ''" "\<not> is_digit NEWLINE" by (simp_all add: is_digit_def)
  have "scan_conv (drop 12 (state_header now n)) = Some (1, CHR '' '' # int_string now @ CHR '' '' # dec_string n @ [NEWLINE])"
    unfolding d by (rule scan_conv_int) (simp_all add: is_time_def nd)
  moreover have "scan_conv (CHR '' '' # int_string now @ CHR '' '' # dec_string n @ [NEWLINE]) = Some (now, CHR '' '' # dec_string n @ [NEWLINE])"
    by (rule scan_conv_int[OF assms]) (simp add: nd)
  moreover have "\<not> no_conversion (CHR '' '' # dec_string n @ [NEWLINE])"
    using scan_number_front(1)[of "[NEWLINE]" n] by (simp add: no_conversion_def nd)
  moreover have "take 12 (state_header now n) = ''sysmon-state''" by (simp add: state_header_def)
  ultimately show ?thesis by (simp add: scan_header_def to_int32_def)
qed

text \<open>
  A line that has no pair at all makes the reader look at \<open>key\<close> and \<open>val\<close> before they are set.
\<close>

lemma junk_line_faults: "CHR ''='' \<notin> set line \<Longrightarrow> pair_loop line None s = Fault"
  by (subst pair_loop.simps) (auto simp: next_pair_def Let_def dest: set_dropWhileD)

section \<open>The round trip\<close>

text \<open>The fields a checkpoint carries over, from an object of the last run to one of this run.\<close>

definition carry :: "hostinfo \<Rightarrow> hostinfo \<Rightarrow> hostinfo" where
  "carry old h =
     h\<lparr>h_lastcheck := h_lastcheck old, h_downct := h_downct old, h_upct := h_upct old,
       h_totalchecked := h_totalchecked old, h_totaldown := h_totaldown old, h_contacted := h_contacted old,
       h_acked := h_acked old, h_lastcontacted := h_lastcontacted old, h_deathtime := h_deathtime old,
       h_last_up := h_last_up old, h_last_recovery := h_last_recovery old\<rparr>"

definition carry_object :: "graph \<Rightarrow> graph_element \<Rightarrow> graph_element" where
  "carry_object gs g =
     (case g_data g of None \<Rightarrow> g
      | Some h \<Rightarrow> (case map_of (objects gs) (g_unique_name g) of
                    None \<Rightarrow> g | Some d \<Rightarrow> g\<lparr>g_data := Some (carry d h)\<rparr>))"

lemma restore_saved: "restore (saved_of name d) h = carry d h"
  by (simp add: restore_def saved_of_def carry_def)

lemma find_saved_append:
  "find (\<lambda>s. v_name s = Some n) (xs @ ys) =
     (case find (\<lambda>s. v_name s = Some n) xs of Some s \<Rightarrow> Some s | None \<Rightarrow> find (\<lambda>s. v_name s = Some n) ys)"
  by (induction xs) simp_all

lemma find_saved_none: "n \<notin> fst ` set objs \<Longrightarrow> find (\<lambda>s. v_name s = Some n) (rev (map (\<lambda>(n, d). saved_of n d) objs)) = None"
  by (force simp: find_None_iff saved_of_def)

lemma find_saved:
  "distinct (map fst objs) \<Longrightarrow>
   find (\<lambda>s. v_name s = Some n) (rev (map (\<lambda>(n, d). saved_of n d) objs)) = map_option (saved_of n) (map_of objs n)"
proof (induction objs)
  case (Cons x objs)
  obtain m d where x: "x = (m, d)" by fastforce
  show ?case
  proof (cases "m = n")
    case True
    then have "n \<notin> fst ` set objs" using Cons.prems x by simp
    from find_saved_none[OF this] show ?thesis using True x by (simp add: find_saved_append saved_of_def)
  next
    case False
    then show ?thesis using Cons x by (simp add: find_saved_append saved_of_def split: option.split)
  qed
qed simp

lemma load_object_carry:
  "distinct (map fst (objects gs)) \<Longrightarrow>
   load_object (rev (map (\<lambda>(n, d). saved_of n d) (objects gs))) g = carry_object gs g"
  by (simp add: load_object_def carry_object_def find_saved restore_saved split: option.split)

lemma int_string_length: "is_time i \<Longrightarrow> length (int_string i) \<le> 21"
proof -
  assume i: "is_time i"
  have "nat \<bar>i\<bar> < 10 ^ Suc 19" using i by (simp add: is_time_def nat_less_iff abs_if)
  then have "length (dec_string (nat \<bar>i\<bar>)) \<le> Suc 19" by (rule dec_string_length)
  then show ?thesis by (cases "i < 0") (simp_all add: int_string_def abs_if)
qed

lemma header_line:
  assumes "is_time t0" "n < 2 ^ 64"
  shows "fgets 4095 (state_header t0 n @ rest) = (state_header t0 n, rest)"
proof -
  define l where "l = ''sysmon-state 1 '' @ int_string t0 @ '' '' @ dec_string n"
  have "n < 10 ^ Suc 19" using assms(2) by simp
  then have "length (dec_string n) \<le> Suc 19" by (rule dec_string_length)
  then have len: "length l < 4095" using int_string_length[OF assms(1)] by (simp add: l_def)
  have "\<forall>c\<in>set l. c \<noteq> NEWLINE" using int_string_plain dec_string_plain by (auto simp: l_def)
  from fgets_line[OF this len, of rest] show ?thesis by (simp add: state_header_def l_def)
qed

lemma read_state_written:
  assumes "is_time t0" "length gs < 2 ^ 64" "now - t0 \<le> STATE_MAX_AGE" "\<forall>(n, d)\<in>set (objects gs). line_ok n d"
  shows "read_state (Some (state_text t0 gs)) now = Got (rev (map (\<lambda>(n, d). saved_of n d) (objects gs)))"
proof -
  have ne: "state_header t0 (length gs) \<noteq> []" by (simp add: state_header_def)
  show ?thesis
    using header_line[OF assms(1,2)] scan_header_written[OF assms(1)] ne assms(3) read_loop_lines[OF assms(4), of "[]"]
    by (simp add: read_state_def state_text_objects)
qed

definition tmp_name :: "string \<Rightarrow> string" where
  "tmp_name p = fit 4104 (p @ ''.new'')"

lemma tmp_name_other: "length p < 4100 \<Longrightarrow> tmp_name p \<noteq> p"
  by (simp add: tmp_name_def fit_def)

lemma state_restored:
  assumes "distinct (map fst (objects gs))" "\<forall>(n, d)\<in>set (objects gs). line_ok n d"
    "length gs < 2 ^ 64" "is_time t0" "now - t0 \<le> STATE_MAX_AGE" "p \<noteq> []" "length p < 4100"
    "fopen_ok c" "fclose_ok c" "rename_ok c"
  shows "load_state (Some p) now (snd (write_state c t0 (Some p) gs fs)) new = Got (map (carry_object gs) new)"
proof (cases "new = []")
  case False
  have "tmp_name p \<noteq> p" by (rule tmp_name_other) (rule assms(7))
  then have "snd (write_state c t0 (Some p) gs fs) p = Some (state_text t0 gs)"
    using assms(6,8-10) by (simp add: write_state_def Let_def tmp_name_def)
  with read_state_written[OF assms(4,3,5,2)] load_object_carry[OF assms(1)] assms(6) False
  show ?thesis by (simp add: load_state_def)
qed (simp add: load_state_def)

text \<open>
  C12. A restart remembers. Writing the checkpoint and loading it into the objects of the next run
  gives every object that the last run knew by name the eleven saved fields of then and changes
  nothing else, and leaves every other object as configured; for distinct names without newlines,
  lines that fit the buffer and a file of at most twelve hours. No line faults the reader.
\<close>

theorem state_roundtrip:
  assumes "distinct (map fst (objects gs))" "\<forall>(n, d)\<in>set (objects gs). line_ok n d"
    "length gs < 2 ^ 64" "is_time t0" "now - t0 \<le> STATE_MAX_AGE" "p \<noteq> []" "length p < 4100"
    "fopen_ok c" "fclose_ok c" "rename_ok c"
  shows "load_state (Some p) now (snd (write_state c t0 (Some p) gs fs)) new = Got (map (carry_object gs) new)"
  by (rule state_restored[OF assms])


section \<open>Witnesses\<close>

definition good_calls :: write_calls where
  "good_calls = \<lparr>fopen_ok = True, fclose_ok = True, rename_ok = True\<rparr>"

lemma one_object_line: "line_ok ''core'' (zero_host\<lparr>h_contacted := True, h_downct := 7\<rparr>)"
proof -
  have "length (state_line ''core'' (zero_host\<lparr>h_contacted := True, h_downct := 7\<rparr>)) < 4096"
    by (simp add: state_line_def state_pairs_def zero_host_def dec_string.simps int_string_def bool_digit_def)
  then show ?thesis by (simp add: line_ok_def times_ok_def is_time_def zero_host_def)
qed

theorem state_roundtrip_witness:
  "load_state (Some ''st'') 100 (snd (write_state good_calls 50 (Some ''st'')
      (one_object (zero_host\<lparr>h_contacted := True, h_downct := 7\<rparr>)) Map.empty)) (one_object zero_host) =
   Got (one_object (zero_host\<lparr>h_contacted := True, h_downct := 7\<rparr>))"
proof -
  let ?h = "zero_host\<lparr>h_contacted := True, h_downct := 7\<rparr>"
  have objs: "objects (one_object ?h) = [(''core'', ?h)]" by (simp add: objects_def one_object_def)
  have "load_state (Some ''st'') 100 (snd (write_state good_calls 50 (Some ''st'') (one_object ?h) Map.empty)) (one_object zero_host) =
      Got (map (carry_object (one_object ?h)) (one_object zero_host))"
    by (rule state_roundtrip) (use one_object_line in \<open>simp_all add: objs\<close>,
        simp_all add: good_calls_def one_object_def is_time_def)
  moreover have "carry ?h zero_host = ?h" by (simp add: carry_def zero_host_def)
  ultimately show ?thesis using objs by (simp add: one_object_def carry_object_def)
qed


end
