(* ===== verification/Conf_Base64.thy ===== *)
theory Conf_Base64
  imports Sysmon_Prelude
begin

text \<open>
  The base64 coder of \<open>src/src/confgen.c\<close> that carries configuration files over the line protocol:
  \<open>confgen_b64encode\<close>, \<open>b64value\<close> and \<open>confgen_b64decode\<close>. A file is a list of bytes, its coded form a C
  string. Memory is taken to be available; every other failure of the decoder is \<open>None\<close>.

  Shown: decoding gives back what was encoded, also when the text is wrapped at arbitrary places by
  white space as the protocol does; the encoded text has the announced length and only characters of
  the alphabet; the decoder stays inside the buffer it allocates whatever it is given.
\<close>

section \<open>The coder\<close>

definition b64set :: string where
  "b64set = ''ABCDEFGHIJKLMNOPQRSTUVWXYZabcdefghijklmnopqrstuvwxyz0123456789+/''"

definition b64char :: "u32 \<Rightarrow> char" where
  "b64char v = b64set ! unat (v AND 0x3f)"

definition pack3 :: "byte \<Rightarrow> byte \<Rightarrow> byte \<Rightarrow> u32" where
  "pack3 a b c = push_bit 16 (ucast a) OR push_bit 8 (ucast b) OR ucast c"

fun confgen_b64encode :: "byte list \<Rightarrow> string" where
  "confgen_b64encode (a # b # c # rest) =
     (let v = pack3 a b c
      in [b64char (drop_bit 18 v), b64char (drop_bit 12 v), b64char (drop_bit 6 v), b64char v] @ confgen_b64encode rest)"
| "confgen_b64encode [a] =
     (let v = pack3 a 0 0 in [b64char (drop_bit 18 v), b64char (drop_bit 12 v), CHR ''='', CHR ''=''])"
| "confgen_b64encode [a, b] =
     (let v = pack3 a b 0 in [b64char (drop_bit 18 v), b64char (drop_bit 12 v), b64char (drop_bit 6 v), CHR ''=''])"
| "confgen_b64encode [] = []"

definition b64value :: "char \<Rightarrow> int" where
  "b64value ch =
     (let c = int (of_char ch) in
      if 65 \<le> c \<and> c \<le> 90 then c - 65
      else if 97 \<le> c \<and> c \<le> 122 then c - 97 + 26
      else if 48 \<le> c \<and> c \<le> 57 then c - 48 + 52
      else if c = 43 then 62
      else if c = 47 then 63
      else - 1)"

text \<open>The white space the decoder steps over.\<close>

definition b64space :: "char \<Rightarrow> bool" where
  "b64space c \<longleftrightarrow> c = CHR 0x0D \<or> c = CHR 0x0A \<or> c = CHR '' '' \<or> c = CHR 0x09"

text \<open>What one complete quad adds to the output; \<open>pad\<close> is the number of padding characters seen.\<close>

definition quad_bytes :: "int list \<Rightarrow> nat \<Rightarrow> byte list" where
  "quad_bytes quad pad =
     (let acc = push_bit 18 (word_of_int (quad ! 0)) OR push_bit 12 (word_of_int (quad ! 1)) OR
                push_bit 6 (word_of_int (quad ! 2)) OR word_of_int (quad ! 3) :: u32
      in [ucast (drop_bit 16 acc AND 0xff)] @ (if pad < 2 then [ucast (drop_bit 8 acc AND 0xff)] else []) @
         (if pad < 1 then [ucast (acc AND 0xff)] else []))"

definition quad_step :: "int list \<Rightarrow> nat \<Rightarrow> byte list \<Rightarrow> int list \<times> byte list" where
  "quad_step quad pad out = (if length quad = 4 then ([], out @ quad_bytes quad pad) else (quad, out))"

text \<open>The loop over the characters; \<open>quad\<close> holds the \<open>n\<close> values read of the current quad.\<close>

fun b64_loop :: "string \<Rightarrow> int list \<Rightarrow> nat \<Rightarrow> byte list \<Rightarrow> byte list option" where
  "b64_loop [] quad pad out = (if quad \<noteq> [] then None else Some out)"
| "b64_loop (c # cs) quad pad out =
     (if b64space c then b64_loop cs quad pad out
      else if c = CHR ''='' then
        (if length quad < 2 \<or> pad \<ge> 2 then None
         else case quad_step (quad @ [0]) (pad + 1) out of (quad', out') \<Rightarrow> b64_loop cs quad' (pad + 1) out')
      else
        (if b64value c < 0 \<or> pad > 0 then None
         else case quad_step (quad @ [b64value c]) pad out of (quad', out') \<Rightarrow> b64_loop cs quad' pad out'))"

definition confgen_b64decode :: "string option \<Rightarrow> byte list option" where
  "confgen_b64decode input =
     (case input of None \<Rightarrow> None | Some s \<Rightarrow> b64_loop (takeWhile (\<lambda>c. c \<noteq> CHR 0x00) s) [] 0 [])"

section \<open>Characters and their values\<close>

lemma length_b64set [simp]: "length b64set = 64"
  by (simp add: b64set_def)

lemma and_3f: "(v :: u32) AND 0x3f = take_bit 6 v"
  by (simp add: take_bit_eq_mask mask_eq_exp_minus_1)

lemma and_ff: "(v :: u32) AND 0xff = take_bit 8 v"
  by (simp add: take_bit_eq_mask mask_eq_exp_minus_1)

lemma b64value_table: "map b64value b64set = map int [0..<64]"
  by (simp add: b64set_def b64value_def upt_conv_Cons)

lemma b64set_plain: "list_all (\<lambda>c. \<not> b64space c \<and> c \<noteq> CHR ''='' \<and> c \<noteq> CHR 0x00) b64set"
  by (simp add: b64set_def b64space_def)

lemma b64set_nth:
  assumes "i < 64"
  shows "b64value (b64set ! i) = int i" "\<not> b64space (b64set ! i)" "b64set ! i \<noteq> CHR ''=''" "b64set ! i \<noteq> CHR 0x00"
proof -
  have "map b64value b64set ! i = map int [0..<64] ! i" by (simp only: b64value_table)
  then show "b64value (b64set ! i) = int i" using assms by simp
  show "\<not> b64space (b64set ! i)" "b64set ! i \<noteq> CHR ''=''" "b64set ! i \<noteq> CHR 0x00"
    using b64set_plain assms by (simp_all add: list_all_length)
qed

lemma take_bit6_less: "unat (take_bit 6 (v :: u32)) < 64"
  using take_bit_nat_less_exp[of 6 "unat v"] by (simp add: unsigned_take_bit_eq)

lemma b64char_props:
  "b64value (b64char v) = uint (take_bit 6 v)" "\<not> b64space (b64char v)" "b64char v \<noteq> CHR ''=''" "b64char v \<noteq> CHR 0x00"
  using b64set_nth[OF take_bit6_less[of v]] by (simp_all add: b64char_def and_3f)

lemma b64value_char_nonneg: "\<not> b64value (b64char v) < 0"
  by (simp add: b64char_props)

lemmas b64char_simps = b64char_props b64value_char_nonneg

section \<open>A quad comes back\<close>

lemma pack3_bit: "bit (pack3 a b c) i \<longleftrightarrow>
   (16 \<le> i \<and> i < 32 \<and> bit a (i - 16)) \<or> (8 \<le> i \<and> i < 32 \<and> bit b (i - 8)) \<or> bit c i"
  unfolding pack3_def by (auto simp: bit_simps dest: bit_imp_le_length)

lemma pack3_small: "bit (pack3 a b c) i \<Longrightarrow> i < 24"
  by (auto simp: pack3_bit dest: bit_imp_le_length)

lemma quad_acc:
  fixes v :: u32
  assumes "\<And>i. bit v i \<Longrightarrow> i < 24"
  shows "push_bit 18 (take_bit 6 (drop_bit 18 v)) OR push_bit 12 (take_bit 6 (drop_bit 12 v)) OR
     push_bit 6 (take_bit 6 (drop_bit 6 v)) OR take_bit 6 v = v"
proof (rule bit_word_eqI)
  fix i assume "i < LENGTH(32)"
  then show "bit (push_bit 18 (take_bit 6 (drop_bit 18 v)) OR push_bit 12 (take_bit 6 (drop_bit 12 v)) OR
     push_bit 6 (take_bit 6 (drop_bit 6 v)) OR take_bit 6 v) i = bit v i"
    using assms[of i]
    by (cases "i < 6"; cases "i < 12"; cases "i < 18"; cases "i < 24") (auto simp: bit_simps)
qed

lemma byte_bit: "8 \<le> i \<Longrightarrow> \<not> bit (b :: byte) i"
  using bit_imp_le_length[of b i] by fastforce

lemma pack3_bytes:
  "ucast (take_bit 8 (drop_bit 16 (pack3 a b c))) = a"
  "ucast (take_bit 8 (drop_bit 8 (pack3 a b c))) = b"
  "ucast (take_bit 8 (pack3 a b c)) = c"
  by (auto intro!: bit_word_eqI simp: bit_simps pack3_bit byte_bit)


lemma quad_bytes_0: "quad_bytes [uint (take_bit 6 (drop_bit 18 (pack3 a b c))), uint (take_bit 6 (drop_bit 12 (pack3 a b c))),
    uint (take_bit 6 (drop_bit 6 (pack3 a b c))), uint (take_bit 6 (pack3 a b c))] 0 = [a, b, c]"
  using quad_acc[of "pack3 a b c"] pack3_small[of a b c] by (simp add: quad_bytes_def Let_def and_ff pack3_bytes)

lemma pack3_low_zero: "take_bit 6 (pack3 a b 0) = 0" "take_bit 6 (drop_bit 6 (pack3 a 0 0)) = 0"
  by (rule bit_word_eqI, simp add: bit_simps pack3_bit)+

lemma quad_bytes_1: "quad_bytes [uint (take_bit 6 (drop_bit 18 (pack3 a b 0))), uint (take_bit 6 (drop_bit 12 (pack3 a b 0))),
    uint (take_bit 6 (drop_bit 6 (pack3 a b 0))), 0] 1 = [a, b]"
  using quad_acc[of "pack3 a b 0"] pack3_small[of a b 0]
  by (simp add: quad_bytes_def Let_def and_ff pack3_bytes pack3_low_zero)

lemma quad_bytes_2: "quad_bytes [uint (take_bit 6 (drop_bit 18 (pack3 a 0 0))), uint (take_bit 6 (drop_bit 12 (pack3 a 0 0))), 0, 0] 2 = [a]"
  using quad_acc[of "pack3 a 0 0"] pack3_small[of a 0 0]
  by (simp add: quad_bytes_def Let_def and_ff pack3_bytes pack3_low_zero)

section \<open>Decoding gives back what was encoded\<close>

lemma b64_loop_char:
  "b64_loop (b64char v # cs) quad 0 out =
     (case quad_step (quad @ [uint (take_bit 6 v)]) 0 out of (quad', out') \<Rightarrow> b64_loop cs quad' 0 out')"
  by (simp add: b64char_simps)

lemma b64space_pad: "\<not> b64space CHR ''=''"
  by (simp add: b64space_def)

lemma b64_loop_pad:
  assumes "2 \<le> length quad" "pad < 2"
  shows "b64_loop (CHR ''='' # cs) quad pad out =
     (case quad_step (quad @ [0]) (pad + 1) out of (quad', out') \<Rightarrow> b64_loop cs quad' (pad + 1) out')"
  using assms by (simp add: b64space_pad)

lemmas b64_steps = Let_def b64_loop_char b64_loop_pad quad_step_def quad_bytes_0 quad_bytes_1 quad_bytes_2

lemma b64_loop_encode: "b64_loop (confgen_b64encode bs) [] 0 out = Some (out @ bs)"
proof (induction bs arbitrary: out rule: confgen_b64encode.induct)
  case (2 a)
  then show ?case
    using quad_bytes_2[of a] by (simp add: b64_steps numeral_2_eq_2 del: b64_loop.simps(2))
next
  case (3 a b)
  then show ?case using quad_bytes_1[of a b] by (simp add: b64_steps del: b64_loop.simps(2))
qed (simp_all add: b64_steps del: b64_loop.simps(2))

text \<open>White space is stepped over wherever it stands.\<close>

lemma b64_loop_spaces: "b64_loop (filter (\<lambda>c. \<not> b64space c) cs) quad pad out = b64_loop cs quad pad out"
proof (induction cs arbitrary: quad pad out)
  case (Cons c cs)
  then show ?case by (auto split: prod.split)
qed simp

lemma encode_plain: "c \<in> set (confgen_b64encode bs) \<Longrightarrow> \<not> b64space c \<and> c \<noteq> CHR 0x00"
  by (induction bs rule: confgen_b64encode.induct) (auto simp: Let_def b64char_simps b64space_pad)

lemma decode_wrapped:
  assumes "filter (\<lambda>c. \<not> b64space c) wrapped = confgen_b64encode bs"
  shows "confgen_b64decode (Some wrapped) = Some bs"
proof -
  have "CHR 0x00 \<notin> set wrapped"
  proof
    assume "CHR 0x00 \<in> set wrapped"
    then have "CHR 0x00 \<in> set (filter (\<lambda>c. \<not> b64space c) wrapped)" by (simp add: b64space_def)
    then show False using encode_plain assms by metis
  qed
  then have "takeWhile (\<lambda>c. c \<noteq> CHR 0x00) wrapped = wrapped" by auto
  moreover have "b64_loop wrapped [] 0 [] = Some bs"
    using b64_loop_spaces[of wrapped "[]" 0 "[]"] b64_loop_encode[of bs "[]"] by (simp only: assms append_Nil)
  ultimately show ?thesis by (simp only: confgen_b64decode_def option.case)
qed

lemma filter_encode: "filter (\<lambda>c. \<not> b64space c) (confgen_b64encode bs) = confgen_b64encode bs"
  using encode_plain by (auto simp: filter_id_conv)

text \<open>The length the encoder allocates is the length it writes.\<close>

lemma length_encode: "length (confgen_b64encode bs) = (length bs + 2) div 3 * 4"
proof (induction bs rule: confgen_b64encode.induct)
  case (1 a b c rest)
  have "(length (a # b # c # rest) + 2) div 3 = Suc ((length rest + 2) div 3)" by simp
  with 1 show ?case by (simp add: Let_def)
qed (simp_all add: Let_def)

section \<open>The decoder stays in its buffer\<close>

lemma length_quad_bytes: "length (quad_bytes quad pad) \<le> 3"
  by (simp add: quad_bytes_def Let_def)

lemma b64_loop_bound:
  assumes "b64_loop cs quad pad out = Some res" "length quad < 4"
  shows "length res \<le> length out + 3 * ((length cs + length quad) div 4)"
  using assms
proof (induction cs arbitrary: quad pad out)
  case (Cons c cs)
  have step: "length res \<le> length out + 3 * ((length (c # cs) + length quad) div 4)"
    if "quad_step (quad @ [v]) pad' out = (quad', out')" "b64_loop cs quad' pad' out' = Some res" for v pad' quad' out'
  proof (cases "length quad = 3")
    case True
    then have q: "quad' = []" "out' = out @ quad_bytes (quad @ [v]) pad'" using that(1) by (auto simp: quad_step_def)
    have "length res \<le> length out' + 3 * ((length cs + length quad') div 4)"
      by (rule Cons.IH[OF that(2)]) (simp add: q)
    moreover have "(4 + length cs) div 4 = Suc (length cs div 4)" by presburger
    ultimately show ?thesis using length_quad_bytes[of "quad @ [v]" pad'] True by (simp add: q)
  next
    case False
    then have q: "quad' = quad @ [v]" "out' = out" using that(1) Cons.prems(2) by (auto simp: quad_step_def split: if_splits)
    have "length res \<le> length out' + 3 * ((length cs + length quad') div 4)"
      by (rule Cons.IH[OF that(2)]) (use False Cons.prems(2) q in simp)
    then show ?thesis by (simp add: q)
  qed
  have skip: "length res \<le> length out + 3 * ((length (c # cs) + length quad) div 4)"
    if "b64_loop cs quad pad out = Some res"
  proof -
    have "(length cs + length quad) div 4 \<le> (length (c # cs) + length quad) div 4" by (rule div_le_mono) simp
    then show ?thesis using Cons.IH[OF that Cons.prems(2)] by linarith
  qed
  show ?case
    using Cons.prems(1) skip step by (auto simp del: list.size split: if_splits prod.splits)
qed (auto split: if_splits)

section \<open>Properties\<close>

text \<open>
  Decoding is the inverse of encoding for every byte string, and stays so when the text is broken
  into lines of any width or otherwise interspersed with white space on its way.
\<close>

theorem b64_roundtrip:
  assumes "filter (\<lambda>c. \<not> b64space c) wrapped = confgen_b64encode bs"
  shows "confgen_b64decode (Some wrapped) = Some bs"
  by (rule decode_wrapped[OF assms])

theorem b64_roundtrip_witness:
  "confgen_b64decode (Some (''QUJ'' @ [CHR 0x0A] @ ''DRA=='')) = Some [0x41, 0x42, 0x43, 0x44]"
proof -
  have "filter (\<lambda>c. \<not> b64space c) (''QUJ'' @ [CHR 0x0A] @ ''DRA=='') = confgen_b64encode [0x41, 0x42, 0x43, 0x44]"
    by code_simp
  then show ?thesis by (rule b64_roundtrip)
qed

text \<open>
  Whatever text the decoder is given, the bytes it writes together with the final NUL fit the buffer of
  \<open>(inlen / 4 + 1) * 3 + 1\<close> bytes it allocates.
\<close>

theorem b64decode_bounded:
  assumes "confgen_b64decode (Some input) = Some res"
  shows "length res + 1 \<le> (length (takeWhile (\<lambda>c. c \<noteq> CHR 0x00) input) div 4 + 1) * 3 + 1"
  using b64_loop_bound[of "takeWhile (\<lambda>c. c \<noteq> CHR 0x00) input" "[]" 0 "[]" res] assms
  by (simp add: confgen_b64decode_def)

theorem b64decode_bounded_witness: "length [0x41 :: byte] + 1 \<le> (length (takeWhile (\<lambda>c. c \<noteq> CHR 0x00) ''QQ=='') div 4 + 1) * 3 + 1"
proof -
  have "confgen_b64decode (Some ''QQ=='') = Some [0x41]" by code_simp
  then show ?thesis by (rule b64decode_bounded)
qed

end
