(* ===== verification/Conf_Files.thy ===== *)
theory Conf_Files
  imports Conf_Base64
begin

text \<open>
  The set of configuration files of \<open>src/src/confgen.c\<close>: the files the parser opened, in load order, which of
  them can be managed, and the content hash both ends of the fleet compare. SHA-256, the resolution of
  paths and the reading of files are arguments; the stream that is hashed is written out.

  Shown: the set never lists a path twice and never outgrows its array; the hashed stream determines the
  names, contents and order of the files; the hash of a delivered set and the hash of the same files
  loaded are the same.
\<close>

section \<open>Names and the file set\<close>

definition CONFSET_MAX :: nat where "CONFSET_MAX = 64"

definition GEN_ORDER_FILE :: string where "GEN_ORDER_FILE = ''.order''"

definition flat_name :: "string option \<Rightarrow> bool" where
  "flat_name name =
     (case name of None \<Rightarrow> False
      | Some s \<Rightarrow> if s = [] then False
                 else if CHR ''/'' \<in> set s then False
                 else if hd s = CHR ''.'' then False
                 else if length s \<ge> 128 then False
                 else True)"

record conf_entry =
  cf_name :: string
  cf_path :: string
  cf_flat :: bool

text \<open>\<open>strrchr(path, '/')\<close>: the last component of a path.\<close>

definition basename :: "string \<Rightarrow> string" where
  "basename path = rev (takeWhile (\<lambda>c. c \<noteq> CHR ''/'') (rev path))"

definition confset_reset :: "conf_entry list \<Rightarrow> conf_entry list" where
  "confset_reset cs = []"

definition confset_record ::
    "(string \<Rightarrow> string option) \<Rightarrow> string option \<Rightarrow> string option \<Rightarrow> conf_entry list \<Rightarrow> conf_entry list" where
  "confset_record realpath name path cs =
     (case path of None \<Rightarrow> cs
      | Some p \<Rightarrow>
         if p = [] then cs
         else let nm = (if name = None \<or> name = Some [] then basename p else the name);
                  p' = (case realpath p of None \<Rightarrow> p | Some r \<Rightarrow> r)
              in if p' \<in> cf_path ` set cs then cs
                 else if length cs \<ge> CONFSET_MAX then cs
                 else cs @ [\<lparr>cf_name = nm, cf_path = p', cf_flat = flat_name (Some nm)\<rparr>])"

definition confset_count :: "conf_entry list \<Rightarrow> nat" where
  "confset_count cs = length cs"

definition confset_name :: "int \<Rightarrow> conf_entry list \<Rightarrow> string option" where
  "confset_name i cs = (if i < 0 \<or> i \<ge> int (length cs) then None else Some (cf_name (cs ! nat i)))"

definition confset_path :: "int \<Rightarrow> conf_entry list \<Rightarrow> string option" where
  "confset_path i cs = (if i < 0 \<or> i \<ge> int (length cs) then None else Some (cf_path (cs ! nat i)))"

text \<open>Whether the set can be managed, and the reason written to \<open>why\<close> if it cannot.\<close>

definition confgen_manageable :: "nat \<Rightarrow> conf_entry list \<Rightarrow> bool \<times> string" where
  "confgen_manageable whylen cs =
     (if cs = [] then (False, fit whylen ''no config files are tracked'')
      else case find (\<lambda>e. \<not> cf_flat e) cs of
             None \<Rightarrow> (True, [])
           | Some e \<Rightarrow>
               (False, fit whylen (''include '' @ [CHR 0x22] @ cf_name e @ [CHR 0x22] @
                  '' names a path rather than a plain filename; '' @
                  ''a managed config keeps all its files in one directory'')))"

section \<open>The hash\<close>

text \<open>A delivered file; \<open>len\<close> is the length of \<open>data\<close>.\<close>

record confgen_file =
  f_name :: string
  f_data :: "byte list"

text \<open>The loop from the last of the eight bytes to the first.\<close>

primrec u64_loop :: "nat \<Rightarrow> u64 \<Rightarrow> byte list \<Rightarrow> byte list" where
  "u64_loop 0 v n = n"
| "u64_loop (Suc i) v n = u64_loop i (drop_bit 8 v) (ucast (v AND 0xff) # n)"

definition hash_u64 :: "u64 \<Rightarrow> byte list" where
  "hash_u64 v = u64_loop 8 v []"

definition name_bytes :: "string \<Rightarrow> byte list" where
  "name_bytes s = map (\<lambda>c. of_nat (of_char c)) s"

text \<open>What one file adds to the stream.\<close>

definition hash_pair :: "string \<Rightarrow> byte list \<Rightarrow> byte list" where
  "hash_pair name data =
     hash_u64 (of_nat (length name)) @ name_bytes name @ hash_u64 (of_nat (length data)) @ data"

definition hash_end :: "(byte list \<Rightarrow> byte list) \<Rightarrow> byte list \<Rightarrow> string" where
  "hash_end sha256 stream = concat (map hex2 (sha256 stream))"

text \<open>The hash of what is loaded; \<open>None\<close> when a file cannot be read.\<close>

primrec hash_loaded :: "(string \<Rightarrow> byte list option) \<Rightarrow> conf_entry list \<Rightarrow> byte list option" where
  "hash_loaded slurp [] = Some []"
| "hash_loaded slurp (e # es) =
     (case slurp (cf_path e) of None \<Rightarrow> None
      | Some content \<Rightarrow> map_option (\<lambda>s. hash_pair (cf_name e) content @ s) (hash_loaded slurp es))"

definition confgen_hash :: "(byte list \<Rightarrow> byte list) \<Rightarrow> (string \<Rightarrow> byte list option) \<Rightarrow> conf_entry list \<Rightarrow> string option" where
  "confgen_hash sha256 slurp cs = map_option (hash_end sha256) (hash_loaded slurp cs)"

definition files_stream :: "confgen_file list \<Rightarrow> byte list" where
  "files_stream fs = concat (map (\<lambda>f. hash_pair (f_name f) (f_data f)) fs)"

definition confgen_hash_files :: "(byte list \<Rightarrow> byte list) \<Rightarrow> confgen_file list \<Rightarrow> string" where
  "confgen_hash_files sha256 fs = hash_end sha256 (files_stream fs)"

section \<open>The file set stays well formed\<close>

definition confset_ok :: "conf_entry list \<Rightarrow> bool" where
  "confset_ok cs \<longleftrightarrow> distinct (map cf_path cs) \<and> length cs \<le> CONFSET_MAX \<and>
     (\<forall>e\<in>set cs. cf_flat e = flat_name (Some (cf_name e)))"

lemma confset_record_ok: "confset_ok cs \<Longrightarrow> confset_ok (confset_record rp nm p cs)"
  by (auto simp: confset_ok_def confset_record_def Let_def split: option.split)

lemma flat_nameD:
  assumes "flat_name (Some s)"
  shows "s \<noteq> []" "CHR ''/'' \<notin> set s" "hd s \<noteq> CHR ''.''" "length s < 128" "s \<noteq> GEN_ORDER_FILE"
  using assms by (auto simp: flat_name_def GEN_ORDER_FILE_def split: if_splits)

section \<open>The stream determines the files\<close>

lemma length_u64_loop: "length (u64_loop k v n) = k + length n"
  by (induction k arbitrary: v n) simp_all

lemma length_hash_u64 [simp]: "length (hash_u64 v) = 8"
  by (simp add: hash_u64_def length_u64_loop)

lemma unat_low_byte: "unat (ucast (v AND 0xff) :: byte) = unat (v :: u64) mod 256"
proof -
  have "(ucast (v AND 0xff) :: byte) = ucast v"
    by (rule bit_word_eqI) (auto simp: bit_simps mask_eq_exp_minus_1[of 8, where 'a = "u64", simplified, symmetric])
  then show ?thesis by (simp add: unsigned_ucast_eq take_bit_eq_mod)
qed

lemma unat_drop_byte: "unat (drop_bit 8 (v :: u64)) = unat v div 256"
proof -
  have "unat v < 2 ^ LENGTH(64)" by (rule unsigned_less)
  then have "take_bit 64 (unat v) = unat v" by (simp add: take_bit_nat_eq_self)
  then have "unat (drop_bit 8 v) = drop_bit 8 (unat v)" by (simp only: unsigned_drop_bit_eq len_of_numeral_defs) simp
  then show ?thesis by (simp add: drop_bit_eq_div)
qed

lemma be_nat_u64_loop: "be_nat (u64_loop k v n) = (unat v mod 256 ^ k) * 256 ^ length n + be_nat n"
proof (induction k arbitrary: v n)
  case (Suc k)
  have "unat v mod 256 ^ Suc k = (unat v div 256 mod 256 ^ k) * 256 + unat v mod 256"
    by (metis mod_mult2_eq mult.commute power_Suc)
  then show ?case by (simp add: Suc.IH unat_drop_byte unat_low_byte be_nat_Cons algebra_simps)
qed simp

lemma be_nat_hash_u64: "be_nat (hash_u64 v) = unat v"
proof -
  have "unat v < 2 ^ LENGTH(64)" by (rule unsigned_less)
  then show ?thesis by (simp add: hash_u64_def be_nat_u64_loop)
qed

lemma hash_u64_inject: "hash_u64 v = hash_u64 w \<Longrightarrow> v = w"
  using be_nat_hash_u64 by (metis unsigned_word_eqI)

lemma name_bytes_inject: "name_bytes a = name_bytes b \<Longrightarrow> a = b"
proof -
  have "inj (\<lambda>c :: char. of_nat (of_char c) :: byte)"
  proof (rule injI)
    fix x y :: char assume "(of_nat (of_char x) :: byte) = of_nat (of_char y)"
    then have "unat (of_nat (of_char x) :: byte) = unat (of_nat (of_char y) :: byte)" by simp
    then have "(of_char x :: nat) = of_char y" by (simp add: unat_of_nat_len)
    then show "x = y" by simp
  qed
  then show "name_bytes a = name_bytes b \<Longrightarrow> a = b" by (simp add: name_bytes_def)
qed

text \<open>A block with its length in front can be cut off a stream in one way only.\<close>

definition block :: "byte list \<Rightarrow> byte list" where
  "block bs = hash_u64 (of_nat (length bs)) @ bs"

lemma block_cut:
  assumes "block a @ r = block b @ s" "length a < 2 ^ 64" "length b < 2 ^ 64"
  shows "a = b \<and> r = s"
proof -
  have h: "hash_u64 (of_nat (length a)) = hash_u64 (of_nat (length b))" "a @ r = b @ s"
    using assms(1) by (simp_all add: block_def)
  have "unat (of_nat (length a) :: u64) = unat (of_nat (length b) :: u64)" using hash_u64_inject[OF h(1)] by simp
  then have "length a = length b" using assms(2,3) by (simp add: unat_of_nat_len)
  then show ?thesis using h(2) by simp
qed

lemma hash_pair_block: "hash_pair name data = block (name_bytes name) @ block data"
  by (simp add: hash_pair_def block_def name_bytes_def)

lemma block_not_Nil: "block bs \<noteq> []"
  using length_hash_u64[of "of_nat (length bs)"] by (auto simp: block_def simp del: length_hash_u64)

definition small_files :: "confgen_file list \<Rightarrow> bool" where
  "small_files fs \<longleftrightarrow> (\<forall>f\<in>set fs. length (f_name f) < 2 ^ 64 \<and> length (f_data f) < 2 ^ 64)"

lemma files_stream_inject:
  assumes "files_stream fs = files_stream gs" "small_files fs" "small_files gs"
  shows "fs = gs"
  using assms
proof (induction fs arbitrary: gs)
  case Nil
  then show ?case by (cases gs) (auto simp: files_stream_def hash_pair_block block_not_Nil)
next
  case (Cons f fs)
  then obtain g gs' where gs: "gs = g # gs'"
    by (cases gs) (auto simp: files_stream_def hash_pair_block block_not_Nil)
  have eq: "block (name_bytes (f_name f)) @ (block (f_data f) @ files_stream fs) =
      block (name_bytes (f_name g)) @ (block (f_data g) @ files_stream gs')"
    using Cons.prems(1) by (simp add: gs files_stream_def hash_pair_block)
  have nm: "name_bytes (f_name f) = name_bytes (f_name g) \<and>
      block (f_data f) @ files_stream fs = block (f_data g) @ files_stream gs'"
    by (rule block_cut[OF eq]) (use Cons.prems gs in \<open>auto simp: small_files_def name_bytes_def\<close>)
  have d: "f_data f = f_data g \<and> files_stream fs = files_stream gs'"
    by (rule block_cut[OF conjunct2[OF nm]]) (use Cons.prems gs in \<open>auto simp: small_files_def\<close>)
  have "fs = gs'" by (rule Cons.IH) (use d Cons.prems gs in \<open>auto simp: small_files_def\<close>)
  moreover have "f = g" using name_bytes_inject[OF conjunct1[OF nm]] d by (cases f; cases g) simp
  ultimately show ?case by (simp add: gs)
qed


section \<open>Loaded and delivered sets\<close>

lemma hash_loaded_files:
  assumes "list_all2 (\<lambda>e f. cf_name e = f_name f \<and> slurp (cf_path e) = Some (f_data f)) cs fs"
  shows "hash_loaded slurp cs = Some (files_stream fs)"
  using assms by (induction rule: list_all2_induct) (auto simp: files_stream_def)

section \<open>Properties\<close>

text \<open>
  C32. Two file sets give the same hashed stream only if they are the same files: same names, same contents,
  same order. Whatever two sets the fleet takes for equal differ only if SHA-256 collides.
\<close>

theorem hash_stream_injective:
  assumes "small_files fs" "small_files gs"
  shows "files_stream fs = files_stream gs \<longleftrightarrow> fs = gs"
  using files_stream_inject[OF _ assms] by blast

theorem hash_stream_injective_witness:
  "files_stream [\<lparr>f_name = ''a'', f_data = [1, 2]\<rparr>] \<noteq> files_stream [\<lparr>f_name = ''a'', f_data = [1]\<rparr>, \<lparr>f_name = ''b'', f_data = [2]\<rparr>]"
  using hash_stream_injective[of "[\<lparr>f_name = ''a'', f_data = [1, 2]\<rparr>]" "[\<lparr>f_name = ''a'', f_data = [1]\<rparr>, \<lparr>f_name = ''b'', f_data = [2]\<rparr>]"]
  by (simp add: small_files_def)

text \<open>
  C33. However many includes are recorded, the set lists no path twice, stays within its array of 64 entries
  and marks exactly the plain file names as manageable.
\<close>

theorem confset_wellformed:
  "distinct (map cf_path (fold (\<lambda>(nm, p). confset_record rp nm p) incs [])) \<and>
   length (fold (\<lambda>(nm, p). confset_record rp nm p) incs []) \<le> 64 \<and>
   list_all (\<lambda>e. cf_flat e = flat_name (Some (cf_name e))) (fold (\<lambda>(nm, p). confset_record rp nm p) incs [])"
proof -
  have "confset_ok cs \<Longrightarrow> confset_ok (fold (\<lambda>(nm, p). confset_record rp nm p) incs cs)" for cs
    by (induction incs arbitrary: cs) (auto intro: confset_record_ok)
  from this[of "[]"] show ?thesis by (simp add: confset_ok_def CONFSET_MAX_def list_all_iff)
qed

end
