(* ===== verification/Conf_Generation.thy ===== *)
theory Conf_Generation
  imports Conf_Files "HOL-Library.AList"
begin

text \<open>
  The configuration generations of \<open>src/src/confgen.c\<close>: the state directory with its generation
  directories and its two symbolic links, the choice of the configuration to load
  (\<open>confgen_active_config\<close>), the validation of a staged configuration by a child process
  (\<open>validate_config\<close>), delivery (\<open>confgen_apply\<close>), rollback and revert.

  The state directory is an association list of directories in the order \<open>readdir\<close> gives them; paths
  are relative to it and taken to fit \<open>PATH_MAX\<close>. The daemon owns the directory, so removing its own files
  and empty directories succeeds; every other system call can fail, as the record \<open>calls\<close> says. The
  configuration parser is an argument: what loading the entry file of a directory does. Each change of the disk is
  also appended to a trace, so that what a crash between two calls leaves can be stated.
\<close>

section \<open>The state directory\<close>

text \<open>What \<open>lstat\<close> reports for a directory entry: a plain file, or anything else.\<close>

datatype dirent = Reg "byte list" | Special

type_synonym dir = "(string \<times> dirent) list"

record disk =
  d_main :: "string option"
  d_main_new :: "string option"
  d_links :: "string \<rightharpoonup> string"
  d_dirs :: "(string \<times> dir) list"

record box =
  b_disk :: disk
  b_trace :: "disk list"
  b_mainname :: string
  b_running :: nat
  b_sighup :: bool

definition on_disk :: "(disk \<Rightarrow> disk) \<Rightarrow> box \<Rightarrow> box" where
  "on_disk f b = b\<lparr>b_disk := f (b_disk b), b_trace := b_trace b @ [f (b_disk b)]\<rparr>"

text \<open>The outcomes of the system calls. A write may be cut short, or the file may not open at all.\<close>

datatype write_result = Written "byte list" | Cut "byte list" | Not_opened

record calls =
  c_mkdir :: bool
  c_write :: "string \<Rightarrow> write_result"
  c_order_open :: bool
  c_order_close :: bool
  c_symlink :: "string \<Rightarrow> bool"
  c_rename :: "string \<Rightarrow> bool"
  c_main_open :: bool
  c_main_close :: bool
  c_main_rename :: bool
  c_unlink :: bool
  c_pipe :: bool
  c_fork :: bool
  c_strerror :: string

section \<open>Links and directories\<close>

text \<open>The directive \<open>%010lu\<close>.\<close>

definition pad10 :: "nat \<Rightarrow> string" where
  "pad10 n = replicate (10 - length (dec_string n)) CHR ''0'' @ dec_string n"

definition gendir_path :: "nat \<Rightarrow> string" where
  "gendir_path gen = ''gen-'' @ pad10 gen"

definition linked_generation :: "string \<Rightarrow> disk \<Rightarrow> nat" where
  "linked_generation link d =
     (case d_links d link of None \<Rightarrow> 0
      | Some t \<Rightarrow> let target = take 4095 t in
          if CHR ''-'' \<notin> set target then 0
          else strtoul (rev (takeWhile (\<lambda>c. c \<noteq> CHR ''-'') (rev target))))"

definition point_link :: "calls \<Rightarrow> string \<Rightarrow> nat \<Rightarrow> box \<Rightarrow> bool \<times> box" where
  "point_link c link gen b =
     (let tmp = link @ ''.new''; target = gendir_path gen;
          b1 = on_disk (d_links_update (\<lambda>l. l(tmp := None))) b
      in if \<not> c_symlink c link then (False, b1)
         else let b2 = on_disk (d_links_update (\<lambda>l. l(tmp \<mapsto> target))) b1
              in if \<not> c_rename c link then (False, on_disk (d_links_update (\<lambda>l. l(tmp := None))) b2)
                 else (True, on_disk (d_links_update (\<lambda>l. l(link \<mapsto> target, tmp := None))) b2))"

text \<open>The entries \<open>remove_gen_dir\<close> unlinks; one step per file, then the directory if nothing is left in it.\<close>

definition removable :: "string \<times> dirent \<Rightarrow> bool" where
  "removable e = ((flat_name (Some (fst e)) \<or> fst e = GEN_ORDER_FILE) \<and> (case snd e of Reg _ \<Rightarrow> True | Special \<Rightarrow> False))"

definition in_dir :: "string \<Rightarrow> (dir \<Rightarrow> dir) \<Rightarrow> box \<Rightarrow> box" where
  "in_dir name f =
     on_disk (d_dirs_update (\<lambda>ds. case map_of ds name of None \<Rightarrow> ds | Some x \<Rightarrow> AList.update name (f x) ds))"

primrec unlink_loop :: "string \<Rightarrow> dir \<Rightarrow> box \<Rightarrow> box" where
  "unlink_loop name [] b = b"
| "unlink_loop name (e # es) b =
     unlink_loop name es (if removable e then in_dir name (AList.delete (fst e)) b else b)"

definition rmdir :: "string \<Rightarrow> box \<Rightarrow> box" where
  "rmdir name b =
     (if map_of (d_dirs (b_disk b)) name = Some [] then on_disk (d_dirs_update (AList.delete name)) b else b)"

definition remove_gen_dir :: "string \<Rightarrow> box \<Rightarrow> box" where
  "remove_gen_dir name b =
     (case map_of (d_dirs (b_disk b)) name of None \<Rightarrow> b | Some x \<Rightarrow> rmdir name (unlink_loop name x b))"

section \<open>Which configuration to load\<close>

text \<open>
  What \<open>fgets\<close> and the removal of the newline leave in \<open>gen_mainname\<close>: nothing is stored for an absent or
  empty file.
\<close>

definition main_line :: "string option \<Rightarrow> string \<Rightarrow> string" where
  "main_line file old =
     (case file of None \<Rightarrow> old
      | Some txt \<Rightarrow> if txt = [] then old else takeWhile (\<lambda>c. c \<noteq> CHR 0x0A) (take 4095 txt))"

definition entry_name :: "string \<Rightarrow> disk \<Rightarrow> string \<Rightarrow> string" where
  "entry_name configfile d old =
     (let m = main_line (d_main d) old in if flat_name (Some m) then m else fit 4096 (basename configfile))"

definition regular_in :: "string \<Rightarrow> string \<Rightarrow> disk \<Rightarrow> bool" where
  "regular_in name leaf d =
     (case map_of (d_dirs d) name of None \<Rightarrow> False
      | Some x \<Rightarrow> (case map_of x leaf of Some (Reg _) \<Rightarrow> True | _ \<Rightarrow> False))"

text \<open>The path returned: the seed, or the entry file below \<open>current\<close>.\<close>

definition confgen_active_config :: "string \<Rightarrow> string \<Rightarrow> box \<Rightarrow> string \<times> box" where
  "confgen_active_config statedir configfile b =
     (let d = b_disk b; m = entry_name configfile d (b_mainname b); gen = linked_generation ''current'' d; b1 = b\<lparr>b_mainname := m\<rparr>
      in if gen > 0 \<and> (case d_links d ''current'' of None \<Rightarrow> False | Some t \<Rightarrow> regular_in t m d)
         then (fit 4096 (statedir @ ''/current/'' @ m), b1\<lparr>b_running := gen\<rparr>)
         else (fit 4096 configfile, b1\<lparr>b_running := 0\<rparr>))"

definition confgen_is_managed_file :: "string \<Rightarrow> string option \<Rightarrow> bool" where
  "confgen_is_managed_file statedir path =
     (case path of None \<Rightarrow> False | Some p \<Rightarrow> has_prefix (fit 4096 (statedir @ ''/'')) p)"

section \<open>Validation\<close>

text \<open>
  What loading a configuration does: the parser dies on a signal, or it finishes with its complaints, its
  verdict, the number of objects (none: an empty tree) and the name of the root if that is not defined.
\<close>

record loaded =
  l_complaints :: string
  l_bad :: bool
  l_objects :: "nat option"
  l_noroot :: "string option"

datatype load_result = Died nat string | Loaded loaded

type_synonym parser = "dir \<Rightarrow> string \<Rightarrow> load_result"

definition NL :: string where "NL = [CHR 0x0A]"

text \<open>What the child writes to the pipe, and its exit status (a signal on the left).\<close>

definition validate_child :: "load_result \<Rightarrow> string \<times> (nat + nat)" where
  "validate_child r =
     (case r of Died sig txt \<Rightarrow> (txt, Inl sig)
      | Loaded l \<Rightarrow>
          if l_bad l then (l_complaints l, Inr 1)
          else (case l_objects l of
            None \<Rightarrow> (l_complaints l @ ''the config declares nothing to monitor'' @ NL, Inr 1)
          | Some n \<Rightarrow>
              (case l_noroot l of
                 Some root \<Rightarrow> (l_complaints l @ ''root object '' @ [CHR 0x22] @ root @ [CHR 0x22] @
                               '' is not defined in this config'' @ NL, Inr 1)
               | None \<Rightarrow> (l_complaints l @ ''SYSMOND-OBJECTS '' @ dec_string n @ NL, Inr 0))))"

text \<open>\<open>strstr\<close>: the text before the first occurrence and the text from it on.\<close>

fun strstr :: "string \<Rightarrow> string \<Rightarrow> (string \<times> string) option" where
  "strstr pat [] = (if pat = [] then Some ([], []) else None)"
| "strstr pat (c # cs) =
     (if has_prefix pat (c # cs) then Some ([], c # cs)
      else map_option (\<lambda>(a, b). (c # a, b)) (strstr pat cs))"

definition validate_config :: "calls \<Rightarrow> load_result \<Rightarrow> nat \<Rightarrow> bool \<times> string \<times> nat" where
  "validate_config c r errlen =
     (if \<not> c_pipe c then (False, fit errlen (''cannot create a pipe to validate: '' @ c_strerror c), 0)
      else if \<not> c_fork c then (False, fit errlen (''cannot fork to validate: '' @ c_strerror c), 0)
      else case validate_child r of (txt, status) \<Rightarrow>
        let (err, objects) = (case strstr ''SYSMOND-OBJECTS '' (fit errlen txt) of
                                None \<Rightarrow> (fit errlen txt, 0)
                              | Some (before, marker) \<Rightarrow> (before, strtoul (drop 16 marker)))
        in if status = Inr 0 then (True, err, objects)
           else if err \<noteq> [] then (False, err, objects)
           else (case status of Inl sig \<Rightarrow> (False, fit errlen (''the parser died on signal '' @ dec_string sig), objects)
                 | Inr _ \<Rightarrow> (False, fit errlen ''the config was rejected'', objects)))"

section \<open>Delivery\<close>

definition save_mainname :: "calls \<Rightarrow> box \<Rightarrow> bool \<times> box" where
  "save_mainname c b =
     (if \<not> c_main_open c then (False, b)
      else let b1 = on_disk (d_main_new_update (\<lambda>_. Some (b_mainname b @ NL))) b
           in if \<not> c_main_close c then (False, b1)
              else if \<not> c_main_rename c then (False, on_disk (d_main_new_update (\<lambda>_. None)) b1)
              else (True, on_disk (\<lambda>d. d\<lparr>d_main := d_main_new d, d_main_new := None\<rparr>) b1))"

definition GENERATIONS_KEPT :: nat where "GENERATIONS_KEPT = 5"

definition prunable :: "nat \<Rightarrow> nat \<Rightarrow> string \<Rightarrow> bool" where
  "prunable cur prev name =
     (has_prefix ''gen-'' name \<and>
      (let gen = strtoul (drop 4 name) in
       \<not> (gen = 0 \<or> gen = cur \<or> gen = prev) \<and> \<not> (cur > GENERATIONS_KEPT \<and> gen \<ge> cur - GENERATIONS_KEPT)))"

definition prune_generations :: "box \<Rightarrow> box" where
  "prune_generations b =
     (let cur = linked_generation ''current'' (b_disk b); prev = linked_generation ''previous'' (b_disk b)
      in fold remove_gen_dir (filter (prunable cur prev) (map fst (d_dirs (b_disk b)))) b)"

text \<open>The reasons a delivery is refused; the text sent back for each is \<open>apply_text\<close>.\<close>

datatype apply_error =
    No_files
  | Generation_zero
  | Not_flat string
  | Twice string
  | No_main string
  | Mkdir_failed
  | Write_failed string
  | Order_not_opened
  | Order_not_closed
  | Refused string
  | Link_failed

text \<open>The loop over the delivered names; \<open>seen\<close> are the files before the current one.\<close>

fun check_names :: "string \<Rightarrow> confgen_file list \<Rightarrow> confgen_file list \<Rightarrow> bool \<Rightarrow> apply_error + bool" where
  "check_names mainname seen [] has_main = Inr has_main"
| "check_names mainname seen (f # fs) has_main =
     (if \<not> flat_name (Some (f_name f)) then Inl (Not_flat (f_name f))
      else if f_name f \<in> f_name ` set seen then Inl (Twice (f_name f))
      else check_names mainname (seen @ [f]) fs (has_main \<or> mainname \<noteq> [] \<and> f_name f = mainname))"

text \<open>\<open>write_whole\<close>: the content midway, then the whole content.\<close>

definition write_whole :: "calls \<Rightarrow> string \<Rightarrow> confgen_file \<Rightarrow> box \<Rightarrow> bool \<times> box" where
  "write_whole c dir f b =
     (case c_write c (f_name f) of
        Not_opened \<Rightarrow> (False, b)
      | Cut part \<Rightarrow> (False, in_dir dir (AList.update (f_name f) (Reg part)) b)
      | Written part \<Rightarrow>
          (True, in_dir dir (AList.update (f_name f) (Reg (f_data f))) (in_dir dir (AList.update (f_name f) (Reg part)) b)))"

primrec write_files :: "calls \<Rightarrow> string \<Rightarrow> confgen_file list \<Rightarrow> box \<Rightarrow> string option \<times> box" where
  "write_files c dir [] b = (None, b)"
| "write_files c dir (f # fs) b =
     (case write_whole c dir f b of (ok, b1) \<Rightarrow>
        if ok then write_files c dir fs b1 else (Some (f_name f), b1))"

definition order_text :: "confgen_file list \<Rightarrow> byte list" where
  "order_text fs = concat (map (\<lambda>f. name_bytes (f_name f) @ [0x0A]) fs)"

definition write_order :: "calls \<Rightarrow> string \<Rightarrow> confgen_file list \<Rightarrow> box \<Rightarrow> apply_error option \<times> box" where
  "write_order c dir fs b =
     (if \<not> c_order_open c then (Some Order_not_opened, b)
      else let b1 = in_dir dir (AList.update GEN_ORDER_FILE (Reg (order_text fs))) (in_dir dir (AList.update GEN_ORDER_FILE (Reg [])) b)
           in if c_order_close c then (None, b1) else (Some Order_not_closed, b1))"

text \<open>From the empty directory to the validated one.\<close>

definition stage :: "calls \<Rightarrow> parser \<Rightarrow> nat \<Rightarrow> string \<Rightarrow> confgen_file list \<Rightarrow> box \<Rightarrow> (apply_error + nat) \<times> box" where
  "stage c parse errlen dir fs b =
     (case write_files c dir fs b of
        (Some name, b1) \<Rightarrow> (Inl (Write_failed name), remove_gen_dir dir b1)
      | (None, b1) \<Rightarrow>
         (case write_order c dir fs b1 of
            (Some e, b2) \<Rightarrow> (Inl e, remove_gen_dir dir b2)
          | (None, b2) \<Rightarrow>
             (let x = (case map_of (d_dirs (b_disk b2)) dir of None \<Rightarrow> [] | Some x \<Rightarrow> x)
              in case validate_config c (parse x (b_mainname b2)) errlen of
                   (ok, err, objects) \<Rightarrow> if ok then (Inr objects, b2) else (Inl (Refused err), remove_gen_dir dir b2))))"

definition swap_in :: "calls \<Rightarrow> nat \<Rightarrow> nat \<Rightarrow> box \<Rightarrow> bool \<times> box" where
  "swap_in c prev generation b =
     (let b1 = (if prev > 0 then snd (point_link c ''previous'' prev b) else b);
          b2 = snd (save_mainname c b1)
      in case point_link c ''current'' generation b2 of
           (False, b3) \<Rightarrow> (False, remove_gen_dir (gendir_path generation) b3)
         | (True, b3) \<Rightarrow> (True, (prune_generations (b3\<lparr>b_running := generation\<rparr>))\<lparr>b_sighup := True\<rparr>))"

definition confgen_apply ::
    "calls \<Rightarrow> parser \<Rightarrow> nat \<Rightarrow> string \<Rightarrow> nat \<Rightarrow> confgen_file list \<Rightarrow> box \<Rightarrow> (apply_error + nat) \<times> box" where
  "confgen_apply c parse errlen configfile generation fs b =
     (if fs = [] then (Inl No_files, b)
      else if generation = 0 then (Inl Generation_zero, b)
      else case check_names (b_mainname b) [] fs False of
        Inl e \<Rightarrow> (Inl e, b)
      | Inr has \<Rightarrow>
         (let m = (if b_mainname b = [] then fit 4096 (basename configfile) else b_mainname b);
              has_main = (if b_mainname b = [] then m \<in> f_name ` set fs else has);
              b1 = b\<lparr>b_mainname := m\<rparr>; dir = gendir_path generation
          in if \<not> has_main then (Inl (No_main m), b1)
             else let b2 = remove_gen_dir dir b1
                  in if \<not> c_mkdir c \<or> dir \<in> fst ` set (d_dirs (b_disk b2)) then (Inl Mkdir_failed, b2)
                     else (case stage c parse errlen dir fs (on_disk (d_dirs_update (AList.update dir [])) b2) of
                             (Inl e, b3) \<Rightarrow> (Inl e, b3)
                           | (Inr objects, b3) \<Rightarrow>
                               (case swap_in c (b_running b) generation b3 of
                                  (ok, b4) \<Rightarrow> ((if ok then Inr objects else Inl Link_failed), b4)))))"

section \<open>Rollback and revert\<close>

datatype roll_error = No_previous | Copy_refused string | Cannot_point nat

definition confgen_rollback :: "calls \<Rightarrow> parser \<Rightarrow> nat \<Rightarrow> box \<Rightarrow> (roll_error + unit) \<times> box" where
  "confgen_rollback c parse errlen b =
     (let cur = b_running b; prev = linked_generation ''previous'' (b_disk b)
      in if prev = 0 \<or> prev = cur then (Inl No_previous, b)
         else let x = (case map_of (d_dirs (b_disk b)) (gendir_path prev) of None \<Rightarrow> [] | Some x \<Rightarrow> x)
              in case validate_config c (parse x (b_mainname b)) errlen of
                   (ok, err, _) \<Rightarrow>
                     if \<not> ok then (Inl (Copy_refused err), b)
                     else (case point_link c ''current'' prev b of
                             (False, b1) \<Rightarrow> (Inl (Cannot_point prev), b1)
                           | (True, b1) \<Rightarrow>
                               (let b2 = (if cur > 0 then snd (point_link c ''previous'' cur b1) else b1)
                                in (Inr (), b2\<lparr>b_running := prev, b_sighup := True\<rparr>))))"

datatype revert_error = On_seed | Seed_refused | Cannot_unlink

definition confgen_revert :: "calls \<Rightarrow> load_result \<Rightarrow> box \<Rightarrow> (revert_error + unit) \<times> box" where
  "confgen_revert c seed b =
     (if b_running b = 0 then (Inl On_seed, b)
      else if \<not> fst (validate_config c seed 1024) then (Inl Seed_refused, b)
      else if \<not> c_unlink c then (Inl Cannot_unlink, b)
      else (Inr (), (on_disk (d_links_update (\<lambda>l. l(''current'' := None))) b)\<lparr>b_running := 0, b_sighup := True\<rparr>))"

section \<open>Names of generations\<close>

lemma digits_val_zeros: "digits_val 0 (replicate k CHR ''0'' @ ds) = digits_val 0 ds"
  by (induction k) (simp_all add: digit_val_def)

lemma pad10_digits: "c \<in> set (pad10 n) \<Longrightarrow> is_digit c"
  by (auto simp: pad10_def is_digit_def[of "CHR ''0''"] dest: dec_string_digits split: if_splits)

lemma pad10_not_Nil: "pad10 n \<noteq> []"
  by (simp add: pad10_def)

lemma scan_number_digits:
  assumes "\<And>c. c \<in> set ds \<Longrightarrow> is_digit c"
  shows "scan_number ds = (False, ds, [])"
proof (cases ds)
  case (Cons c cs)
  then have "\<not> is_space c" "c \<noteq> CHR ''-''" "c \<noteq> CHR ''+''" using assms digit_not_space digit_not_sign by auto
  moreover have "takeWhile is_digit ds = ds" "dropWhile is_digit ds = []" using assms by auto
  ultimately show ?thesis by (simp add: scan_number_def Let_def Cons)
qed (simp add: scan_number_def)

lemma strtoul_pad10: "n \<le> ULONG_MAX \<Longrightarrow> strtoul (pad10 n) = n"
  using scan_number_digits[OF pad10_digits]
  by (simp add: strtoul_def) (simp add: pad10_def digits_val_zeros digits_val_dec_string)

lemma length_pad10: "n \<le> ULONG_MAX \<Longrightarrow> length (pad10 n) \<le> 30"
  using dec_string_length[of n 19] by (simp add: pad10_def)

lemma gendir_strtoul: "n \<le> ULONG_MAX \<Longrightarrow> strtoul (drop 4 (gendir_path n)) = n"
  by (simp add: gendir_path_def strtoul_pad10)

lemma gendir_path_inject: "m \<le> ULONG_MAX \<Longrightarrow> n \<le> ULONG_MAX \<Longrightarrow> gendir_path m = gendir_path n \<longleftrightarrow> m = n"
  using gendir_strtoul by metis

lemma linked_generation_path:
  assumes "n \<le> ULONG_MAX" "d_links d link = Some (gendir_path n)"
  shows "linked_generation link d = n"
proof -
  have nd: "CHR ''-'' \<notin> set (pad10 n)" using pad10_digits digit_not_sign by blast
  have "takeWhile (\<lambda>c. c \<noteq> CHR ''-'') (rev (gendir_path n)) = rev (pad10 n)"
    using nd by (auto simp: gendir_path_def takeWhile_append)
  moreover have "take 4095 (gendir_path n) = gendir_path n"
    using length_pad10[OF assms(1)] by (simp add: gendir_path_def)
  ultimately show ?thesis
    using assms by (simp add: linked_generation_def Let_def strtoul_pad10) (simp add: gendir_path_def)
qed

section \<open>What the daemon would load after a crash\<close>

text \<open>
  The configuration a daemon started on this disk loads: the generation, its directory and the name of the entry
  file; \<open>None\<close> is the seed.
\<close>

definition boot :: "string \<Rightarrow> disk \<Rightarrow> (nat \<times> dir \<times> string) option" where
  "boot configfile d =
     (let m = entry_name configfile d []; gen = linked_generation ''current'' d
      in case d_links d ''current'' of None \<Rightarrow> None
         | Some t \<Rightarrow> if gen > 0 \<and> regular_in t m d then Some (gen, the (map_of (d_dirs d) t), m) else None)"

lemma boot_active:
  assumes "b_mainname b = []"
  shows "confgen_active_config sd cf b =
     (case boot cf (b_disk b) of
        None \<Rightarrow> (fit 4096 cf, b\<lparr>b_mainname := entry_name cf (b_disk b) [], b_running := 0\<rparr>)
      | Some (g, x, m) \<Rightarrow> (fit 4096 (sd @ ''/current/'' @ m), b\<lparr>b_mainname := m, b_running := g\<rparr>))"
  using assms by (auto simp: confgen_active_config_def boot_def Let_def linked_generation_def split: option.split)

text \<open>Two disks that agree on what starting depends on, directories outside \<open>X\<close> included.\<close>

definition agrees :: "string \<Rightarrow> string set \<Rightarrow> disk \<Rightarrow> disk \<Rightarrow> bool" where
  "agrees cf X d d' \<longleftrightarrow> entry_name cf d' [] = entry_name cf d [] \<and> d_links d' ''current'' = d_links d ''current'' \<and>
     (\<forall>n. n \<notin> X \<longrightarrow> map_of (d_dirs d') n = map_of (d_dirs d) n)"

lemma agrees_refl [simp]: "agrees cf X d d"
  by (simp add: agrees_def)

lemma agrees_trans: "agrees cf X a b \<Longrightarrow> agrees cf X b c \<Longrightarrow> agrees cf X a c"
  by (simp add: agrees_def)

lemma agrees_mono: "agrees cf X a b \<Longrightarrow> X \<subseteq> Y \<Longrightarrow> agrees cf Y a b"
  by (auto simp: agrees_def)

lemma agrees_boot:
  assumes "agrees cf X d d'" "\<And>t. d_links d ''current'' = Some t \<Longrightarrow> t \<notin> X"
  shows "boot cf d' = boot cf d"
proof (cases "d_links d ''current''")
  case None
  then show ?thesis using assms(1) by (simp add: boot_def agrees_def)
next
  case (Some t)
  have "map_of (d_dirs d') t = map_of (d_dirs d) t" using assms Some by (simp add: agrees_def)
  then show ?thesis using assms(1) Some
    by (simp add: boot_def agrees_def Let_def linked_generation_def regular_in_def)
qed

text \<open>
  An operation keeps what starting depends on: every disk it leaves on its way agrees with the one before, and
  the memory is untouched.
\<close>

definition keeps :: "string \<Rightarrow> string set \<Rightarrow> box \<Rightarrow> box \<Rightarrow> bool" where
  "keeps cf X b b' \<longleftrightarrow> agrees cf X (b_disk b) (b_disk b') \<and>
     (\<exists>ts. b_trace b' = b_trace b @ ts \<and> (\<forall>d\<in>set ts. agrees cf X (b_disk b) d)) \<and>
     b_mainname b' = b_mainname b \<and> b_running b' = b_running b \<and> b_sighup b' = b_sighup b"

lemma keeps_refl [simp]: "keeps cf X b b"
  by (simp add: keeps_def)

lemma keeps_trans [trans]:
  assumes "keeps cf X a b" "keeps cf X b c"
  shows "keeps cf X a c"
proof -
  obtain ts us where t: "b_trace b = b_trace a @ ts" "\<forall>d\<in>set ts. agrees cf X (b_disk a) d"
    "b_trace c = b_trace b @ us" "\<forall>d\<in>set us. agrees cf X (b_disk b) d"
    using assms unfolding keeps_def by blast
  have "agrees cf X (b_disk a) (b_disk b)" using assms(1) by (simp add: keeps_def)
  then have "\<forall>d\<in>set (ts @ us). agrees cf X (b_disk a) d" using t agrees_trans by auto
  moreover have "b_trace c = b_trace a @ (ts @ us)" using t by simp
  ultimately show ?thesis using assms unfolding keeps_def by (metis agrees_trans)
qed

lemma keeps_mono: "keeps cf X a b \<Longrightarrow> X \<subseteq> Y \<Longrightarrow> keeps cf Y a b"
  unfolding keeps_def by (meson agrees_mono)

lemma keeps_on_disk: "agrees cf X (b_disk b) (f (b_disk b)) \<Longrightarrow> keeps cf X b (on_disk f b)"
  by (simp add: keeps_def on_disk_def)

lemma keeps_in_dir: "keeps cf {name} b (in_dir name f b)"
  unfolding in_dir_def by (rule keeps_on_disk) (auto simp: agrees_def entry_name_def update_conv split: option.split)

lemma keeps_unlink_loop: "keeps cf {name} b (unlink_loop name es b)"
proof (induction es arbitrary: b)
  case (Cons e es)
  show ?case using keeps_trans[OF keeps_in_dir Cons.IH] Cons.IH by simp
qed simp

lemma keeps_rmdir: "keeps cf {name} b (rmdir name b)"
  unfolding rmdir_def by (auto intro!: keeps_on_disk simp: agrees_def entry_name_def delete_conv)

lemma keeps_remove_gen_dir: "keeps cf {name} b (remove_gen_dir name b)"
  unfolding remove_gen_dir_def
  by (auto split: option.split intro: keeps_trans[OF keeps_unlink_loop keeps_rmdir])

lemma keeps_write_whole: "keeps cf {dir} b (snd (write_whole c dir f b))"
  unfolding write_whole_def
  by (auto split: write_result.split intro: keeps_in_dir keeps_trans[OF keeps_in_dir keeps_in_dir])

lemma keeps_write_files: "keeps cf {dir} b (snd (write_files c dir fs b))"
proof (induction fs arbitrary: b)
  case (Cons f fs)
  have "keeps cf {dir} b (snd (write_whole c dir f b))" by (rule keeps_write_whole)
  then show ?case
    using keeps_trans[OF _ Cons.IH] by (cases "write_whole c dir f b") auto
qed simp

lemma keeps_write_order: "keeps cf {dir} b (snd (write_order c dir fs b))"
  unfolding write_order_def Let_def using keeps_trans[OF keeps_in_dir keeps_in_dir] by auto

lemma keeps_stage: "keeps cf {dir} b (snd (stage c parse n dir fs b))"
proof -
  obtain r b1 where w: "write_files c dir fs b = (r, b1)" by fastforce
  obtain e b2 where o: "write_order c dir fs b1 = (e, b2)" by fastforce
  have k: "keeps cf {dir} b b1" "keeps cf {dir} b1 b2"
    using keeps_write_files[of cf dir b c fs] keeps_write_order[of cf dir b1 c fs] by (simp_all add: w o)
  have k2: "keeps cf {dir} b b2" by (rule keeps_trans[OF k])
  have r: "keeps cf {dir} b (remove_gen_dir dir b1)" "keeps cf {dir} b (remove_gen_dir dir b2)"
    using keeps_trans[OF k(1) keeps_remove_gen_dir] keeps_trans[OF k2 keeps_remove_gen_dir] by blast+
  show ?thesis
    using k2 r by (simp add: stage_def w o Let_def split: option.split prod.split)
qed

lemma keeps_point_previous: "keeps cf X b (snd (point_link c ''previous'' g b))"
proof -
  define b1 where "b1 = on_disk (d_links_update (\<lambda>l. l(''previous.new'' := None))) b"
  define b2 where "b2 = on_disk (d_links_update (\<lambda>l. l(''previous.new'' \<mapsto> gendir_path g))) b1"
  have k1: "keeps cf X b b1" unfolding b1_def by (rule keeps_on_disk) (simp add: agrees_def entry_name_def)
  have k2: "keeps cf X b b2"
    by (rule keeps_trans[OF k1]) (unfold b2_def, rule keeps_on_disk, simp add: agrees_def entry_name_def)
  have k3: "keeps cf X b2 (on_disk (d_links_update (\<lambda>l. l(''previous.new'' := None))) b2)"
    by (rule keeps_on_disk) (simp add: agrees_def entry_name_def)
  have k4: "keeps cf X b2 (on_disk (d_links_update (\<lambda>l. l(''previous'' \<mapsto> gendir_path g, ''previous.new'' := None))) b2)"
    by (rule keeps_on_disk) (simp add: agrees_def entry_name_def)
  show ?thesis
    using k1 keeps_trans[OF k2 k3] keeps_trans[OF k2 k4] by (simp add: point_link_def Let_def b1_def b2_def)
qed

text \<open>The name of the entry file in memory is the one a restart would find.\<close>

definition synced :: "string \<Rightarrow> box \<Rightarrow> bool" where
  "synced cf b \<longleftrightarrow> b_mainname b = entry_name cf (b_disk b) [] \<and> CHR 0x0A \<notin> set (b_mainname b)"

lemma length_entry_name: "length (entry_name cf d []) \<le> 4095"
proof -
  have "length (main_line (d_main d) []) \<le> 4095"
    using length_takeWhile_le[of "\<lambda>c. c \<noteq> CHR 0x0A"] by (fastforce simp: main_line_def split: option.split intro: order_trans)
  then show ?thesis by (simp add: entry_name_def Let_def fit_def)
qed

lemma entry_name_saved:
  assumes "m = entry_name cf d []" "CHR 0x0A \<notin> set m" "d_main d' = Some (m @ NL)"
  shows "entry_name cf d' [] = m"
proof -
  have "length m \<le> 4095" using length_entry_name assms(1) by simp
  then have "takeWhile (\<lambda>c. c \<noteq> CHR 0x0A) (take 4095 (m @ NL)) = m"
    using assms(2) by (cases "4095 - length m") (auto simp: NL_def takeWhile_append)
  then have ml: "main_line (d_main d') [] = m" by (simp add: main_line_def assms(3) NL_def)
  show ?thesis
  proof (cases "flat_name (Some m)")
    case False
    then have "m = fit 4096 (basename cf)" using assms(1) by (auto simp: entry_name_def Let_def split: if_splits)
    then show ?thesis using ml by (auto simp: entry_name_def)
  qed (simp add: entry_name_def ml)
qed

lemma keeps_save_mainname:
  assumes "synced cf b"
  shows "keeps cf X b (snd (save_mainname c b))"
proof -
  define b1 where "b1 = on_disk (d_main_new_update (\<lambda>_. Some (b_mainname b @ NL))) b"
  have k1: "keeps cf X b b1" unfolding b1_def by (rule keeps_on_disk) (simp add: agrees_def entry_name_def)
  have k2: "keeps cf X b1 (on_disk (d_main_new_update (\<lambda>_. None)) b1)"
    by (rule keeps_on_disk) (simp add: agrees_def entry_name_def)
  have new: "d_main_new (b_disk b1) = Some (b_mainname b @ NL)" by (simp add: b1_def on_disk_def)
  have same: "entry_name cf (b_disk b1) [] = b_mainname b"
    using assms by (simp add: b1_def on_disk_def synced_def entry_name_def)
  have k3: "keeps cf X b1 (on_disk (\<lambda>d. d\<lparr>d_main := d_main_new d, d_main_new := None\<rparr>) b1)"
  proof (rule keeps_on_disk)
    have "entry_name cf ((b_disk b1)\<lparr>d_main := d_main_new (b_disk b1), d_main_new := None\<rparr>) [] = b_mainname b"
      by (rule entry_name_saved[of _ cf "b_disk b1"]) (use assms same new in \<open>auto simp: synced_def\<close>)
    then show "agrees cf X (b_disk b1) ((b_disk b1)\<lparr>d_main := d_main_new (b_disk b1), d_main_new := None\<rparr>)"
      by (simp add: agrees_def same)
  qed
  show ?thesis
    using k1 keeps_trans[OF k1 k2] keeps_trans[OF k1 k3] by (simp add: save_mainname_def Let_def b1_def)
qed

lemma keeps_synced: "keeps cf X b b' \<Longrightarrow> synced cf b \<Longrightarrow> synced cf b'"
  by (auto simp: keeps_def synced_def agrees_def)

definition link_current :: "nat \<Rightarrow> box \<Rightarrow> box" where
  "link_current g = on_disk (d_links_update (\<lambda>l. l(''current'' \<mapsto> gendir_path g, ''current.new'' := None)))"

lemma point_current:
  assumes "point_link c ''current'' g b = (ok, b')"
  shows "if ok then \<exists>b2. keeps cf X b b2 \<and> b' = link_current g b2 else keeps cf X b b'"
proof -
  define b1 where "b1 = on_disk (d_links_update (\<lambda>l. l(''current.new'' := None))) b"
  define b2 where "b2 = on_disk (d_links_update (\<lambda>l. l(''current.new'' \<mapsto> gendir_path g))) b1"
  have k1: "keeps cf X b b1" unfolding b1_def by (rule keeps_on_disk) (simp add: agrees_def entry_name_def)
  have k2: "keeps cf X b b2"
    by (rule keeps_trans[OF k1]) (unfold b2_def, rule keeps_on_disk, simp add: agrees_def entry_name_def)
  have k3: "keeps cf X b2 (on_disk (d_links_update (\<lambda>l. l(''current.new'' := None))) b2)"
    by (rule keeps_on_disk) (simp add: agrees_def entry_name_def)
  show ?thesis
    using assms k1 k2 keeps_trans[OF k2 k3]
    by (auto simp: point_link_def Let_def b1_def[symmetric] b2_def[symmetric] link_current_def split: if_splits)
qed

lemma keeps_prune:
  "keeps cf {n. prunable (linked_generation ''current'' (b_disk b)) (linked_generation ''previous'' (b_disk b)) n} b (prune_generations b)"
proof -
  have "keeps cf {n. P n} b (fold remove_gen_dir (filter P ns) b)" for P ns
  proof (induction ns arbitrary: b)
    case (Cons n ns)
    show ?case
    proof (cases "P n")
      case True
      have "keeps cf {n. P n} b (remove_gen_dir n b)" by (rule keeps_mono[OF keeps_remove_gen_dir]) (use True in auto)
      from keeps_trans[OF this Cons.IH] show ?thesis using True by simp
    qed (simp add: Cons.IH)
  qed simp
  then show ?thesis by (simp add: prune_generations_def Let_def)
qed

lemma not_prunable_current: "g \<le> ULONG_MAX \<Longrightarrow> \<not> prunable g prev (gendir_path g)"
  by (simp add: prunable_def Let_def gendir_strtoul)

section \<open>What a staged directory holds\<close>

lemma update_new: "k \<notin> fst ` set al \<Longrightarrow> AList.update k v al = al @ [(k, v)]"
  by (induction al) auto

lemma update_last: "k \<notin> fst ` set al \<Longrightarrow> AList.update k v (al @ [(k, w)]) = al @ [(k, v)]"
  by (induction al) auto

lemma in_dir_content:
  "map_of (d_dirs (b_disk b)) name = Some x \<Longrightarrow> map_of (d_dirs (b_disk (in_dir name f b))) name = Some (f x)"
  by (simp add: in_dir_def on_disk_def update_conv)

definition entry_of :: "confgen_file \<Rightarrow> string \<times> dirent" where
  "entry_of f = (f_name f, Reg (f_data f))"

definition staged_dir :: "confgen_file list \<Rightarrow> dir" where
  "staged_dir fs = map entry_of fs @ [(GEN_ORDER_FILE, Reg (order_text fs))]"

lemma fst_entry_of [simp]: "fst (entry_of f) = f_name f"
  by (simp add: entry_of_def)

lemma write_files_content:
  assumes "write_files c dir fs b = (None, b')" "map_of (d_dirs (b_disk b)) dir = Some x"
    "distinct (map f_name fs)" "f_name ` set fs \<inter> fst ` set x = {}"
  shows "map_of (d_dirs (b_disk b')) dir = Some (x @ map entry_of fs)"
  using assms
proof (induction fs arbitrary: b x)
  case (Cons f fs)
  obtain ok b1 where w: "write_whole c dir f b = (ok, b1)" by fastforce
  have ok: "ok" using Cons.prems(1) w by (auto split: if_splits)
  have new: "f_name f \<notin> fst ` set x" using Cons.prems(4) by auto
  have "map_of (d_dirs (b_disk b1)) dir = Some (x @ [entry_of f])"
    using w ok Cons.prems(2) new
    by (auto simp: write_whole_def in_dir_content update_new update_last entry_of_def split: write_result.splits)
  then have "map_of (d_dirs (b_disk b')) dir = Some ((x @ [entry_of f]) @ map entry_of fs)"
    by (rule Cons.IH[rotated]) (use Cons.prems w ok in auto)
  then show ?case by simp
qed simp

lemma write_order_content:
  assumes "write_order c dir fs b = (None, b')" "map_of (d_dirs (b_disk b)) dir = Some (map entry_of fs)"
    "\<forall>f\<in>set fs. flat_name (Some (f_name f))"
  shows "map_of (d_dirs (b_disk b')) dir = Some (staged_dir fs)"
proof -
  have new: "GEN_ORDER_FILE \<notin> fst ` set (map entry_of fs)" using assms(3) by (auto dest!: flat_nameD(5) bspec)
  have "b' = in_dir dir (AList.update GEN_ORDER_FILE (Reg (order_text fs))) (in_dir dir (AList.update GEN_ORDER_FILE (Reg [])) b)"
    using assms(1) by (auto simp: write_order_def Let_def split: if_splits)
  then show ?thesis using assms(2) by (simp add: in_dir_content update_new[OF new] update_last[OF new] staged_dir_def)
qed

text \<open>A configuration this daemon would run: it parses, declares objects and defines its root.\<close>

definition accepts :: "load_result \<Rightarrow> bool" where
  "accepts r \<longleftrightarrow> (\<exists>l n. r = Loaded l \<and> \<not> l_bad l \<and> l_objects l = Some n \<and> l_noroot l = None)"

lemma validate_accepts: "fst (validate_config c r n) \<longleftrightarrow> c_pipe c \<and> c_fork c \<and> accepts r"
  by (auto simp: validate_config_def validate_child_def accepts_def Let_def split: load_result.splits option.splits if_splits prod.splits sum.splits)

lemma check_names_ok:
  assumes "check_names m seen fs h = Inr h'" "distinct (map f_name seen)"
  shows "distinct (map f_name (seen @ fs)) \<and> (\<forall>f\<in>set fs. flat_name (Some (f_name f))) \<and>
     (h' \<longleftrightarrow> h \<or> m \<noteq> [] \<and> m \<in> f_name ` set fs)"
  using assms
proof (induction m seen fs h arbitrary: h' rule: check_names.induct)
  case (2 m seen f fs h)
  have c: "flat_name (Some (f_name f))" "f_name f \<notin> f_name ` set seen"
    "check_names m (seen @ [f]) fs (h \<or> m \<noteq> [] \<and> f_name f = m) = Inr h'"
    using "2.prems"(1) by (auto split: if_splits)
  have "distinct (map f_name (seen @ [f]))" using "2.prems"(2) c(2) by auto
  with "2.IH"[OF _ _ c(3)] c(1,2) show ?case by auto
qed auto

section \<open>A delivery step by step\<close>

lemma stage_accepted:
  assumes "stage c parse n dir fs b = (Inr objects, b')" "map_of (d_dirs (b_disk b)) dir = Some []"
    "distinct (map f_name fs)" "\<forall>f\<in>set fs. flat_name (Some (f_name f))"
  shows "map_of (d_dirs (b_disk b')) dir = Some (staged_dir fs) \<and> accepts (parse (staged_dir fs) (b_mainname b'))"
proof -
  obtain r b1 where w: "write_files c dir fs b = (r, b1)" by fastforce
  have r: "r = None" using assms(1) w by (cases r) (auto simp: stage_def)
  obtain e b2 where o: "write_order c dir fs b1 = (e, b2)" by fastforce
  have e: "e = None" using assms(1) w o r by (cases e) (auto simp: stage_def)
  have c1: "map_of (d_dirs (b_disk b1)) dir = Some (map entry_of fs)"
    using write_files_content[OF w[unfolded r] assms(2,3)] by simp
  have c2: "map_of (d_dirs (b_disk b2)) dir = Some (staged_dir fs)"
    by (rule write_order_content[OF o[unfolded e] c1 assms(4)])
  have "fst (validate_config c (parse (staged_dir fs) (b_mainname b2)) n) \<and> b' = b2"
    using assms(1) by (auto simp: stage_def w r o e Let_def c2 split: prod.splits if_splits)
  then show ?thesis using c2 by (simp add: validate_accepts)
qed

lemma point_link_links:
  "link \<noteq> link' \<Longrightarrow> link' \<noteq> link @ ''.new'' \<Longrightarrow> d_links (b_disk (snd (point_link c link g b))) link' = d_links (b_disk b) link'"
  "c_symlink c link \<Longrightarrow> c_rename c link \<Longrightarrow> d_links (b_disk (snd (point_link c link g b))) link = Some (gendir_path g)"
  by (simp_all add: point_link_def Let_def on_disk_def)

lemma save_mainname_links [frame]: "d_links (b_disk (snd (save_mainname c b))) = d_links (b_disk b)"
  by (simp add: save_mainname_def Let_def on_disk_def)

lemma link_current_links: "d_links (b_disk (link_current g b)) ''previous'' = d_links (b_disk b) ''previous''"
  by (simp add: link_current_def on_disk_def)

lemma remove_gen_dir_links [frame]: "d_links (b_disk (remove_gen_dir n b)) = d_links (b_disk b)"
proof -
  have "d_links (b_disk (unlink_loop n x b)) = d_links (b_disk b)" for x b
    by (induction x arbitrary: b) (simp_all add: in_dir_def on_disk_def)
  then show ?thesis by (simp add: remove_gen_dir_def rmdir_def on_disk_def split: option.split)
qed

lemma prune_links [frame]: "d_links (b_disk (prune_generations b)) = d_links (b_disk b)"
proof -
  have "d_links (b_disk (fold remove_gen_dir ns b)) = d_links (b_disk b)" for ns
    by (induction ns arbitrary: b) (simp_all add: frame)
  then show ?thesis by (simp add: prune_generations_def Let_def)
qed

text \<open>Either the swap fails and keeps everything, or it is the move of the link followed by the pruning.\<close>

lemma swap_in_cases:
  assumes "swap_in c prev g b = (ok, b')" "synced cf b"
  obtains (failed) "\<not> ok" "keeps cf {gendir_path g} b b'"
  | (swapped) b3 where "ok" "keeps cf {} b b3"
      "0 < prev \<Longrightarrow> c_symlink c ''previous'' \<Longrightarrow> c_rename c ''previous'' \<Longrightarrow> d_links (b_disk b3) ''previous'' = Some (gendir_path prev)"
      "b' = (prune_generations ((link_current g b3)\<lparr>b_running := g\<rparr>))\<lparr>b_sighup := True\<rparr>"
proof -
  define b1 where "b1 = (if prev > 0 then snd (point_link c ''previous'' prev b) else b)"
  define b2 where "b2 = snd (save_mainname c b1)"
  have k1: "keeps cf {} b b1" by (simp add: b1_def keeps_point_previous)
  have k2: "keeps cf {} b b2"
    unfolding b2_def by (rule keeps_trans[OF k1 keeps_save_mainname]) (rule keeps_synced[OF k1 assms(2)])
  obtain pok b4 where p: "point_link c ''current'' g b2 = (pok, b4)" by fastforce
  have unf: "swap_in c prev g b = (if pok then (True, (prune_generations (b4\<lparr>b_running := g\<rparr>))\<lparr>b_sighup := True\<rparr>)
      else (False, remove_gen_dir (gendir_path g) b4))"
    using p by (simp add: swap_in_def Let_def b1_def[symmetric] b2_def[symmetric])
  show thesis
  proof (cases pok)
    case True
    then obtain b3 where "keeps cf {} b2 b3" "b4 = link_current g b3" using point_current[OF p, of cf "{}"] by auto
    moreover have "d_links (b_disk b3) ''previous'' = d_links (b_disk b2) ''previous''"
      using point_link_links(1)[of "''current''" "''previous''" c g b2] p calculation(2) by (simp add: link_current_links)
    moreover have "d_links (b_disk b2) ''previous'' = Some (gendir_path prev)"
      if "0 < prev" "c_symlink c ''previous''" "c_rename c ''previous''"
      using that by (simp add: b2_def b1_def frame point_link_links(2))
    ultimately show thesis using swapped[of b3] True unf assms(1) keeps_trans[OF k2] by simp
  next
    case False
    then have "keeps cf {} b b4" using keeps_trans[OF k2] point_current[OF p, of cf "{}"] by simp
    then have "keeps cf {gendir_path g} b (remove_gen_dir (gendir_path g) b4)"
      by (rule keeps_trans[OF keeps_mono keeps_remove_gen_dir]) simp
    then show thesis using failed False unf assms(1) by simp
  qed
qed

lemma keeps_main: "synced cf b \<Longrightarrow> (if b_mainname b = [] then fit 4096 (basename cf) else b_mainname b) = b_mainname b"
proof -
  assume s: "synced cf b"
  show ?thesis
  proof (cases "b_mainname b = []")
    case True
    have "\<not> flat_name (Some [])" by (simp add: flat_name_def)
    then have "fit 4096 (basename cf) = []" using s True by (auto simp: synced_def entry_name_def Let_def split: if_splits)
    then show ?thesis using True by simp
  qed simp
qed

text \<open>The delivery after the names have been checked.\<close>

lemma apply_run:
  assumes "synced cf b" "fs \<noteq> []" "g \<noteq> 0" "check_names (b_mainname b) [] fs False = Inr h"
  defines "dir \<equiv> gendir_path g"
  defines "b2 \<equiv> remove_gen_dir dir b"
  shows "confgen_apply c parse n cf g fs b =
    (if b_mainname b \<notin> f_name ` set fs then (Inl (No_main (b_mainname b)), b)
     else if \<not> c_mkdir c \<or> dir \<in> fst ` set (d_dirs (b_disk b2)) then (Inl Mkdir_failed, b2)
     else (case stage c parse n dir fs (on_disk (d_dirs_update (AList.update dir [])) b2) of
             (Inl e, b4) \<Rightarrow> (Inl e, b4)
           | (Inr objects, b4) \<Rightarrow> (case swap_in c (b_running b) g b4 of
                (ok, b5) \<Rightarrow> ((if ok then Inr objects else Inl Link_failed), b5))))"
proof -
  have has: "(if b_mainname b = [] then b_mainname b \<in> f_name ` set fs else h) = (b_mainname b \<in> f_name ` set fs)"
    using check_names_ok[OF assms(4)] by auto
  show ?thesis
    unfolding confgen_apply_def assms(4) sum.case Let_def keeps_main[OF assms(1)] has dir_def b2_def
    using assms(2,3) by simp
qed

lemma apply_early:
  assumes "confgen_apply c parse n cf g fs b = (r, b')"
    "fs = [] \<or> g = 0 \<or> (\<exists>e. check_names (b_mainname b) [] fs False = Inl e)"
  shows "(\<exists>e. r = Inl e) \<and> b' = b"
  using assms by (auto simp: confgen_apply_def split: if_splits)

lemma apply_cases:
  assumes "confgen_apply c parse n cf g fs b = (r, b')" "synced cf b"
  obtains (refused) e where "r = Inl e" "keeps cf {gendir_path g} b b'"
  | (accepted) objects b3 where "r = Inr objects" "keeps cf {gendir_path g} b b3"
      "map_of (d_dirs (b_disk b3)) (gendir_path g) = Some (staged_dir fs)" "accepts (parse (staged_dir fs) (b_mainname b))"
      "b_mainname b \<in> f_name ` set fs" "0 < g"
      "0 < b_running b \<Longrightarrow> c_symlink c ''previous'' \<Longrightarrow> c_rename c ''previous'' \<Longrightarrow>
         d_links (b_disk b3) ''previous'' = Some (gendir_path (b_running b))"
      "b' = (prune_generations ((link_current g b3)\<lparr>b_running := g\<rparr>))\<lparr>b_sighup := True\<rparr>"
proof (cases "fs = [] \<or> g = 0 \<or> (\<exists>e. check_names (b_mainname b) [] fs False = Inl e)")
  case True
  then show thesis using apply_early[OF assms(1) True] refused by auto
next
  case False
  then obtain h where h: "check_names (b_mainname b) [] fs False = Inr h" "fs \<noteq> []" "g \<noteq> 0"
    by (cases "check_names (b_mainname b) [] fs False") auto
  define dir where "dir = gendir_path g"
  define b2 where "b2 = remove_gen_dir dir b"
  define b3 where "b3 = on_disk (d_dirs_update (AList.update dir [])) b2"
  note run = apply_run[OF assms(2) h(2,3,1), of c parse n, folded dir_def, folded b2_def, folded b3_def]
  have names: "distinct (map f_name fs)" "\<forall>f\<in>set fs. flat_name (Some (f_name f))"
    using check_names_ok[OF h(1)] by auto
  have k2: "keeps cf {dir} b b2" unfolding b2_def by (rule keeps_remove_gen_dir)
  have k3: "keeps cf {dir} b b3"
    unfolding b3_def by (rule keeps_trans[OF k2 keeps_on_disk]) (auto simp: agrees_def entry_name_def update_conv)
  have d3: "map_of (d_dirs (b_disk b3)) dir = Some []" by (simp add: b3_def on_disk_def update_conv)
  obtain sr b4 where st: "stage c parse n dir fs b3 = (sr, b4)" by fastforce
  have k4: "keeps cf {dir} b b4" using keeps_trans[OF k3 keeps_stage[of cf dir b3 c parse n fs]] by (simp add: st)
  consider (early) e where "r = Inl e" "b' = b \<or> b' = b2 \<or> b' = b4"
    | (staged) objects sok where "sr = Inr objects" "b_mainname b \<in> f_name ` set fs"
        "swap_in c (b_running b) g b4 = (sok, b')" "r = (if sok then Inr objects else Inl Link_failed)"
    using assms(1) run st by (cases sr) (auto split: if_splits prod.splits)
  then show thesis
  proof cases
    case early
    then show thesis using refused[of e] k2 k4 by (auto simp: dir_def)
  next
    case staged
    note acc = stage_accepted[OF st[unfolded staged(1)] d3 names]
    have mb: "b_mainname b4 = b_mainname b" using k4 by (simp add: keeps_def)
    from staged(3) keeps_synced[OF k4 assms(2)] show thesis
    proof (cases rule: swap_in_cases)
      case failed
      then show thesis using staged(4) refused keeps_trans[OF k4] by (simp add: dir_def)
    next
      case (swapped b6)
      have k6: "keeps cf {dir} b b6" by (rule keeps_trans[OF k4 keeps_mono[OF swapped(2)]]) simp
      have "map_of (d_dirs (b_disk b6)) dir = map_of (d_dirs (b_disk b4)) dir"
        using swapped(2) by (simp add: keeps_def agrees_def)
      then show thesis
        using accepted[of objects b6] staged(2,4) swapped acc k6 h(3) mb by (simp add: dir_def)
    qed
  qed
qed

section \<open>After an accepted delivery\<close>

lemma staged_regular: "m \<in> f_name ` set fs \<Longrightarrow> \<exists>data. map_of (staged_dir fs) m = Some (Reg data)"
proof -
  assume "m \<in> f_name ` set fs"
  then have "\<exists>data. map_of (map entry_of fs) m = Some (Reg data)"
    by (induction fs) (auto simp: entry_of_def)
  then show ?thesis by (auto simp: staged_dir_def map_add_def)
qed

lemma boot_linked:
  assumes "d_links d ''current'' = Some (gendir_path g)" "0 < g" "g \<le> ULONG_MAX"
    "map_of (d_dirs d) (gendir_path g) = Some (staged_dir fs)" "entry_name cf d [] \<in> f_name ` set fs"
  shows "boot cf d = Some (g, staged_dir fs, entry_name cf d [])"
  using staged_regular[OF assms(5)] assms linked_generation_path[OF assms(3,1)]
  by (auto simp: boot_def Let_def regular_in_def)

lemma accepted_steps:
  assumes "keeps cf {gendir_path g} b b3" "map_of (d_dirs (b_disk b3)) (gendir_path g) = Some (staged_dir fs)"
    "synced cf b" "b_mainname b \<in> f_name ` set fs" "0 < g" "g \<le> ULONG_MAX"
    "b' = (prune_generations ((link_current g b3)\<lparr>b_running := g\<rparr>))\<lparr>b_sighup := True\<rparr>"
  shows "boot cf (b_disk b') = Some (g, staged_dir fs, b_mainname b)"
    "\<exists>ts. b_trace b' = b_trace b3 @ ts \<and> (\<forall>d\<in>set ts. boot cf d = Some (g, staged_dir fs, b_mainname b))"
    "b_running b' = g" "b_sighup b'" "b_mainname b' = b_mainname b"
    "d_links (b_disk b') ''current'' = Some (gendir_path g)"
    "\<not> prunable g (linked_generation ''previous'' (b_disk b3)) n \<Longrightarrow> map_of (d_dirs (b_disk b')) n = map_of (d_dirs (b_disk b3)) n"
proof -
  define b4 where "b4 = (link_current g b3)\<lparr>b_running := g\<rparr>"
  have d4: "b_disk b4 = (b_disk b3)\<lparr>d_links := (d_links (b_disk b3))(''current'' \<mapsto> gendir_path g, ''current.new'' := None)\<rparr>"
    by (simp add: b4_def link_current_def on_disk_def)
  have t4: "b_trace b4 = b_trace b3 @ [b_disk b4]" by (simp add: b4_def link_current_def on_disk_def)
  have e3: "entry_name cf (b_disk b3) [] = b_mainname b" "b_mainname b3 = b_mainname b"
    using assms(1,3) by (auto simp: keeps_def agrees_def synced_def)
  have e4: "entry_name cf (b_disk b4) [] = b_mainname b" using e3 by (simp add: d4 entry_name_def)
  have boot4: "boot cf (b_disk b4) = Some (g, staged_dir fs, b_mainname b)"
    using boot_linked[of "b_disk b4" g fs cf] assms(2,4,5,6) by (simp add: e4) (simp add: d4)
  have cur: "linked_generation ''current'' (b_disk b4) = g" by (rule linked_generation_path) (simp_all add: d4 assms(6))
  have prev: "linked_generation ''previous'' (b_disk b4) = linked_generation ''previous'' (b_disk b3)"
    by (simp add: d4 linked_generation_def)
  define X where "X = {n. prunable g (linked_generation ''previous'' (b_disk b3)) n}"
  have kp: "keeps cf X b4 (prune_generations b4)" using keeps_prune[of cf b4] by (simp add: cur prev X_def)
  have ag: "boot cf d = Some (g, staged_dir fs, b_mainname b)" if "agrees cf X (b_disk b4) d" for d
    using agrees_boot[OF that] boot4 not_prunable_current[OF assms(6)] by (simp add: d4 X_def)
  have b': "b' = (prune_generations b4)\<lparr>b_sighup := True\<rparr>" using assms(7) by (simp add: b4_def)
  show "boot cf (b_disk b') = Some (g, staged_dir fs, b_mainname b)" using kp ag by (simp add: b' keeps_def)
  obtain ts where "b_trace (prune_generations b4) = b_trace b4 @ ts" "\<forall>d\<in>set ts. agrees cf X (b_disk b4) d"
    using kp unfolding keeps_def by blast
  then show "\<exists>ts. b_trace b' = b_trace b3 @ ts \<and> (\<forall>d\<in>set ts. boot cf d = Some (g, staged_dir fs, b_mainname b))"
    using ag boot4 by (intro exI[of _ "b_disk b4 # ts"]) (simp add: b' t4)
  show "b_running b' = g" "b_sighup b'" "b_mainname b' = b_mainname b"
    using kp e3(2) by (simp_all add: b' keeps_def b4_def link_current_def on_disk_def)
  show "d_links (b_disk b') ''current'' = Some (gendir_path g)" using kp by (simp add: b' keeps_def agrees_def d4)
  show "map_of (d_dirs (b_disk b')) n = map_of (d_dirs (b_disk b3)) n"
    if "\<not> prunable g (linked_generation ''previous'' (b_disk b3)) n"
    using kp that by (simp add: b' keeps_def agrees_def X_def d4)
qed

section \<open>Rolling back\<close>

text \<open>Moving \<open>current\<close> to a generation that is complete on disk.\<close>

lemma boot_at:
  assumes "d_links d ''current'' = Some (gendir_path p)" "0 < p" "p \<le> ULONG_MAX"
    "map_of (d_dirs d) (gendir_path p) = Some x" "map_of x m = Some (Reg data)" "entry_name cf d [] = m"
  shows "boot cf d = Some (p, x, m)"
  using assms linked_generation_path[OF assms(3,1)] by (simp add: boot_def Let_def regular_in_def)

lemma boot_gives:
  assumes "boot cf d = Some (p, x, m)" "d_links d ''current'' = Some (gendir_path q)"
  shows "map_of (d_dirs d) (gendir_path q) = Some x \<and> (\<exists>data. map_of x m = Some (Reg data)) \<and> entry_name cf d [] = m"
  using assms by (auto simp: boot_def Let_def regular_in_def split: option.splits if_splits dirent.splits)

lemma rollback_run:
  assumes "linked_generation ''previous'' (b_disk b) = p" "0 < p" "p \<noteq> b_running b" "p \<le> ULONG_MAX"
    "map_of (d_dirs (b_disk b)) (gendir_path p) = Some x" "map_of x (b_mainname b) = Some (Reg data)"
    "accepts (parse x (b_mainname b))" "entry_name cf (b_disk b) [] = b_mainname b"
    "c_pipe c" "c_fork c" "c_symlink c ''current''" "c_rename c ''current''"
  shows "\<exists>b2. confgen_rollback c parse n b = (Inr (), b2) \<and> b_running b2 = p \<and> b_sighup b2 \<and>
     boot cf (b_disk b2) = Some (p, x, b_mainname b)"
proof -
  obtain b1 where pl: "point_link c ''current'' p b = (True, b1)"
    using assms(11,12) by (simp add: point_link_def Let_def)
  obtain bb where bb: "keeps cf {} b bb" "b1 = link_current p bb" using point_current[OF pl, of cf "{}"] by auto
  define b2 where "b2 = (if 0 < b_running b then snd (point_link c ''previous'' (b_running b) b1) else b1)"
  have k2: "keeps cf {} b1 b2" by (simp add: b2_def keeps_point_previous)
  have run: "confgen_rollback c parse n b = (Inr (), b2\<lparr>b_running := p, b_sighup := True\<rparr>)"
    using assms(1-3,5) validate_accepts[of c "parse x (b_mainname b)" n] assms(7,9,10) pl
    by (simp add: confgen_rollback_def Let_def b2_def case_prod_unfold)
  have "boot cf (b_disk b1) = Some (p, x, b_mainname b)"
    by (rule boot_at) (use bb assms in \<open>simp_all add: link_current_def on_disk_def keeps_def agrees_def entry_name_def\<close>)
  then have "boot cf (b_disk b2) = Some (p, x, b_mainname b)"
    using agrees_boot[of cf "{}" "b_disk b1" "b_disk b2"] k2 by (simp add: keeps_def)
  then show ?thesis using run by simp
qed

section \<open>Properties\<close>


text \<open>
  A refused delivery costs nothing: the daemon goes on with the generation it is running, no reload
  is requested, a restart loads what it would have loaded before, and no generation but the one delivered is touched.
\<close>

theorem refused_delivery_costs_nothing:
  assumes "confgen_apply c parse n cf g fs b = (Inl e, b')" "synced cf b"
    "d_links (b_disk b) ''current'' \<noteq> Some (gendir_path g)" "k \<noteq> gendir_path g"
  shows "b_running b' = b_running b \<and> b_sighup b' = b_sighup b \<and> boot cf (b_disk b') = boot cf (b_disk b) \<and>
     map_of (d_dirs (b_disk b')) k = map_of (d_dirs (b_disk b)) k"
  using assms(1,2)
proof (cases rule: apply_cases)
  case (refused e')
  then show ?thesis
    using agrees_boot[of cf "{gendir_path g}" "b_disk b" "b_disk b'"] assms(3,4) by (auto simp: keeps_def agrees_def)
qed simp

text \<open>
  C28. An accepted delivery is live and complete: the daemon runs the delivered number and will reload, a restart loads
  that generation, its directory holds exactly the delivered files with their load order, and the
  parser of this daemon has accepted it.
\<close>

theorem accepted_delivery_is_live:
  assumes "confgen_apply c parse n cf g fs b = (Inr objects, b')" "synced cf b" "g \<le> ULONG_MAX"
  shows "b_running b' = g \<and> b_sighup b' \<and>
     boot cf (b_disk b') = Some (g, map (\<lambda>f. (f_name f, Reg (f_data f))) fs @ [(''.order'', Reg (order_text fs))], b_mainname b) \<and>
     accepts (parse (staged_dir fs) (b_mainname b)) \<and> distinct (map f_name fs) \<and>
     list_all (\<lambda>f. flat_name (Some (f_name f))) fs \<and> synced cf b'"
proof -
  have names: "distinct (map f_name fs)" "list_all (\<lambda>f. flat_name (Some (f_name f))) fs"
    using assms(1) check_names_ok[of "b_mainname b" "[]" fs False]
    by (auto simp: confgen_apply_def list_all_iff split: if_splits sum.splits)
  have sd: "staged_dir fs = map (\<lambda>f. (f_name f, Reg (f_data f))) fs @ [(''.order'', Reg (order_text fs))]"
    by (simp add: staged_dir_def entry_of_def GEN_ORDER_FILE_def)
  from assms(1,2) show ?thesis
  proof (cases rule: apply_cases)
    case (accepted o' b3)
    note st = accepted_steps[OF accepted(2,3) assms(2) accepted(5,6) assms(3) accepted(8)]
    have "entry_name cf (b_disk b') [] = b_mainname b" using st(1) by (auto simp: boot_def Let_def split: option.splits if_splits)
    then have "synced cf b'" using st(5) assms(2) by (auto simp: synced_def)
    then show ?thesis using st(1,3,4) accepted(4) names by (simp add: sd)
  qed simp
qed


text \<open>
  Reverting goes back to the seed: it is refused while the seed does not parse, and otherwise the daemon runs no
  generation, reloads, and a restart loads the seed. The generations stay on disk.
\<close>

theorem revert_boots_seed:
  "(case confgen_revert c seed b of
      (Inr _, b') \<Rightarrow> accepts seed \<and> b_running b' = 0 \<and> b_sighup b' \<and> boot cf (b_disk b') = None \<and>
                    d_dirs (b_disk b') = d_dirs (b_disk b)
    | (Inl _, b') \<Rightarrow> b' = b)"
  using validate_accepts[of c seed 1024] by (auto simp: confgen_revert_def on_disk_def boot_def split: if_splits)

section \<open>Witnesses\<close>

text \<open>
  A box that runs generation 6, a parser that refuses empty entry files, and system calls that all succeed.
\<close>

definition box6 :: box where
  "box6 = \<lparr>b_disk = \<lparr>d_main = Some (''s.conf'' @ NL), d_main_new = None,
              d_links = [''current'' \<mapsto> ''gen-0000000006'', ''previous'' \<mapsto> ''gen-0000000005''],
              d_dirs = [(''gen-0000000005'', [(''s.conf'', Reg [5])]), (''gen-0000000006'', [(''s.conf'', Reg [6])])]\<rparr>,
           b_trace = [], b_mainname = ''s.conf'', b_running = 6, b_sighup = False\<rparr>"

definition nonempty_parser :: parser where
  "nonempty_parser x m =
     (case map_of x m of
        Some (Reg (_ # _)) \<Rightarrow> Loaded \<lparr>l_complaints = [], l_bad = False, l_objects = Some 1, l_noroot = None\<rparr>
      | _ \<Rightarrow> Loaded \<lparr>l_complaints = ''empty'', l_bad = True, l_objects = None, l_noroot = None\<rparr>)"

definition all_succeed :: calls where
  "all_succeed = \<lparr>c_mkdir = True, c_write = (\<lambda>_. Written []), c_order_open = True, c_order_close = True,
     c_symlink = (\<lambda>_. True), c_rename = (\<lambda>_. True), c_main_open = True, c_main_close = True, c_main_rename = True,
     c_unlink = True, c_pipe = True, c_fork = True, c_strerror = []\<rparr>"

definition deliver :: "nat \<Rightarrow> byte list \<Rightarrow> (apply_error + nat) \<times> box" where
  "deliver g data = confgen_apply all_succeed nonempty_parser 1024 ''/etc/s.conf'' g [\<lparr>f_name = ''s.conf'', f_data = data\<rparr>] box6"

lemma box6_synced: "synced ''/etc/s.conf'' box6"
  unfolding synced_def by code_simp

lemma gendir_examples: "gendir_path 5 = ''gen-0000000005''" "gendir_path 6 = ''gen-0000000006''" "gendir_path 7 = ''gen-0000000007''"
  by code_simp+

lemma box6_links: "d_links (b_disk box6) ''current'' = Some (gendir_path 6)" "b_running box6 = 6" "b_mainname box6 = ''s.conf''"
  by (simp_all add: box6_def gendir_examples)

lemmas deliver_defs = deliver_def confgen_apply_def stage_def write_whole_def write_order_def swap_in_def point_link_def
  save_mainname_def remove_gen_dir_def in_dir_def on_disk_def validate_config_def validate_child_def box6_def all_succeed_def
  nonempty_parser_def flat_name_def gendir_examples Let_def NL_def fit_def has_prefix_def GEN_ORDER_FILE_def

lemma dec_string_1: "dec_string (Suc 0) = ''1''"
  by code_simp

lemma deliver_new: "fst (deliver 7 [7]) = Inr 1"
  by (simp add: deliver_defs dec_string_1 strtoul_def scan_number_def is_space_def is_digit_def digit_val_def)

lemma deliver_empty: "fst (deliver 7 []) = Inl (Refused ''empty'')"
  by (simp add: deliver_defs)

lemma box6_boot: "boot ''/etc/s.conf'' (b_disk box6) = Some (6, [(''s.conf'', Reg [6])], ''s.conf'')"
proof (rule boot_at)
  show "d_links (b_disk box6) ''current'' = Some (gendir_path 6)" by (rule box6_links)
  show "entry_name ''/etc/s.conf'' (b_disk box6) [] = ''s.conf''" using box6_synced by (simp add: synced_def box6_links)
  show "map_of (d_dirs (b_disk box6)) (gendir_path 6) = Some [(''s.conf'', Reg [6])]" by (simp add: box6_def gendir_examples)
  show "map_of [(''s.conf'', Reg [6])] ''s.conf'' = Some (Reg [6])" by simp
qed simp_all

lemma box6_other: "d_links (b_disk box6) ''current'' \<noteq> Some (gendir_path 7)"
  by (simp add: box6_links gendir_examples)


theorem refused_delivery_costs_nothing_witness:
  "b_running (snd (deliver 7 [])) = b_running box6 \<and> b_sighup (snd (deliver 7 [])) = b_sighup box6 \<and>
   boot ''/etc/s.conf'' (b_disk (snd (deliver 7 []))) = boot ''/etc/s.conf'' (b_disk box6) \<and>
   map_of (d_dirs (b_disk (snd (deliver 7 [])))) ''gen-0000000005'' = map_of (d_dirs (b_disk box6)) ''gen-0000000005''"
  by (rule refused_delivery_costs_nothing[OF _ box6_synced box6_other, where e = "Refused ''empty''"])
    (use deliver_empty in \<open>simp_all add: deliver_def prod_eq_iff gendir_examples\<close>)

theorem accepted_delivery_is_live_witness:
  "b_running (snd (deliver 7 [7])) = 7 \<and> b_sighup (snd (deliver 7 [7])) \<and>
   boot ''/etc/s.conf'' (b_disk (snd (deliver 7 [7]))) =
     Some (7, [(''s.conf'', Reg [7]), (''.order'', Reg (order_text [\<lparr>f_name = ''s.conf'', f_data = [7]\<rparr>]))], ''s.conf'')"
proof -
  have "deliver 7 [7] = (Inr 1, snd (deliver 7 [7]))" using deliver_new by (simp add: prod_eq_iff)
  from accepted_delivery_is_live[OF this[unfolded deliver_def] box6_synced] show ?thesis
    by (simp add: deliver_def box6_links)
qed


section \<open>Where the promises end\<close>

text \<open>
  A delivery that carries the number of the running generation empties that generation's directory before
  anything is validated. When it is then refused, the daemon says that nothing changed, but the
  running configuration is gone from the disk and the next start falls back to the seed.
\<close>

lemma refused_redelivery_destroys:
  "fst (deliver 6 []) = Inl (Refused ''empty'') \<and> boot ''/etc/s.conf'' (b_disk box6) \<noteq> None \<and>
   b_running (snd (deliver 6 [])) = 6 \<and> boot ''/etc/s.conf'' (b_disk (snd (deliver 6 []))) = None"
proof -
  have "fst (deliver 6 []) = Inl (Refused ''empty'')"
    by (simp add: deliver_defs removable_def rmdir_def)
  moreover have "d_dirs (b_disk (snd (deliver 6 []))) = [(''gen-0000000005'', [(''s.conf'', Reg [5])])] \<and>
      b_running (snd (deliver 6 [])) = 6 \<and> d_links (b_disk (snd (deliver 6 []))) ''current'' = Some ''gen-0000000006''"
    by (simp add: deliver_defs removable_def rmdir_def)
  moreover from this have "boot ''/etc/s.conf'' (b_disk (snd (deliver 6 []))) = None"
    by (simp add: boot_def regular_in_def Let_def)
  ultimately show ?thesis by (simp add: box6_boot)
qed

text \<open>Up to generation 5 only the current and the previous generation are kept, not the last five.\<close>

lemma early_generations_not_kept: "prunable 5 4 (gendir_path 3)" "\<not> prunable 9 8 (gendir_path 5)"
  by (simp_all add: prunable_def gendir_strtoul Let_def GENERATIONS_KEPT_def) (simp add: has_prefix_def gendir_path_def)

text \<open>After a revert a rollback goes to the generation before the reverted one.\<close>

lemma rollback_after_revert:
  "fst (confgen_rollback all_succeed nonempty_parser 1024
      (snd (confgen_revert all_succeed (nonempty_parser [(''s.conf'', Reg [1])] ''s.conf'') box6))) = Inr () \<and>
   b_running (snd (confgen_rollback all_succeed nonempty_parser 1024
      (snd (confgen_revert all_succeed (nonempty_parser [(''s.conf'', Reg [1])] ''s.conf'') box6)))) = 5"
proof -
  define b where "b = snd (confgen_revert all_succeed (nonempty_parser [(''s.conf'', Reg [1])] ''s.conf'') box6)"
  have ok: "fst (validate_config all_succeed (nonempty_parser [(''s.conf'', Reg [1])] ''s.conf'') 1024)"
    by (simp add: validate_accepts all_succeed_def nonempty_parser_def accepts_def)
  have b: "b = (on_disk (d_links_update (\<lambda>l. l(''current'' := None))) box6)\<lparr>b_running := 0, b_sighup := True\<rparr>"
    using ok by (simp add: b_def confgen_revert_def box6_links) (simp add: all_succeed_def)
  have "\<exists>b2. confgen_rollback all_succeed nonempty_parser 1024 b = (Inr (), b2) \<and> b_running b2 = 5 \<and> b_sighup b2 \<and>
     boot ''/etc/s.conf'' (b_disk b2) = Some (5, [(''s.conf'', Reg [5])], b_mainname b)"
  proof (rule rollback_run)
    show "linked_generation ''previous'' (b_disk b) = 5"
      by (rule linked_generation_path) (simp_all add: b on_disk_def box6_def gendir_examples)
    show "entry_name ''/etc/s.conf'' (b_disk b) [] = b_mainname b"
      using box6_synced by (simp add: b on_disk_def synced_def entry_name_def)
  qed (simp_all add: b on_disk_def box6_def gendir_examples all_succeed_def accepts_def nonempty_parser_def)
  then show ?thesis unfolding b_def[symmetric] by auto
qed

end
