(* ===== verification/Conf_Wire.thy ===== *)
theory Conf_Wire
  imports Conf_Generation
begin

text \<open>
  The configuration commands on the wire, \<open>src/src/confgen.c\<close>: \<open>CONFIG-GET\<close> (\<open>confgen_send\<close>), \<open>CONFIG-GEN\<close>
  (\<open>confgen_report\<close>), \<open>CONFIG-PUT\<close> (\<open>confgen_receive\<close>), \<open>CONFIG-ROLLBACK\<close> and \<open>CONFIG-REVERT\<close>. What a
  command sends is the list of lines handed to \<open>sendline\<close> (\<open>src/src/talktcp.c\<close>), which adds CR and LF. Reading
  the payload from the connection is an argument: the bytes, or nothing when it stalls.

  The interface \<open>line_codec\<close> is what the protocol needs of a text coding: it survives being cut into lines. It
  is provided by the base64 coder, and from it follows that what \<open>CONFIG-GET\<close> sends is read back by \<open>CONFIG-PUT\<close>
  file by file.
\<close>

section \<open>A coding that can be cut into lines\<close>

locale line_codec =
  fixes enc :: "byte list \<Rightarrow> string" and dec :: "string option \<Rightarrow> byte list option"
  assumes dec_wrapped: "filter (\<lambda>c. \<not> b64space c) w = enc bs \<Longrightarrow> dec (Some w) = Some bs"
    and enc_plain: "c \<in> set (enc bs) \<Longrightarrow> \<not> b64space c"
    and enc_quads: "4 dvd length (enc bs)"
begin

lemma dec_lines:
  assumes "concat ls = enc bs" "concat (map (\<lambda>l. l @ sep) ls) = w @ t" "\<forall>c\<in>set sep. b64space c" "\<forall>c\<in>set t. b64space c"
  shows "dec (Some w) = Some bs"
proof (rule dec_wrapped)
  have sep: "filter (\<lambda>c. \<not> b64space c) sep = []" "filter (\<lambda>c. \<not> b64space c) t = []"
    using assms(3,4) by (auto simp: filter_empty_conv)
  have "filter (\<lambda>c. \<not> b64space c) (concat (map (\<lambda>l. l @ sep) ls)) = filter (\<lambda>c. \<not> b64space c) (concat ls)"
    by (induction ls) (simp_all add: sep(1))
  moreover have "filter (\<lambda>c. \<not> b64space c) (enc bs) = enc bs" using enc_plain by (simp add: filter_id_conv)
  ultimately show "filter (\<lambda>c. \<not> b64space c) w = enc bs" using assms(1,2) sep(2) by simp
qed

lemma dec_one_line: "dec (Some (enc bs)) = Some bs"
  using enc_plain by (intro dec_wrapped) (simp add: filter_id_conv)

lemma enc_newline: "CHR 0x0A \<notin> set (enc bs)" "CHR '' '' \<notin> set (enc bs)" "CHR 0x0D \<notin> set (enc bs)"
  using enc_plain by (force simp: b64space_def)+

end

interpretation b64: line_codec confgen_b64encode confgen_b64decode
proof
  show "filter (\<lambda>c. \<not> b64space c) w = confgen_b64encode bs \<Longrightarrow> confgen_b64decode (Some w) = Some bs" for w bs
    by (rule decode_wrapped)
  show "c \<in> set (confgen_b64encode bs) \<Longrightarrow> \<not> b64space c" for c bs using encode_plain by blast
  show "4 dvd length (confgen_b64encode bs)" for bs by (simp add: length_encode)
qed

section \<open>Sending\<close>

definition B64_LINE :: nat where "B64_LINE = 960"

text \<open>The loop that sends a coded file \<open>B64_LINE\<close> characters at a time.\<close>

function chunks :: "string \<Rightarrow> string list" where
  "chunks s = (if s = [] then [] else take B64_LINE s # chunks (drop B64_LINE s))"
  by pat_completeness auto
termination by (relation "measure length") (auto simp: B64_LINE_def)

declare chunks.simps [simp del]

definition file_lines :: "string \<Rightarrow> byte list \<Rightarrow> string list" where
  "file_lines name content =
     [fit (B64_LINE + 128) (''FILE '' @ confgen_b64encode (name_bytes name) @ '' '' @ dec_string (length content))] @
     chunks (confgen_b64encode content) @ [''ENDFILE'']"

primrec send_files :: "(string \<Rightarrow> byte list option) \<Rightarrow> conf_entry list \<Rightarrow> string list \<times> bool" where
  "send_files slurp [] = ([], True)"
| "send_files slurp (e # es) =
     (case slurp (cf_path e) of
        None \<Rightarrow> ([fit (B64_LINE + 128) (''444 cannot read '' @ cf_path e)], False)
      | Some content \<Rightarrow> (case send_files slurp es of (ls, ok) \<Rightarrow> (file_lines (cf_name e) content @ ls, ok)))"

definition hash_or_dash :: "string option \<Rightarrow> string" where
  "hash_or_dash h = (case h of None \<Rightarrow> ''-'' | Some x \<Rightarrow> fit 80 x)"

text \<open>\<open>accepted\<close> is the number of lines the connection takes before a write fails.\<close>

definition confgen_send ::
    "(byte list \<Rightarrow> byte list) \<Rightarrow> (string \<Rightarrow> byte list option) \<Rightarrow> nat \<Rightarrow> conf_entry list \<Rightarrow> nat \<Rightarrow> string list" where
  "confgen_send sha256 slurp accepted cs running =
     (case send_files slurp cs of (ls, ok) \<Rightarrow>
        take accepted
          (ls @ (if ok then [fit (B64_LINE + 128) (''333 '' @ dec_string running @ '' '' @
                    hash_or_dash (confgen_hash sha256 slurp cs) @ '' '' @ dec_string (length cs))] else [])))"

definition confgen_report ::
    "(byte list \<Rightarrow> byte list) \<Rightarrow> (string \<Rightarrow> byte list option) \<Rightarrow> conf_entry list \<Rightarrow> nat \<Rightarrow> string" where
  "confgen_report sha256 slurp cs running =
     (case confgen_hash sha256 slurp cs of
        None \<Rightarrow> if confset_count cs = 0 then ''444 no config is loaded''
                else ''444 cannot hash this config - either sysmond was built '' @
                     ''without TLS, or one of its files is no longer readable''
      | Some h \<Rightarrow>
          (let front = ''333 '' @ dec_string running @ '' '' @ fit 80 h @ '' '' @ dec_string (length cs)
           in case confgen_manageable 256 cs of
                (True, _) \<Rightarrow> fit 512 front
              | (False, why) \<Rightarrow> fit 512 (front @ '' unmanageable '' @ why)))"

text \<open>The bytes of a list of lines on the connection.\<close>

definition wire_text :: "string list \<Rightarrow> string" where
  "wire_text ls = concat (map (\<lambda>l. l @ [CHR 0x0D, CHR 0x0A]) ls)"

section \<open>Receiving\<close>

text \<open>\<open>sscanf(args, "%lu %ld", ...) == 2\<close>.\<close>

definition put_args :: "string option \<Rightarrow> (nat \<times> int) option" where
  "put_args args =
     (case args of None \<Rightarrow> None
      | Some s \<Rightarrow> (case scan_number s of (_, ds, rest) \<Rightarrow>
          if ds = [] \<or> no_conversion rest then None else Some (strtoul s, strtol rest)))"

definition CONFGEN_MAX_PAYLOAD :: int where "CONFGEN_MAX_PAYLOAD = 8 * 1024 * 1024"

definition c_str :: "string \<Rightarrow> string" where
  "c_str s = takeWhile (\<lambda>c. c \<noteq> CHR 0x00) s"

text \<open>A line up to its newline, with one CR before the newline cut off; as a C string.\<close>

definition strip_cr :: "string \<Rightarrow> string" where
  "strip_cr l = (if l \<noteq> [] \<and> last l = CHR 0x0D then butlast l else l)"

text \<open>
  The lines of a body up to \<open>ENDFILE\<close>. \<open>consumed\<close> is the text between \<open>body\<close> and \<open>p\<close>, \<open>body\<close> the text up to
  \<open>bodylen\<close>; the result is the body and what follows the \<open>ENDFILE\<close> line.
\<close>

function gather :: "string \<Rightarrow> string \<Rightarrow> string \<Rightarrow> (string \<times> string) option" where
  "gather p consumed body =
     (if p = [] then None
      else let line = takeWhile (\<lambda>c. c \<noteq> CHR 0x0A) p; rest = dropWhile (\<lambda>c. c \<noteq> CHR 0x0A) p
           in if line = ''ENDFILE'' \<or> line = ''ENDFILE'' @ [CHR 0x0D] then Some (body, tl rest)
              else gather (tl rest) (consumed @ line @ take 1 rest) (consumed @ line))"
  by pat_completeness auto
termination
proof (relation "measure (\<lambda>(p, _, _). length p)", simp, clarsimp)
  fix p :: string
  assume "p \<noteq> []"
  then show "length (dropWhile (\<lambda>c. c \<noteq> CHR 0x0A) p) - Suc 0 < length p"
    using length_dropWhile_le[of "\<lambda>c. c \<noteq> CHR 0x0A" p] by (cases p) (auto split: if_splits)
qed

declare gather.simps [simp del]

definition take_file :: "string \<Rightarrow> string \<Rightarrow> string \<Rightarrow> confgen_file list \<Rightarrow> string + confgen_file list" where
  "take_file name64 declared body files =
     (if length files \<ge> CONFSET_MAX then Inl ''444 too many files in one delivery''
      else case (confgen_b64decode (Some name64), confgen_b64decode (Some body)) of
        (Some namebytes, Some data) \<Rightarrow>
          (let name = c_str (map chr namebytes)
           in if strtol declared \<noteq> int (length data)
              then Inl (fit 512 (''444 '' @ name @ '' declared '' @ int_string (strtol declared) @ '' bytes but carried '' @
                                 dec_string (length data)))
              else Inr (files @ [\<lparr>f_name = name, f_data = data\<rparr>]))
      | _ \<Rightarrow> Inl ''444 the delivery is not valid base64'')"

lemma gather_shorter: "gather p consumed body = Some (b, rest) \<Longrightarrow> length rest < length p"
proof (induction p consumed body arbitrary: b rest rule: gather.induct)
  case (1 p consumed body)
  let ?rest = "dropWhile (\<lambda>c. c \<noteq> CHR 0x0A) p"
  have p: "p \<noteq> []" using "1.prems" by (subst (asm) gather.simps) (auto split: if_splits)
  have le: "length (tl ?rest) < length p"
    using length_dropWhile_le[of "\<lambda>c. c \<noteq> CHR 0x0A" p] p by (cases p) (auto split: if_splits)
  show ?case
    using "1.prems" "1.IH"[OF p refl refl] le
    by (subst (asm) gather.simps) (fastforce simp: Let_def p split: if_splits)
qed

lemma next_line_shorter: "CHR 0x0A \<in> set p \<Longrightarrow> length (tl (dropWhile (\<lambda>c. c \<noteq> CHR 0x0A) p)) < length p"
  using length_dropWhile_le[of "\<lambda>c. c \<noteq> CHR 0x0A" p] by (cases p) (auto split: if_splits)

function payload_loop :: "string \<Rightarrow> confgen_file list \<Rightarrow> string + confgen_file list" where
  "payload_loop p files =
     (if CHR 0x0A \<notin> set p then Inr files
      else let line = c_str (strip_cr (takeWhile (\<lambda>c. c \<noteq> CHR 0x0A) p)); rest = tl (dropWhile (\<lambda>c. c \<noteq> CHR 0x0A) p)
           in if \<not> has_prefix ''FILE '' line then payload_loop rest files
              else case split_at CHR '' '' (drop 5 line) of
                     None \<Rightarrow> Inl ''444 malformed FILE header''
                   | Some (name64, declared) \<Rightarrow>
                       (case gather rest [] [] of
                          None \<Rightarrow> Inl ''444 a file was not terminated by ENDFILE''
                        | Some (body, rest') \<Rightarrow>
                            (case take_file name64 declared body files of
                               Inl e \<Rightarrow> Inl e
                             | Inr files' \<Rightarrow> payload_loop rest' files')))"
  by pat_completeness auto
termination
proof (relation "measure (\<lambda>(p, _). length p)", simp, goal_cases)
  case (1 p files line rest)
  then show ?case using next_line_shorter by simp
next
  case (2 p files line rest s name64 declared g body rest' files')
  then show ?case using next_line_shorter[of p] gather_shorter[of rest "[]" "[]"] by fastforce
qed

declare payload_loop.simps [simp del]

text \<open>The text of a refusal, as it is written into the buffer of 1024 bytes.\<close>

definition quoted :: "string \<Rightarrow> string" where
  "quoted s = [CHR 0x22] @ s @ [CHR 0x22]"

definition apply_text :: "string \<Rightarrow> string \<Rightarrow> nat \<Rightarrow> apply_error \<Rightarrow> string" where
  "apply_text statedir strerror generation e =
     (let dir = statedir @ ''/'' @ gendir_path generation in
      fit 1024 (case e of
        No_files \<Rightarrow> ''no files were delivered''
      | Generation_zero \<Rightarrow> ''generation 0 means '' @ quoted ''running the seed config'' @ '' and cannot be delivered''
      | Not_flat nm \<Rightarrow> quoted nm @ '' is not a plain filename; a delivery names files, not paths''
      | Twice nm \<Rightarrow> quoted nm @ '' appears twice in one delivery''
      | No_main m \<Rightarrow> ''the delivery does not include '' @ quoted m @ '', which is the file this daemon reads''
      | Mkdir_failed \<Rightarrow> ''cannot create '' @ dir @ '': '' @ strerror
      | Write_failed nm \<Rightarrow> ''cannot write '' @ dir @ ''/'' @ nm @ '': '' @ strerror
      | Order_not_opened \<Rightarrow> ''cannot write '' @ dir @ ''/'' @ GEN_ORDER_FILE @ '': '' @ strerror
      | Order_not_closed \<Rightarrow> ''cannot write '' @ dir @ ''/'' @ GEN_ORDER_FILE
      | Refused err \<Rightarrow> err
      | Link_failed \<Rightarrow> ''cannot point '' @ statedir @ ''/current at generation '' @ dec_string generation))"

text \<open>The complaints go back line by line, empty lines left out.\<close>

function complaint_lines :: "string \<Rightarrow> string list" where
  "complaint_lines err =
     (if err = [] then []
      else let line = takeWhile (\<lambda>c. c \<noteq> NEWLINE) err; rest = tl (dropWhile (\<lambda>c. c \<noteq> NEWLINE) err)
           in (if line \<noteq> [] then [line] else []) @ complaint_lines rest)"
  by pat_completeness auto
termination
proof (relation "measure length", simp, clarsimp)
  fix p :: string
  assume "p \<noteq> []"
  then show "length (dropWhile (\<lambda>c. c \<noteq> CHR 0x0A) p) - Suc 0 < length p"
    using length_dropWhile_le[of "\<lambda>c. c \<noteq> CHR 0x0A" p] by (cases p) (auto split: if_splits)
qed

definition confgen_receive ::
    "calls \<Rightarrow> parser \<Rightarrow> (byte list \<Rightarrow> byte list) \<Rightarrow> string \<Rightarrow> string \<Rightarrow> (int \<Rightarrow> string option) \<Rightarrow> string option \<Rightarrow> box \<Rightarrow> string list \<times> box" where
  "confgen_receive c parse sha256 statedir configfile read_exact args b =
     (case put_args args of
        None \<Rightarrow> ([''444 usage: CONFIG-PUT <generation> <payload-bytes>''], b)
      | Some (generation, payload_len) \<Rightarrow>
          if payload_len \<le> 0 \<or> payload_len > CONFGEN_MAX_PAYLOAD
          then ([fit 512 (''444 payload of '' @ int_string payload_len @ '' bytes is outside 1..'' @ int_string CONFGEN_MAX_PAYLOAD)], b)
          else (case read_exact payload_len of
             None \<Rightarrow> ([''444 the delivery was truncated''], b)
           | Some payload \<Rightarrow>
              (case payload_loop payload [] of
                 Inl e \<Rightarrow> ([e], b)
               | Inr fs \<Rightarrow>
                  (case confgen_apply c parse 1024 configfile generation fs b of
                     (Inl e, b1) \<Rightarrow>
                       (complaint_lines (apply_text statedir (c_strerror c) generation e) @
                          [''444 config rejected, nothing changed''], b1)
                   | (Inr objects, b1) \<Rightarrow>
                       ([fit 512 (''333 '' @ dec_string (b_running b1) @ '' '' @ fit 80 (confgen_hash_files sha256 fs) @ '' '' @
                                  dec_string objects)], b1)))))"

text \<open>
  A generation on disk, hashed in its recorded load order: the stream, or nothing when the order or a file
  cannot be read.
\<close>

function order_loop :: "dir \<Rightarrow> string \<Rightarrow> byte list option" where
  "order_loop x file =
     (if file = [] then Some []
      else case fgets 255 file of (raw, rest) \<Rightarrow>
        let line = takeWhile (\<lambda>c. c \<noteq> NEWLINE) raw in
        if \<not> flat_name (Some line) then order_loop x rest
        else (case map_of x line of
                Some (Reg content) \<Rightarrow> map_option (\<lambda>s. hash_pair line content @ s) (order_loop x rest)
              | _ \<Rightarrow> None))"
  by pat_completeness auto
termination by (relation "measure (\<lambda>(_, s). length s)") (auto dest!: fgets_shorter[OF sym])

declare order_loop.simps [simp del]

definition hash_generation :: "(byte list \<Rightarrow> byte list) \<Rightarrow> nat \<Rightarrow> disk \<Rightarrow> string option" where
  "hash_generation sha256 gen d =
     (case map_of (d_dirs d) (gendir_path gen) of None \<Rightarrow> None
      | Some x \<Rightarrow> (case map_of x GEN_ORDER_FILE of
                    Some (Reg order) \<Rightarrow> map_option (hash_end sha256) (order_loop x (map chr order))
                  | _ \<Rightarrow> None))"

definition roll_text :: "roll_error \<Rightarrow> string" where
  "roll_text e =
     fit 1024 (case e of
        No_previous \<Rightarrow> ''no previous generation is held on this box''
      | Copy_refused err \<Rightarrow> err
      | Cannot_point prev \<Rightarrow> ''cannot point current at generation '' @ dec_string prev)"

definition confgen_do_rollback ::
    "calls \<Rightarrow> parser \<Rightarrow> (byte list \<Rightarrow> byte list) \<Rightarrow> box \<Rightarrow> string list \<times> box" where
  "confgen_do_rollback c parse sha256 b =
     (case confgen_rollback c parse 1024 b of
        (Inl e, b1) \<Rightarrow> (complaint_lines (roll_text e) @ [''444 rollback failed''], b1)
      | (Inr _, b1) \<Rightarrow>
          ([fit 512 (''333 '' @ dec_string (b_running b1) @ '' '' @
              hash_or_dash (hash_generation sha256 (b_running b1) (b_disk b1)))], b1))"

definition revert_text :: "string \<Rightarrow> string \<Rightarrow> string \<Rightarrow> revert_error \<Rightarrow> string" where
  "revert_text statedir strerror configfile e =
     fit 1024 (case e of
        On_seed \<Rightarrow> ''this box is already running '' @ configfile
      | Seed_refused \<Rightarrow> configfile @ '' does not parse, so reverting to it would leave this box with nothing to monitor''
      | Cannot_unlink \<Rightarrow> ''cannot remove '' @ statedir @ ''/current: '' @ strerror)"

definition confgen_do_revert :: "calls \<Rightarrow> load_result \<Rightarrow> string \<Rightarrow> string \<Rightarrow> box \<Rightarrow> string list \<times> box" where
  "confgen_do_revert c seed statedir configfile b =
     (case confgen_revert c seed b of
        (Inl e, b1) \<Rightarrow> (complaint_lines (revert_text statedir (c_strerror c) configfile e) @ [''444 revert failed''], b1)
      | (Inr _, b1) \<Rightarrow> ([fit 512 (''333 0 reverted to '' @ configfile)], b1))"

section \<open>What is sent is read back\<close>

lemma concat_chunks: "concat (chunks s) = s"
  by (induction s rule: chunks.induct) (subst chunks.simps, simp)

lemma chunks_length: "4 dvd length s \<Longrightarrow> l \<in> set (chunks s) \<Longrightarrow> 4 dvd length l"
proof (induction s rule: chunks.induct)
  case (1 s)
  have d: "4 dvd length (drop B64_LINE s)" "4 dvd length (take B64_LINE s)"
    using "1.prems"(1) by (auto simp: B64_LINE_def min_def)
  show ?case using "1.prems"(2) "1.IH"[OF _ d(1)] d(2) by (subst (asm) chunks.simps) (auto split: if_splits)
qed

lemma chunks_chars: "l \<in> set (chunks s) \<Longrightarrow> set l \<subseteq> set s"
  using concat_chunks[of s] by (metis UN_upper set_concat)

text \<open>A line of the body is never taken for the end marker: its length is a multiple of four.\<close>

lemma gather_line:
  assumes "4 dvd length l" "NEWLINE \<notin> set l"
  shows "gather (l @ CHR 0x0D # NEWLINE # p) consumed body =
     gather p (consumed @ l @ [CHR 0x0D, NEWLINE]) (consumed @ l @ [CHR 0x0D])"
proof -
  let ?s = "l @ CHR 0x0D # NEWLINE # p"
  have t: "takeWhile (\<lambda>c. c \<noteq> NEWLINE) ?s = l @ [CHR 0x0D]" "dropWhile (\<lambda>c. c \<noteq> NEWLINE) ?s = NEWLINE # p"
    using assms(2) by (auto simp: takeWhile_append dropWhile_append)
  obtain k where k: "length l = 4 * k" using assms(1) by (elim dvdE)
  have "length (l @ [CHR 0x0D]) \<noteq> length ''ENDFILE''" "length (l @ [CHR 0x0D]) \<noteq> length (''ENDFILE'' @ [CHR 0x0D])"
    using k by simp_all presburger+
  then have "l @ [CHR 0x0D] \<noteq> ''ENDFILE''" "l @ [CHR 0x0D] \<noteq> ''ENDFILE'' @ [CHR 0x0D]" by metis+
  then show ?thesis by (subst gather.simps) (simp only: t Let_def, simp)
qed

lemma gather_lines:
  assumes "\<forall>l\<in>set ls. 4 dvd length l \<and> NEWLINE \<notin> set l" "ls \<noteq> []"
  shows "\<exists>w. gather (wire_text ls @ p) consumed body = gather p (consumed @ wire_text ls) (consumed @ w) \<and> wire_text ls = w @ [NEWLINE]"
  using assms
proof (induction ls arbitrary: consumed body)
  case (Cons l ls)
  have st: "gather (wire_text (l # ls) @ p) consumed body =
      gather (wire_text ls @ p) (consumed @ l @ [CHR 0x0D, NEWLINE]) (consumed @ l @ [CHR 0x0D])"
    using gather_line[of l "wire_text ls @ p"] Cons.prems by (simp add: wire_text_def)
  show ?case
  proof (cases "ls = []")
    case True
    then show ?thesis using st by (intro exI[of _ "l @ [CHR 0x0D]"]) (simp add: wire_text_def)
  next
    case False
    obtain w where "gather (wire_text ls @ p) (consumed @ l @ [CHR 0x0D, NEWLINE]) (consumed @ l @ [CHR 0x0D]) =
        gather p ((consumed @ l @ [CHR 0x0D, NEWLINE]) @ wire_text ls) ((consumed @ l @ [CHR 0x0D, NEWLINE]) @ w)"
      "wire_text ls = w @ [NEWLINE]"
      using Cons.IH Cons.prems False by (metis list.set_intros(2))
    then show ?thesis using st
      by (intro exI[of _ "l @ [CHR 0x0D, NEWLINE] @ w"]) (simp add: wire_text_def)
  qed
qed simp

lemma gather_end: "gather (''ENDFILE'' @ CHR 0x0D # NEWLINE # p) consumed body = Some (body, p)"
  by (subst gather.simps) simp

lemma gather_file:
  "\<exists>body. gather (wire_text (chunks (confgen_b64encode data) @ [''ENDFILE'']) @ p) [] [] = Some (body, p) \<and>
     confgen_b64decode (Some body) = Some data"
proof (cases "chunks (confgen_b64encode data) = []")
  case True
  then have "confgen_b64encode data = []" using concat_chunks[of "confgen_b64encode data"] by simp
  then have "confgen_b64decode (Some []) = Some data" using b64.dec_one_line[of data] by simp
  then show ?thesis using True gather_end[of p "[]" "[]"] by (simp add: wire_text_def)
next
  case False
  let ?ls = "chunks (confgen_b64encode data)"
  have "\<forall>l\<in>set ?ls. 4 dvd length l \<and> NEWLINE \<notin> set l"
    using chunks_length[OF b64.enc_quads] chunks_chars b64.enc_newline by blast
  then obtain w where w: "gather (wire_text ?ls @ (''ENDFILE'' @ CHR 0x0D # NEWLINE # p)) [] [] =
      gather (''ENDFILE'' @ CHR 0x0D # NEWLINE # p) ([] @ wire_text ?ls) ([] @ w)" "wire_text ?ls = w @ [NEWLINE]"
    using gather_lines[OF _ False] by blast
  have "confgen_b64decode (Some w) = Some data"
    by (rule b64.dec_lines[OF concat_chunks]) (use w(2) in \<open>auto simp: wire_text_def b64space_def\<close>)
  then show ?thesis using w(1) by (intro exI[of _ w]) (simp add: wire_text_def gather_end[simplified])
qed

text \<open>A file the protocol can carry: its name is a C string that fits the header line.\<close>

definition wire_ok :: "confgen_file \<Rightarrow> bool" where
  "wire_ok f \<longleftrightarrow> length (f_name f) < 128 \<and> CHR 0x00 \<notin> set (f_name f) \<and> length (f_data f) < 2 ^ 63"

lemma name_back: "CHR 0x00 \<notin> set nm \<Longrightarrow> c_str (map chr (name_bytes nm)) = nm"
proof -
  assume a: "CHR 0x00 \<notin> set nm"
  have "chr (of_nat (of_char c)) = c" for c by (simp add: chr_def unat_of_nat_len)
  then have "map chr (name_bytes nm) = nm" by (simp add: name_bytes_def map_idI)
  then show ?thesis using a by (auto simp: c_str_def)
qed

definition header_of :: "confgen_file \<Rightarrow> string" where
  "header_of f = ''FILE '' @ confgen_b64encode (name_bytes (f_name f)) @ '' '' @ dec_string (length (f_data f))"

lemma header_plain: "c \<in> set (header_of f) \<Longrightarrow> c \<noteq> NEWLINE \<and> c \<noteq> CHR 0x0D \<and> c \<noteq> CHR 0x00"
  using encode_plain dec_string_digits by (fastforce simp: header_of_def b64space_def is_digit_def)

lemma file_lines_header:
  assumes "wire_ok f"
  shows "file_lines (f_name f) (f_data f) = header_of f # chunks (confgen_b64encode (f_data f)) @ [''ENDFILE'']"
proof -
  have "(length (f_name f) + 2) div 3 \<le> 130 div 3" using assms by (intro div_le_mono) (simp add: wire_ok_def)
  then have "length (confgen_b64encode (name_bytes (f_name f))) \<le> 172" by (simp add: length_encode name_bytes_def)
  moreover have "length (dec_string (length (f_data f))) \<le> 19"
    using assms dec_string_length[of "length (f_data f)" 18] by (simp add: wire_ok_def)
  ultimately have "length (header_of f) < B64_LINE + 128" by (simp add: header_of_def B64_LINE_def)
  then show ?thesis by (simp add: file_lines_def header_of_def fit_id)
qed

lemma payload_file:
  assumes "wire_ok f" "length files < 64"
  shows "payload_loop (wire_text (file_lines (f_name f) (f_data f)) @ p) files = payload_loop p (files @ [f])"
proof -
  let ?n = "confgen_b64encode (name_bytes (f_name f))" and ?d = "dec_string (length (f_data f))"
  let ?rest = "wire_text (chunks (confgen_b64encode (f_data f)) @ [''ENDFILE'']) @ p"
  have wt: "wire_text (file_lines (f_name f) (f_data f)) @ p = header_of f @ CHR 0x0D # NEWLINE # ?rest"
    by (simp add: file_lines_header[OF assms(1)] wire_text_def)
  have t: "takeWhile (\<lambda>c. c \<noteq> NEWLINE) (header_of f @ CHR 0x0D # NEWLINE # ?rest) = header_of f @ [CHR 0x0D]"
    "dropWhile (\<lambda>c. c \<noteq> NEWLINE) (header_of f @ CHR 0x0D # NEWLINE # ?rest) = NEWLINE # ?rest"
    using header_plain[of _ f] by (auto simp: takeWhile_append dropWhile_append)
  have line: "c_str (strip_cr (header_of f @ [CHR 0x0D])) = header_of f"
    using header_plain[of _ f] by (auto simp: strip_cr_def c_str_def)
  have pre: "has_prefix ''FILE '' (header_of f)" "drop 5 (header_of f) = ?n @ CHR '' '' # ?d"
    by (simp_all add: has_prefix_def header_of_def)
  have sp: "split_at CHR '' '' (?n @ CHR '' '' # ?d) = Some (?n, ?d)" by (rule split_at_append) (rule b64.enc_newline)
  obtain body where body: "gather ?rest [] [] = Some (body, p)" "confgen_b64decode (Some body) = Some (f_data f)"
    using gather_file by blast
  have "strtol ?d = int (length (f_data f))"
    using strtol_int_string[of "int (length (f_data f))"] assms(1) by (simp add: wire_ok_def int_string_def)
  then have tf: "take_file ?n ?d body files = Inr (files @ [f])"
    using assms body(2) name_back[of "f_name f"] by (simp add: take_file_def CONFSET_MAX_def b64.dec_one_line wire_ok_def Let_def)
  show ?thesis
    unfolding wt by (subst payload_loop.simps) (simp add: t line pre sp body(1) tf Let_def)
qed

lemma payload_files:
  assumes "list_all wire_ok fs" "length files + length fs \<le> 64"
  shows "payload_loop (wire_text (concat (map (\<lambda>f. file_lines (f_name f) (f_data f)) fs)) @ p) files = payload_loop p (files @ fs)"
  using assms
proof (induction fs arbitrary: files)
  case (Cons f fs)
  have "wire_text (concat (map (\<lambda>f. file_lines (f_name f) (f_data f)) (f # fs))) @ p =
      wire_text (file_lines (f_name f) (f_data f)) @ (wire_text (concat (map (\<lambda>f. file_lines (f_name f) (f_data f)) fs)) @ p)"
    by (simp add: wire_text_def)
  then show ?case using payload_file[of f files] Cons by simp
qed (simp add: wire_text_def)

lemma send_files_lines:
  assumes "list_all2 (\<lambda>e f. cf_name e = f_name f \<and> slurp (cf_path e) = Some (f_data f)) cs fs"
  shows "send_files slurp cs = (concat (map (\<lambda>f. file_lines (f_name f) (f_data f)) fs), True)"
  using assms by (induction rule: list_all2_induct) auto

lemma payload_trailer:
  assumes "\<not> has_prefix ''FILE '' l" "NEWLINE \<notin> set l"
  shows "payload_loop (wire_text [l]) files = Inr files"
proof -
  have t: "takeWhile (\<lambda>c. c \<noteq> NEWLINE) (wire_text [l]) = l @ [CHR 0x0D]" "dropWhile (\<lambda>c. c \<noteq> NEWLINE) (wire_text [l]) = [NEWLINE]"
    using assms(2) by (auto simp: wire_text_def takeWhile_append dropWhile_append)
  have "\<not> has_prefix ''FILE '' (c_str l)"
    using assms(1) by (metis c_str_def has_prefix_iff append.assoc takeWhile_dropWhile_id)
  then have "\<not> has_prefix ''FILE '' (c_str (strip_cr (l @ [CHR 0x0D])))" by (simp add: strip_cr_def)
  moreover have "payload_loop [] files = Inr files" by (simp add: payload_loop.simps)
  moreover have "NEWLINE \<in> set (wire_text [l])" by (simp add: wire_text_def)
  ultimately show ?thesis by (subst payload_loop.simps) (simp only: t Let_def, simp)
qed

lemma hex_char_plain: "d < 16 \<Longrightarrow> hex_char d \<noteq> NEWLINE"
proof
  assume a: "d < 16" "hex_char d = NEWLINE"
  then have "(of_char (hex_char d) :: nat) = of_char NEWLINE" by simp
  then show False using a(1) by (simp add: hex_char_def split: if_splits)
qed

lemma hex2_plain: "NEWLINE \<notin> set (hex2 b)"
proof -
  have "unat b div 16 < 16" using unat_byte_less[of b] by (simp add: less_mult_imp_div_less)
  then show ?thesis using hex_char_plain[of "unat b div 16"] hex_char_plain[of "unat b mod 16"] by (auto simp: hex2_def)
qed

lemma hash_or_dash_plain: "NEWLINE \<notin> set (hash_or_dash (confgen_hash sha256 slurp cs))"
proof (cases "hash_loaded slurp cs")
  case (Some bs)
  have "NEWLINE \<notin> set (hash_end sha256 bs)" using hex2_plain by (simp add: hash_end_def)
  then show ?thesis using set_fit[of 80 "hash_end sha256 bs"] Some by (auto simp: hash_or_dash_def confgen_hash_def)
qed (simp add: hash_or_dash_def confgen_hash_def)

lemma get_put:
  assumes "list_all2 (\<lambda>e f. cf_name e = f_name f \<and> slurp (cf_path e) = Some (f_data f)) cs fs"
    "list_all wire_ok fs" "length fs \<le> 64" "Suc (length (concat (map (\<lambda>f. file_lines (f_name f) (f_data f)) fs))) \<le> n"
  shows "payload_loop (wire_text (confgen_send sha256 slurp n cs running)) [] = Inr fs"
proof -
  define tr where "tr = fit (B64_LINE + 128) (''333 '' @ dec_string running @ '' '' @
      hash_or_dash (confgen_hash sha256 slurp cs) @ '' '' @ dec_string (length cs))"
  have sent: "confgen_send sha256 slurp n cs running = concat (map (\<lambda>f. file_lines (f_name f) (f_data f)) fs) @ [tr]"
    using assms(4) by (simp add: confgen_send_def send_files_lines[OF assms(1)] tr_def)
  have "NEWLINE \<notin> set tr"
    using set_fit hash_or_dash_plain dec_string_plain unfolding tr_def by fastforce
  moreover have "\<not> has_prefix ''FILE '' tr" by (simp add: tr_def has_prefix_def fit_def B64_LINE_def)
  ultimately have "payload_loop (wire_text [tr]) fs = Inr fs" by (rule payload_trailer[rotated])
  moreover have "wire_text (concat (map (\<lambda>f. file_lines (f_name f) (f_data f)) fs) @ [tr]) =
      wire_text (concat (map (\<lambda>f. file_lines (f_name f) (f_data f)) fs)) @ wire_text [tr]" by (simp add: wire_text_def)
  ultimately show ?thesis using payload_files[of fs "[]" "wire_text [tr]"] assms(2,3) by (simp add: sent)
qed

section \<open>The hash of a generation on disk\<close>

lemma map_chr_append: "map chr (name_bytes nm @ [0x0A]) = map chr (name_bytes nm) @ [NEWLINE]"
proof -
  have "unat (0x0A :: byte) = 10" by simp
  moreover have "char_of (10 :: nat) = CHR 0x0A" by code_simp
  ultimately show ?thesis by (simp add: chr_def)
qed

lemma order_loop_files:
  assumes "\<forall>f\<in>set fs. flat_name (Some (f_name f)) \<and> NEWLINE \<notin> set (f_name f) \<and> map_of x (f_name f) = Some (Reg (f_data f))"
  shows "order_loop x (map chr (order_text fs)) = Some (files_stream fs)"
  using assms
proof (induction fs)
  case Nil
  then show ?case by (simp add: order_text_def order_loop.simps files_stream_def)
next
  case (Cons f fs)
  have nm: "map chr (name_bytes (f_name f)) = f_name f"
    by (simp add: name_bytes_def map_idI chr_def unat_of_nat_len)
  have otext: "map chr (order_text (f # fs)) = f_name f @ NEWLINE # map chr (order_text fs)"
    using map_chr_append[of "f_name f"] by (simp add: order_text_def nm)
  have "length (f_name f) < 255" using flat_nameD(4)[of "f_name f"] Cons.prems by auto
  then have fg: "fgets 255 (f_name f @ NEWLINE # map chr (order_text fs)) = (f_name f @ [NEWLINE], map chr (order_text fs))"
    by (rule fgets_line[rotated]) (use Cons.prems in auto)
  have "takeWhile (\<lambda>c. c \<noteq> NEWLINE) (f_name f @ [NEWLINE]) = f_name f" using Cons.prems by (auto simp: takeWhile_append)
  then show ?case
    using Cons by (subst order_loop.simps) (simp add: otext fg Let_def files_stream_def)
qed

lemma staged_lookup:
  assumes "distinct (map f_name fs)" "f \<in> set fs"
  shows "map_of (staged_dir fs) (f_name f) = Some (Reg (f_data f))"
proof -
  have "map_of (map entry_of fs) (f_name f) = Some (Reg (f_data f))"
    using assms by (intro map_of_is_SomeI) (auto simp: entry_of_def comp_def image_iff)
  then show ?thesis by (simp add: staged_dir_def map_add_def)
qed

lemma staged_hash:
  assumes "distinct (map f_name fs)" "\<forall>f\<in>set fs. flat_name (Some (f_name f)) \<and> NEWLINE \<notin> set (f_name f)"
    "map_of (d_dirs d) (gendir_path g) = Some (staged_dir fs)"
  shows "hash_generation sha256 g d = Some (confgen_hash_files sha256 fs)"
proof -
  have "GEN_ORDER_FILE \<notin> f_name ` set fs" using assms(2) by (auto dest!: flat_nameD(5) bspec)
  then have "map_of (map entry_of fs) GEN_ORDER_FILE = None" by (auto simp: map_of_eq_None_iff image_iff entry_of_def)
  then have "map_of (staged_dir fs) GEN_ORDER_FILE = Some (Reg (order_text fs))" by (simp add: staged_dir_def map_add_def)
  moreover have "order_loop (staged_dir fs) (map chr (order_text fs)) = Some (files_stream fs)"
    by (rule order_loop_files) (use assms(2) staged_lookup[OF assms(1)] in simp)
  ultimately show ?thesis by (simp add: hash_generation_def assms(3) confgen_hash_files_def)
qed

section \<open>Properties\<close>

text \<open>
  C31. What a box sends for \<open>CONFIG-GET\<close> and gets back in a \<open>CONFIG-PUT\<close> is the same file set: the receiver
  reads, from the exact bytes sent, every file with its name and its content, in load order.
\<close>

theorem config_get_put_roundtrip:
  assumes "list_all2 (\<lambda>e f. cf_name e = f_name f \<and> slurp (cf_path e) = Some (f_data f)) cs fs"
    "list_all wire_ok fs" "length fs \<le> 64" "Suc (length (concat (map (\<lambda>f. file_lines (f_name f) (f_data f)) fs))) \<le> n"
  shows "payload_loop (wire_text (confgen_send sha256 slurp n cs running)) [] = Inr fs"
  by (rule get_put[OF assms])

theorem config_get_put_roundtrip_witness:
  "payload_loop (wire_text (confgen_send (\<lambda>_. []) (\<lambda>_. Some [0, 255]) 10
     [\<lparr>cf_name = ''s.conf'', cf_path = ''/etc/s.conf'', cf_flat = True\<rparr>] 0)) [] = Inr [\<lparr>f_name = ''s.conf'', f_data = [0, 255]\<rparr>]"
proof (rule config_get_put_roundtrip)
  have "length (chunks (confgen_b64encode [0, 255])) \<le> 1"
    by (subst chunks.simps, subst chunks.simps) (simp add: B64_LINE_def Let_def)
  then show "Suc (length (concat (map (\<lambda>f. file_lines (f_name f) (f_data f)) [\<lparr>f_name = ''s.conf'', f_data = [0, 255]\<rparr>]))) \<le> 10"
    by (simp add: file_lines_def)
qed (simp_all add: wire_ok_def)

text \<open>
  The hash reported for a generation on disk is the hash of the files that were delivered as that
  generation, so the answers to a delivery and to a later rollback onto it agree.
\<close>

theorem generation_hash_stable:
  assumes "confgen_apply c parse n cf g fs b = (Inr objects, b')" "synced cf b" "g \<le> ULONG_MAX"
    "list_all (\<lambda>f. NEWLINE \<notin> set (f_name f)) fs"
  shows "hash_generation sha256 g (b_disk b') = Some (confgen_hash_files sha256 fs)"
  using assms(1,2)
proof (cases rule: apply_cases)
  case (accepted o' b3)
  note st = accepted_steps[OF accepted(2,3) assms(2) accepted(5,6) assms(3) accepted(8)]
  have names: "distinct (map f_name fs)" "\<forall>f\<in>set fs. flat_name (Some (f_name f))"
    using assms(1) check_names_ok[of "b_mainname b" "[]" fs False]
    by (auto simp: confgen_apply_def split: if_splits sum.splits)
  have "map_of (d_dirs (b_disk b')) (gendir_path g) = Some (staged_dir fs)"
    using st(7)[of "gendir_path g"] accepted(3) not_prunable_current[OF assms(3)] by simp
  then show ?thesis using staged_hash[OF names(1)] names(2) assms(4) by (simp add: list_all_iff)
qed simp

theorem generation_hash_stable_witness:
  "hash_generation (\<lambda>_. [1]) 7 (b_disk (snd (deliver 7 [7]))) = Some (confgen_hash_files (\<lambda>_. [1]) [\<lparr>f_name = ''s.conf'', f_data = [7]\<rparr>])"
proof -
  have "deliver 7 [7] = (Inr 1, snd (deliver 7 [7]))" using deliver_new by (simp add: prod_eq_iff)
  from generation_hash_stable[OF this[unfolded deliver_def] box6_synced] show ?thesis by (simp add: deliver_def)
qed



end
