(* ===== verification/Icmp_Packet.thy ===== *)
theory Icmp_Packet
  imports Ber_Reader
begin

text \<open>
  The packets of icmp.c: the identities given to checks, the Internet checksum, the echo request that is
  sent and the reading of what comes back. Shorts are in the byte order of a little-endian machine: the
  program stores and reads them without conversion.
\<close>

type_synonym u16 = "16 word"

section \<open>Identities\<close>

text \<open>The static variable of \<open>generate_ident\<close> is passed along and is also the result.\<close>

definition generate_ident :: "u16 \<Rightarrow> u16" where
  "generate_ident this = (let this2 = this + 1 + 1 in if this2 mod 2 = 0 then this2 + 1 else this2)"

section \<open>The checksum\<close>

text \<open>The sum of the 16-bit words, an odd last byte being padded with zero.\<close>

fun word_sum :: "byte list \<Rightarrow> nat" where
  "word_sum [] = 0"
| "word_sum [b] = unat b"
| "word_sum (b # b' # bs) = unat b + 256 * unat b' + word_sum bs"

definition fold_carry :: "nat \<Rightarrow> nat" where
  "fold_carry acc = (let s = acc div 65536 + acc mod 65536 in s + s div 65536)"

definition in_cksum :: "byte list \<Rightarrow> u16" where
  "in_cksum addr = NOT (of_nat (fold_carry (word_sum addr)))"

section \<open>Requests\<close>

abbreviation (input) ICMP_PACKET_SIZE :: nat where "ICMP_PACKET_SIZE \<equiv> 64"

definition le16 :: "u16 \<Rightarrow> byte list" where
  "le16 w = [ucast w, ucast (drop_bit 8 w)]"

definition of_le16 :: "byte \<Rightarrow> byte \<Rightarrow> u16" where
  "of_le16 b b' = ucast b + 256 * ucast b'"

text \<open>
  The pattern the start functions store from \<open>outpack[8 + sizeof(struct timeval)]\<close> on, and what of it lies in the
  128 bytes of \<open>outpack\<close>.
\<close>

definition fill_pattern :: "byte list" where
  "fill_pattern = map of_nat [8..<128]"

definition fresh_outpack :: "byte list" where
  "fresh_outpack = take 128 (replicate 24 0 @ fill_pattern)"

text \<open>
  The packet \<open>pinger_v4\<close> makes of \<open>outpack\<close>: type \<open>ICMP_ECHO\<close>, code 0, checksum, identity, sequence number.
\<close>

definition echo_request :: "u16 \<Rightarrow> u16 \<Rightarrow> byte list \<Rightarrow> byte list" where
  "echo_request ident seq outpack =
     (let rest = le16 ident @ le16 seq @ drop 8 outpack;
          ck = in_cksum (take ICMP_PACKET_SIZE ([8, 0, 0, 0] @ rest))
      in [8, 0] @ le16 ck @ rest)"

section \<open>Replies\<close>

record echo_reply =
  r_id :: u16
  r_seq :: u16
  r_from :: "byte list"
  r_time :: "int \<times> int"

text \<open>
  Reading a datagram that has been received into the buffer \<open>rcvd_pkt\<close>: a short one leaves the rest of
  the buffer as it was. \<open>Reject\<close> is a packet that is not an echo reply, \<open>Fault\<close> a read past the buffer.
\<close>

definition received :: "byte list \<Rightarrow> byte list \<Rightarrow> byte list" where
  "received buf d = take (length buf) d @ drop (length d) buf"

definition at :: "byte list \<Rightarrow> nat \<Rightarrow> byte outcome" where
  "at buf i = (if i < length buf then Got (buf ! i) else Fault)"

definition read_reply :: "byte list \<Rightarrow> byte list \<Rightarrow> int \<times> int \<Rightarrow> echo_reply outcome" where
  "read_reply buf from recv_time =
     and_then (at buf 0) (\<lambda>b0. let hlen = unat (b0 AND 0x0f) * 4 in
     and_then (at buf hlen) (\<lambda>type.
     if type \<noteq> 0 then Reject
     else and_then (at buf (hlen + 4)) (\<lambda>i0. and_then (at buf (hlen + 5)) (\<lambda>i1.
          and_then (at buf (hlen + 6)) (\<lambda>s0. and_then (at buf (hlen + 7)) (\<lambda>s1.
          Got \<lparr>r_id = of_le16 i0 i1, r_seq = of_le16 s0 s1, r_from = from, r_time = recv_time\<rparr>))))))"

section \<open>Identities do not come back soon\<close>

lemma generate_ident_odd:
  assumes "odd (unat a)"
  shows "generate_ident a = a + 2"
proof -
  have "odd (unat (a + 2))" using assms by (simp add: unat_word_ariths dvd_mod_iff)
  then have "(a + 2) mod 2 \<noteq> 0" by (auto simp: word_arith_nat_mod unat_eq_zero[symmetric] even_iff_mod_2_eq_zero)
  then show ?thesis by (simp add: generate_ident_def Let_def add.assoc)
qed

lemma generate_ident_even:
  assumes "even (unat a)"
  shows "generate_ident a = a + 3"
proof -
  have "even (unat (a + 2))" using assms by (simp add: unat_word_ariths dvd_mod_iff)
  then have "(a + 2) mod 2 = 0" by (simp add: word_arith_nat_mod even_iff_mod_2_eq_zero)
  then show ?thesis by (simp add: generate_ident_def Let_def add.assoc)
qed

lemma generate_idents: "(generate_ident ^^ Suc n) 0 = of_nat (2 * n + 3)"
proof (induction n)
  case 0
  then show ?case by (simp add: generate_ident_even)
next
  case (Suc n)
  have "unat (of_nat (2 * n + 3) :: u16) = (2 * n + 3) mod 65536" unfolding unat_of_nat by simp
  then have "odd (unat (of_nat (2 * n + 3) :: u16))" by (simp add: dvd_mod_iff)
  then show ?case using Suc generate_ident_odd by (simp del: of_nat_mult)
qed

section \<open>The checksum verifies\<close>

lemma word_sum_append: "even (length a) \<Longrightarrow> word_sum (a @ b) = word_sum a + word_sum b"
  by (induction a rule: word_sum.induct) auto

lemma word_sum_bound: "word_sum bs \<le> 65535 * length bs"
proof (induction bs rule: word_sum.induct)
  case (2 b)
  then show ?case using unat_byte_less[of b] by simp
next
  case (3 b b' bs)
  then show ?case using unat_byte_less[of b] unat_byte_less[of b'] by simp
qed simp

lemma word_sum_le16: "word_sum (le16 w) = unat w"
proof -
  have "unat w < 65536" using unsigned_less[of w] by simp
  then show ?thesis
    by (simp add: le16_def unat_drop_bit_eq drop_bit_eq_div unsigned_ucast_eq take_bit_eq_mod unat_div mod_div_mult_eq
      mult.commute[of 256])
qed

lemma fold_carry_residue:
  assumes "0 < S" "S < 65535 * 65536"
  shows "0 < fold_carry S mod 65536 \<and> fold_carry S mod 65536 mod 65535 = S mod 65535"
proof -
  define q r where "q = S div 65536" and "r = S mod 65536"
  have S: "S = q * 65536 + r" "r < 65536" "q < 65535" using assms(2) by (auto simp: q_def r_def)
  have res: "S mod 65535 = (q + r) mod 65535"
  proof -
    have "S = (q + r) + q * 65535" using S(1) by simp
    then show ?thesis by (metis mod_mult_self1)
  qed
  have f: "fold_carry S = (q + r) + (q + r) div 65536" by (simp only: fold_carry_def Let_def q_def r_def)
  show ?thesis
  proof (cases "q + r < 65536")
    case True
    then have "fold_carry S mod 65536 = q + r" by (simp add: f)
    then show ?thesis using assms(1) S(1) res by simp
  next
    case False
    define t where "t = q + r - 65536"
    have t: "q + r = 65536 + t" "t < 65535" using False S by (simp_all add: t_def)
    then have "(q + r) div 65536 = 1" by simp
    then have "fold_carry S = 65536 + Suc t" using t(1) by (simp only: f)
    then have "fold_carry S mod 65536 = Suc t" using t(2) by (simp only: mod_add_self1) simp
    moreover have "(q + r) mod 65535 = Suc t mod 65535"
    proof -
      have "q + r = Suc t + 65535" using t(1) by simp
      then show ?thesis by (metis mod_add_self2)
    qed
    ultimately show ?thesis using res by simp
  qed
qed

lemma unat_in_cksum: "unat (in_cksum p) = 65535 - fold_carry (word_sum p) mod 65536"
proof -
  have "NOT (of_nat (fold_carry (word_sum p)) :: u16) = - 1 - of_nat (fold_carry (word_sum p))"
    by (simp add: not_eq_complement)
  moreover have "unat (- 1 - of_nat (fold_carry (word_sum p)) :: u16) = unat (- 1 :: u16) - unat (of_nat (fold_carry (word_sum p)) :: u16)"
    by (rule unat_sub) simp
  ultimately show ?thesis by (simp add: in_cksum_def unat_of_nat unsigned_minus_1_eq_mask mask_eq_exp_minus_1)
qed

lemma in_cksum_eq_0: "in_cksum p = 0 \<longleftrightarrow> fold_carry (word_sum p) mod 65536 = 65535"
proof -
  have "fold_carry (word_sum p) mod 65536 < 65536" by simp
  then have "unat (in_cksum p) = 0 \<longleftrightarrow> fold_carry (word_sum p) mod 65536 = 65535"
    unfolding unat_in_cksum by linarith
  then show ?thesis by (simp only: unat_eq_zero)
qed

lemma checksum_inserted:
  assumes "even (length a)" "length a + length b < 65000"
  shows "in_cksum (a @ le16 (in_cksum (a @ [0, 0] @ b)) @ b) = 0"
proof -
  define S where "S = word_sum (a @ [0, 0] @ b)"
  define v where "v = fold_carry S mod 65536"
  have S: "S = word_sum a + word_sum b" using assms(1) by (simp add: S_def word_sum_append)
  have bound: "S \<le> 65535 * 65000"
    using word_sum_bound[of a] word_sum_bound[of b] assms(2) unfolding S by linarith
  have v: "v < 65536" by (simp add: v_def)
  have T: "word_sum (a @ le16 (in_cksum (a @ [0, 0] @ b)) @ b) = S + (65535 - v)"
  proof -
    have "length (le16 w) = 2" for w by (simp add: le16_def)
    then have "word_sum (a @ le16 (in_cksum (a @ [0, 0] @ b)) @ b) = word_sum a + (unat (in_cksum (a @ [0, 0] @ b)) + word_sum b)"
      using assms(1) by (simp add: word_sum_append[of "le16 _"] word_sum_append[of a] word_sum_le16)
    then show ?thesis using v unfolding unat_in_cksum v_def S_def[symmetric] S by linarith
  qed
  show ?thesis
  proof (cases "S = 0")
    case True
    then have "v = 0" by (simp add: v_def fold_carry_def)
    then show ?thesis using True T by (simp add: in_cksum_eq_0 fold_carry_def)
  next
    case False
    then have r: "0 < v" "v mod 65535 = S mod 65535" using fold_carry_residue[of S] bound by (auto simp: v_def)
    have "v \<le> 65535" using v by simp
    then have "(S + (65535 - v)) mod 65535 = 0"
      using r(2) by (metis add_diff_cancel_left' le_add_diff_inverse mod_add_left_eq mod_self)
    moreover have "0 < S + (65535 - v)" "S + (65535 - v) < 65535 * 65536" using False bound by simp_all
    ultimately have w: "0 < fold_carry (S + (65535 - v)) mod 65536" "fold_carry (S + (65535 - v)) mod 65536 mod 65535 = 0"
      using fold_carry_residue[of "S + (65535 - v)"] by auto
    from w(2) obtain k where k: "fold_carry (S + (65535 - v)) mod 65536 = 65535 * k" by (auto simp: mod_eq_0_iff_dvd)
    have "fold_carry (S + (65535 - v)) mod 65536 < 65536" by simp
    then have "k < 2" using k by linarith
    then have "fold_carry (S + (65535 - v)) mod 65536 = 65535" using w(1) k by (cases k) auto
    then show ?thesis by (simp only: in_cksum_eq_0 T)
  qed
qed

section \<open>What comes back is what was sent\<close>

lemma of_le16_le16: "of_le16 (le16 w ! 0) (le16 w ! 1) = w"
proof -
  have "unat (le16 w ! 0) + 256 * unat (le16 w ! 1) = unat w" using word_sum_le16[of w] by (simp add: le16_def)
  then have "of_nat (unat (le16 w ! 0) + 256 * unat (le16 w ! 1)) = w" by simp
  then show ?thesis by (simp add: of_le16_def)
qed

lemma read_reply_header:
  assumes "length buf = ICMP_PACKET_SIZE" "hlen = unat (buf ! 0 AND 0x0f) * 4" "hlen \<le> 56" "buf ! hlen = 0"
  shows "read_reply buf from tm =
     Got \<lparr>r_id = of_le16 (buf ! (hlen + 4)) (buf ! (hlen + 5)), r_seq = of_le16 (buf ! (hlen + 6)) (buf ! (hlen + 7)),
          r_from = from, r_time = tm\<rparr>"
  using assms by (simp add: read_reply_def at_def Let_def)

text \<open>Header lengths below 60 bytes never make the reader leave its buffer.\<close>

lemma read_reply_safe:
  assumes "length buf = ICMP_PACKET_SIZE" "unat (buf ! 0 AND 0x0f) < 15"
  shows "read_reply buf from tm \<noteq> Fault"
  using assms by (auto simp: read_reply_def at_def Let_def)

section \<open>Properties\<close>

text \<open>
  C29. Every echo request carries a correct checksum: the 64 bytes that are sent, checksum included, verify, whatever
  identity, sequence number and data they hold.
\<close>

theorem echo_request_verifies:
  assumes "length outpack = 128"
  shows "in_cksum (take 64 (echo_request ident seq outpack)) = 0"
proof -
  define b where "b = take 60 (le16 ident @ le16 seq @ drop 8 outpack)"
  have l: "length (le16 w) = 2" for w by (simp add: le16_def)
  have "take 64 ([8, 0, 0, 0] @ le16 ident @ le16 seq @ drop 8 outpack) = [8, 0] @ [0, 0] @ b" by (simp add: b_def)
  then have "take 64 (echo_request ident seq outpack) = [8, 0] @ le16 (in_cksum ([8, 0] @ [0, 0] @ b)) @ b"
    by (simp add: echo_request_def Let_def b_def l)
  moreover have "length [8, 0 :: byte] + length b < 65000" by (simp add: b_def)
  ultimately show ?thesis using checksum_inserted[of "[8, 0]" b] by simp
qed

theorem echo_request_verifies_witness: "in_cksum (take 64 (echo_request 3 1 fresh_outpack)) = 0"
  by (rule echo_request_verifies) (simp add: fresh_outpack_def fill_pattern_def)

text \<open>
  The identities of up to 32768 checks started one after the other are all different, so two checks in flight
  share one only if that many were started in between.
\<close>

theorem idents_distinct:
  assumes "i < j" "j - i < 32768"
  shows "(generate_ident ^^ Suc i) 0 \<noteq> (generate_ident ^^ Suc j) 0"
proof
  assume "(generate_ident ^^ Suc i) 0 = (generate_ident ^^ Suc j) 0"
  then have "unat (of_nat (2 * i + 3) :: u16) = unat (of_nat (2 * j + 3) :: u16)" by (simp only: generate_idents)
  then have e: "(2 * i + 3) mod 65536 = (2 * j + 3) mod 65536" unfolding unat_of_nat by simp
  then have "65536 dvd (2 * j + 3) - (2 * i + 3)" using assms(1) by (metis add_le_mono1 less_imp_le mod_eq_dvd_iff_nat mult_le_mono2)
  then have "65536 dvd 2 * (j - i)" using assms(1) by (simp add: diff_mult_distrib2)
  then show False using assms by (auto dest: dvd_imp_le)
qed

theorem idents_distinct_witness: "(generate_ident ^^ Suc 0) 0 \<noteq> (generate_ident ^^ Suc 32767) 0"
  by (rule idents_distinct) simp_all

text \<open>
  An echo reply that carries 15 words of IP header, as one with options may, is read four bytes past the
  receive buffer.
\<close>

theorem long_header_overrun:
  assumes "length buf = 64" "buf ! 0 = 0x4f" "buf ! 60 = 0"
  shows "read_reply buf from tm = Fault"
  using assms by (simp add: read_reply_def at_def)

theorem long_header_overrun_witness: "read_reply (0x4f # replicate 63 0) [] (0, 0) = Fault"
  by (rule long_header_overrun) (simp_all add: nth_Cons')

text \<open>The pattern of 120 bytes is stored from byte 24 on, 16 bytes past the end of the 128 bytes of \<open>outpack\<close>.\<close>

theorem pattern_overruns_outpack: "24 + length fill_pattern = 128 + 16 \<and> length fresh_outpack = 128"
  by (simp add: fill_pattern_def fresh_outpack_def)

end
