(* ===== verification/Icmp_Check.thy ===== *)
theory Icmp_Check
  imports Icmp_Packet Ring_Log Check_Queue
begin

text \<open>
  The three checks of icmp.c that share the raw socket: ping, packet loss and round-trip time. All of
  them send with \<open>pinger_v4\<close>; \<open>handle_icmp_responses\<close> is the one reader of the socket and hands each echo reply to the
  check it belongs to. The world holds the data of the checks in progress, the helper's state and what
  the system calls answer. Memory allocation succeeds, \<open>double\<close> is a rational number, and the bitmap
  \<open>icmp_temp.rcvd_tbl\<close>, which is cleared and never read, is left out.
\<close>

abbreviation (input) EPERM :: errno_t where "EPERM \<equiv> EOTHER 1"
abbreviation (input) EACCES :: errno_t where "EACCES \<equiv> EOTHER 13"

section \<open>State\<close>

record pingdata =
  p_to :: "byte list"
  p_ident :: u16
  p_packetsent :: int
  p_nreceived :: int
  p_outpack :: "byte list"
  p_lastsentat :: timeval

record pktloss_sample =
  sm_timestamp :: int
  sm_sent :: u32
  sm_received :: u32
  sm_lost :: u32

record pktloss_data =
  l_history :: "pktloss_sample list"
  l_history_head :: nat
  l_history_count :: nat
  l_total_sent :: u64
  l_total_received :: u64
  l_total_lost :: u64
  l_ping :: pingdata

record rtt_data =
  q_ping :: pingdata
  q_rtt_current :: rat
  q_rtt_min :: rat
  q_rtt_max :: rat
  q_rtt_avg :: rat
  q_rtt_sum :: rat
  q_rtt_count :: nat
  q_jitter_current :: rat
  q_rtt_previous :: rat
  q_sent_at :: "timeval list"
  q_answered :: "bool list"
  q_probes :: nat
  q_last_send_time :: timeval

text \<open>How a run of the setuid helper ends: a failing system call, an exit status, or success.\<close>

datatype helper_result = Helper_ok | Helper_call_failed | Helper_bad_status

text \<open>
  \<open>iw_now\<close> is the time the scheduler took at the start of its pass, \<open>iw_tv\<close> what \<open>gettimeofday\<close> says during the call,
  \<open>iw_sendto\<close> the error of \<open>sendto\<close>, if any, and \<open>iw_sent\<close> the packets handed to the socket.
\<close>

record icmp_world =
  iw_fd :: int
  iw_use_helper :: bool
  iw_helper_required :: bool
  iw_helper_failed_once :: bool
  iw_ident :: u16
  iw_ping :: "nat \<Rightarrow> pingdata option"
  iw_loss :: "nat \<Rightarrow> pktloss_data option"
  iw_rtt :: "nat \<Rightarrow> rtt_data option"
  iw_sent :: "(byte list \<times> byte list) list"
  iw_now :: timeval
  iw_tv :: timeval
  iw_time :: int
  iw_resolve :: "string \<Rightarrow> my_hostent option"
  iw_sendto :: "errno_t option"
  iw_helper :: helper_result

type_synonym icmp_op = "(u64 \<times> icmp_world) check_op"

section \<open>Sending\<close>

definition pinger_v4_via_helper :: "monitorent \<times> icmp_world \<Rightarrow> bool \<times> monitorent \<times> icmp_world" where
  "pinger_v4_via_helper = (\<lambda>(m, w).
     if iw_helper_failed_once w then (False, m\<lparr>m_retval := SYSM_ERR\<rparr>, w)
     else case iw_helper w of
            Helper_ok \<Rightarrow> (True, m, w)
          | Helper_call_failed \<Rightarrow> (False, m\<lparr>m_retval := SYSM_ERR\<rparr>, w)
          | Helper_bad_status \<Rightarrow> (False, m\<lparr>m_retval := SYSM_ERR\<rparr>, w\<lparr>iw_use_helper := False, iw_helper_failed_once := True\<rparr>))"

definition via_helper :: "pingdata \<times> monitorent \<times> icmp_world \<Rightarrow> pingdata \<times> monitorent \<times> icmp_world" where
  "via_helper = (\<lambda>(p, m, w).
     if iw_use_helper w
     then (case pinger_v4_via_helper (m, w) of (ok, m', w') \<Rightarrow>
             ((if ok then p\<lparr>p_lastsentat := iw_tv w\<rparr> else p), m', w'))
     else (p, m, w))"

text \<open>The next packet: the count, which is the sequence number, and the packet with its checksum.\<close>

definition counted :: "pingdata \<Rightarrow> pingdata" where
  "counted p = p\<lparr>p_packetsent := p_packetsent p + 1,
     p_outpack := echo_request (p_ident p) (word_of_int (p_packetsent p + 1)) (p_outpack p)\<rparr>"

definition pinger_v4 :: "pingdata \<times> monitorent \<times> icmp_world \<Rightarrow> pingdata \<times> monitorent \<times> icmp_world" where
  "pinger_v4 = (\<lambda>(p, m, w).
     if iw_fd w = - 1 \<and> \<not> iw_use_helper w then (p, m, w)
     else
       let p1 = counted p
       in if iw_fd w \<noteq> - 1 then
            (case iw_sendto w of
               None \<Rightarrow> (p1\<lparr>p_lastsentat := iw_tv w\<rparr>, m,
                         w\<lparr>iw_sent := iw_sent w @ [(p_to p, take ICMP_PACKET_SIZE (p_outpack p1))]\<rparr>)
             | Some e \<Rightarrow>
                 if e = ENETUNREACH then (p1, m\<lparr>m_retval := SYSM_NETUNRCH\<rparr>, w)
                 else if e = EHOSTDOWN \<or> e = EHOSTUNREACH then (p1, m\<lparr>m_retval := SYSM_HOSTDOWN\<rparr>, w)
                 else if e = EPERM \<or> e = EACCES
                 then via_helper (p1, m, if iw_use_helper w then w\<lparr>iw_helper_required := True\<rparr> else w)
                 else (p1, m, w))
          else via_helper (p1, m, w))"

text \<open>What the three start functions have in common: the target and a packet with its identity.\<close>

definition fresh_ping :: "my_hostent \<Rightarrow> u16 \<Rightarrow> pingdata" where
  "fresh_ping hp ident =
     \<lparr>p_to = my_h_addr_v4 hp, p_ident = ident, p_packetsent = 0, p_nreceived = 0,
      p_outpack = fresh_outpack, p_lastsentat = (0, 0)\<rparr>"

abbreviation (input) icmp_packet_delay :: int where "icmp_packet_delay \<equiv> 1000000"

section \<open>Ping\<close>

definition put_ping :: "nat \<Rightarrow> pingdata option \<Rightarrow> icmp_world \<Rightarrow> icmp_world" where
  "put_ping k p w = w\<lparr>iw_ping := (iw_ping w)(k := p)\<rparr>"

definition start_test_ping :: icmp_op where
  "start_test_ping now = (\<lambda>(m, h, seq, w).
     if iw_fd w = - 1 then (m\<lparr>m_retval := SYSM_OK\<rparr>, h, seq, w)
     else let m1 = m\<lparr>m_filedes := - 1, m_lastserv := iw_tv w\<rparr> in
       (case iw_resolve w (h_hostname h) of
          None \<Rightarrow> (m1\<lparr>m_retval := SYSM_NODNS, m_monitordata := False\<rparr>, h, seq, w)
        | Some hp \<Rightarrow>
            let ident = generate_ident (iw_ident w);
                (p, m2, w2) = pinger_v4 (fresh_ping hp ident, m1\<lparr>m_monitordata := True\<rparr>, w\<lparr>iw_ident := ident\<rparr>)
            in (m2, h, seq, put_ping (m_checkent m) (Some (p\<lparr>p_lastsentat := iw_tv w2\<rparr>)) w2)))"

definition service_test_ping :: icmp_op where
  "service_test_ping now = (\<lambda>(m, h, seq, w).
     case (if m_monitordata m then iw_ping w (m_checkent m) else None) of
       None \<Rightarrow> (m, h, seq, w)
     | Some p \<Rightarrow>
         let m = m\<lparr>m_lastserv := iw_now w\<rparr> in
         if mydifftime (p_lastsentat p) (m_lastserv m) \<le> icmp_packet_delay then (m, h, seq, w)
         else if word_of_int (p_packetsent p) \<ge> h_send_pings h \<and>
                 mydifftime (p_lastsentat p) (m_lastserv m) \<ge> icmp_packet_delay * 2
         then (m\<lparr>m_retval := SYSM_UNPINGABLE, m_monitordata := False\<rparr>, h, seq, put_ping (m_checkent m) None w)
         else
           let (p1, m1, w1) = (if word_of_int (p_nreceived p) < h_min_pings h \<and>
                                  mydifftime (p_lastsentat p) (m_lastserv m) \<ge> 1000000
                               then pinger_v4 (p, m, w) else (p, m, w))
           in if h_min_pings h \<le> word_of_int (p_nreceived p1)
              then (m1\<lparr>m_retval := SYSM_OK, m_monitordata := False\<rparr>, h, seq, put_ping (m_checkent m) None w1)
              else (m1, h, seq, put_ping (m_checkent m) (Some p1) w1))"

definition stop_test_ping :: icmp_op where
  "stop_test_ping now = (\<lambda>(m, h, seq, w).
     (m\<lparr>m_monitordata := False\<rparr>, h, seq, if m_monitordata m then put_ping (m_checkent m) None w else w))"

section \<open>Packet loss\<close>

abbreviation (input) PKTLOSS_HISTORY_SIZE :: nat where "PKTLOSS_HISTORY_SIZE \<equiv> 1440"
abbreviation (input) ULLONG_MAX :: u64 where "ULLONG_MAX \<equiv> - 1"

definition zero_sample :: pktloss_sample where
  "zero_sample = \<lparr>sm_timestamp = 0, sm_sent = 0, sm_received = 0, sm_lost = 0\<rparr>"

definition loss_sample :: "int \<times> u32 \<times> u32 \<Rightarrow> pktloss_sample" where
  "loss_sample = (\<lambda>(timestamp, sent, rcvd).
     \<lparr>sm_timestamp = timestamp, sm_sent = sent, sm_received = rcvd, sm_lost = (if sent > rcvd then sent - rcvd else 0)\<rparr>)"

definition pktloss_add_sample :: "int \<times> u32 \<times> u32 \<Rightarrow> pktloss_data \<Rightarrow> pktloss_data" where
  "pktloss_add_sample smp d =
     (let e = loss_sample smp;
          d1 = d\<lparr>l_history := (l_history d)[l_history_head d := e],
                 l_history_head := (l_history_head d + 1) mod PKTLOSS_HISTORY_SIZE,
                 l_history_count := (if l_history_count d < PKTLOSS_HISTORY_SIZE then l_history_count d + 1 else l_history_count d)\<rparr>
      in if l_total_sent d > ULLONG_MAX - ucast (sm_sent e)
         then d1\<lparr>l_total_sent := ucast (sm_sent e), l_total_received := ucast (sm_received e), l_total_lost := ucast (sm_lost e)\<rparr>
         else d1\<lparr>l_total_sent := l_total_sent d + ucast (sm_sent e),
                 l_total_received := l_total_received d + ucast (sm_received e),
                 l_total_lost := l_total_lost d + ucast (sm_lost e)\<rparr>)"

definition fresh_loss :: "pingdata \<Rightarrow> pktloss_data" where
  "fresh_loss p =
     \<lparr>l_history = replicate PKTLOSS_HISTORY_SIZE zero_sample, l_history_head = 0, l_history_count = 0,
      l_total_sent = 0, l_total_received = 0, l_total_lost = 0, l_ping = p\<rparr>"

definition put_loss :: "nat \<Rightarrow> pktloss_data option \<Rightarrow> icmp_world \<Rightarrow> icmp_world" where
  "put_loss k d w = w\<lparr>iw_loss := (iw_loss w)(k := d)\<rparr>"

definition start_test_pktloss :: icmp_op where
  "start_test_pktloss now = (\<lambda>(m, h, seq, w).
     if iw_fd w = - 1 then (m\<lparr>m_retval := SYSM_OK\<rparr>, h, seq, w)
     else let m1 = m\<lparr>m_filedes := - 1, m_lastserv := iw_tv w\<rparr> in
       (case iw_resolve w (h_hostname h) of
          None \<Rightarrow> (m1\<lparr>m_retval := SYSM_NODNS, m_monitordata := False\<rparr>, h, seq, w)
        | Some hp \<Rightarrow>
            let ident = generate_ident (iw_ident w);
                (p, m2, w2) = pinger_v4 (fresh_ping hp ident, m1\<lparr>m_monitordata := True\<rparr>, w\<lparr>iw_ident := ident\<rparr>)
            in (m2, h, seq, put_loss (m_checkent m) (Some (fresh_loss (p\<lparr>p_lastsentat := iw_tv w2\<rparr>))) w2)))"

definition pktloss_verdict :: "u32 \<Rightarrow> u32 \<Rightarrow> u32 \<Rightarrow> int" where
  "pktloss_verdict tolerance sent lost =
     (if lost > tolerance then (if lost = sent then SYSM_UNPINGABLE else SYSM_PKTLOSS_EXCEED) else SYSM_OK)"

text \<open>The sample is added to data that are released at the end of the same call.\<close>

definition service_test_pktloss :: icmp_op where
  "service_test_pktloss now = (\<lambda>(m, h, seq, w).
     case (if m_monitordata m then iw_loss w (m_checkent m) else None) of
       None \<Rightarrow> (m, h, seq, w)
     | Some d \<Rightarrow>
         let p = l_ping d; m = m\<lparr>m_lastserv := iw_now w\<rparr> in
         if mydifftime (p_lastsentat p) (m_lastserv m) \<le> icmp_packet_delay then (m, h, seq, w)
         else if word_of_int (p_packetsent p) \<ge> h_send_pings h \<and>
                 mydifftime (p_lastsentat p) (m_lastserv m) \<ge> icmp_packet_delay * 2
         then
           let sent = word_of_int (p_packetsent p); rcvd = word_of_int (p_nreceived p);
               lost = (if rcvd \<ge> sent then 0 else sent - rcvd);
               d1 = pktloss_add_sample (iw_time w, sent, rcvd) d;
               (h1, seq1) = object_changed (h\<lparr>h_pktloss_last_sent := sent, h_pktloss_last_recv := rcvd\<rparr>, seq)
           in (m\<lparr>m_retval := pktloss_verdict (h_pktloss_tolerance h) sent lost, m_monitordata := False\<rparr>, h1, seq1,
               put_loss (m_checkent m) None (put_loss (m_checkent m) (Some d1) w))
         else if word_of_int (p_packetsent p) < h_send_pings h \<and> mydifftime (p_lastsentat p) (m_lastserv m) \<ge> 1000000
         then (case pinger_v4 (p, m, w) of (p1, m1, w1) \<Rightarrow>
                 (m1, h, seq, put_loss (m_checkent m) (Some (d\<lparr>l_ping := p1\<rparr>)) w1))
         else (m, h, seq, w))"

definition stop_test_pktloss :: icmp_op where
  "stop_test_pktloss now = (\<lambda>(m, h, seq, w).
     (m\<lparr>m_monitordata := False\<rparr>, h, seq, if m_monitordata m then put_loss (m_checkent m) None w else w))"

section \<open>Round-trip times\<close>

abbreviation (input) RTT_MAX_SAMPLES :: nat where "RTT_MAX_SAMPLES \<equiv> 64"

definition calculate_rtt_ms :: "timeval \<Rightarrow> timeval \<Rightarrow> rat" where
  "calculate_rtt_ms send recv =
     of_int (fst recv - fst send) * 1000 + of_int (snd recv - snd send) / 1000"

definition update_jitter :: "rtt_data \<Rightarrow> rat \<Rightarrow> rtt_data" where
  "update_jitter d rtt =
     (let diff = \<bar>rtt - q_rtt_previous d\<bar>
      in d\<lparr>q_jitter_current := q_jitter_current d + (diff - q_jitter_current d) / 16\<rparr>)"

definition put_rtt :: "nat \<Rightarrow> rtt_data option \<Rightarrow> icmp_world \<Rightarrow> icmp_world" where
  "put_rtt k d w = w\<lparr>iw_rtt := (iw_rtt w)(k := d)\<rparr>"

definition fresh_rtt :: "timeval \<Rightarrow> pingdata \<Rightarrow> rtt_data" where
  "fresh_rtt tv p =
     \<lparr>q_ping = p, q_rtt_current = 0, q_rtt_min = 999999, q_rtt_max = 0, q_rtt_avg = 0, q_rtt_sum = 0, q_rtt_count = 0,
      q_jitter_current = 0, q_rtt_previous = 0, q_sent_at = (replicate RTT_MAX_SAMPLES (0, 0))[0 := tv],
      q_answered = replicate RTT_MAX_SAMPLES False, q_probes = 1, q_last_send_time = tv\<rparr>"

definition start_test_rtt :: icmp_op where
  "start_test_rtt now = (\<lambda>(m, h, seq, w).
     if iw_fd w = - 1 then (m\<lparr>m_retval := SYSM_OK\<rparr>, h, seq, w)
     else let m1 = m\<lparr>m_filedes := - 1, m_lastserv := iw_tv w\<rparr> in
       (case iw_resolve w (h_hostname h) of
          None \<Rightarrow> (m1\<lparr>m_retval := SYSM_NODNS\<rparr>, h, seq, w)
        | Some hp \<Rightarrow>
            let ident = generate_ident (iw_ident w);
                (p, m2, w2) = pinger_v4 (fresh_ping hp ident, m1, w\<lparr>iw_ident := ident\<rparr>)
            in (m2\<lparr>m_monitordata := True, m_retval := - 1\<rparr>, h, seq,
                put_rtt (m_checkent m) (Some (fresh_rtt (iw_tv w) (p\<lparr>p_lastsentat := iw_tv w2\<rparr>))) w2)))"

text \<open>One sample, at the index of the probe it answers.\<close>

definition rtt_record :: "nat \<Rightarrow> timeval \<Rightarrow> rtt_data \<Rightarrow> rtt_data" where
  "rtt_record idx recv_time d =
     (let rtt_ms = calculate_rtt_ms (q_sent_at d ! idx) recv_time;
          rsum = q_rtt_sum d + rtt_ms; n = q_rtt_count d + 1;
          d1 = d\<lparr>q_answered := (q_answered d)[idx := True], q_rtt_current := rtt_ms,
                 q_rtt_min := (if rtt_ms < q_rtt_min d then rtt_ms else q_rtt_min d),
                 q_rtt_max := (if rtt_ms > q_rtt_max d then rtt_ms else q_rtt_max d),
                 q_rtt_sum := rsum, q_rtt_count := n, q_rtt_avg := rsum / of_nat n\<rparr>;
          d2 = (if n > 1 then update_jitter d1 rtt_ms else d1)
      in d2\<lparr>q_rtt_previous := rtt_ms, q_ping := (q_ping d)\<lparr>p_nreceived := p_nreceived (q_ping d) + 1\<rparr>\<rparr>)"

definition rtt_match_and_record :: "monitorent \<Rightarrow> echo_reply \<Rightarrow> icmp_world \<Rightarrow> bool \<times> icmp_world" where
  "rtt_match_and_record m r w =
     (case (if m_monitordata m then iw_rtt w (m_checkent m) else None) of
        None \<Rightarrow> (False, w)
      | Some d \<Rightarrow>
          if r_id r \<noteq> p_ident (q_ping d) \<or> r_from r \<noteq> p_to (q_ping d) then (False, w)
          else if r_seq r = 0 \<or> unat (r_seq r) > q_probes d \<or> unat (r_seq r) > RTT_MAX_SAMPLES then (False, w)
          else let idx = unat (r_seq r) - 1
               in if q_answered d ! idx then (True, w)
                  else (True, put_rtt (m_checkent m) (Some (rtt_record idx (r_time r) d)) w))"

definition rtt_interval_ms :: "hostinfo \<Rightarrow> rat" where
  "rtt_interval_ms h =
     (if h_rtt_interval h < 10 \<or> h_rtt_interval h > 5000 then 100 else of_nat (unat (h_rtt_interval h)))"

definition rtt_want :: "hostinfo \<Rightarrow> nat" where
  "rtt_want h =
     (let want = unat (h_rtt_samples h); want1 = (if want > RTT_MAX_SAMPLES then RTT_MAX_SAMPLES else want)
      in if want1 = 0 then 1 else want1)"

definition rtt_ms_until_next_probe :: "monitorent \<Rightarrow> hostinfo \<Rightarrow> timeval \<Rightarrow> icmp_world \<Rightarrow> rat" where
  "rtt_ms_until_next_probe m h now w =
     (case (if m_monitordata m \<and> h_type h = SYSM_TYPE_PING_LATENCY then iw_rtt w (m_checkent m) else None) of
        None \<Rightarrow> - 1
      | Some d \<Rightarrow>
          if q_probes d \<ge> rtt_want h then - 1
          else let since = calculate_rtt_ms (q_last_send_time d) now
               in if since \<ge> rtt_interval_ms h then 0 else rtt_interval_ms h - since)"

definition rtt_finish :: "int \<Rightarrow> rtt_data \<Rightarrow> monitorent \<times> hostinfo \<times> u64 \<times> icmp_world \<Rightarrow> monitorent \<times> hostinfo \<times> u64 \<times> icmp_world" where
  "rtt_finish retval d = (\<lambda>(m, h, seq, w).
     let h1 = (if q_rtt_count d > 0
               then h\<lparr>h_rtt_last_min := q_rtt_min d, h_rtt_last_avg := q_rtt_avg d, h_rtt_last_max := q_rtt_max d,
                      h_rtt_last_jitter := q_jitter_current d, h_rtt_last_replies := of_nat (q_rtt_count d),
                      h_rtt_last_probes := of_nat (q_probes d)\<rparr>
               else h\<lparr>h_rtt_last_replies := 0, h_rtt_last_probes := of_nat (q_probes d)\<rparr>);
         (h2, seq2) = object_changed (h1, seq)
     in (m\<lparr>m_retval := retval, m_monitordata := False\<rparr>, h2, seq2, put_rtt (m_checkent m) None w))"

definition rtt_verdict :: "hostinfo \<Rightarrow> rtt_data \<Rightarrow> int" where
  "rtt_verdict h d =
     (if q_rtt_count d = 0 then SYSM_TIMEDOUT
      else if h_rtt_threshold h > 0 \<and> q_rtt_avg d > of_nat (unat (h_rtt_threshold h)) then SYSM_RTT_HIGH
      else if h_jitter_threshold h > 0 \<and> q_jitter_current d > of_nat (unat (h_jitter_threshold h)) then SYSM_JITTER_HIGH
      else SYSM_OK)"

definition service_test_rtt :: icmp_op where
  "service_test_rtt now = (\<lambda>(m, h, seq, w).
     case (if m_monitordata m then iw_rtt w (m_checkent m) else None) of
       None \<Rightarrow> (m, h, seq, w)
     | Some d \<Rightarrow>
         let want = rtt_want h; since_send = calculate_rtt_ms (q_last_send_time d) (iw_now w)
         in if q_probes d < want \<and> since_send \<ge> rtt_interval_ms h
            then
              let d1 = d\<lparr>q_sent_at := (q_sent_at d)[q_probes d := iw_tv w], q_last_send_time := iw_tv w,
                         q_probes := q_probes d + 1\<rparr>;
                  (p, m1, w1) = pinger_v4 (q_ping d, m, w)
              in (m1, h, seq, put_rtt (m_checkent m) (Some (d1\<lparr>q_ping := p\<lparr>p_lastsentat := iw_tv w1\<rparr>\<rparr>)) w1)
            else if q_probes d \<ge> want \<and> (q_rtt_count d \<ge> want \<or> since_send \<ge> 1000)
            then rtt_finish (rtt_verdict h d) d (m, h, seq, w)
            else if since_send > 30000 then rtt_finish SYSM_TIMEDOUT d (m, h, seq, w)
            else (m, h, seq, w))"

definition stop_test_rtt :: icmp_op where
  "stop_test_rtt now = (\<lambda>(m, h, seq, w).
     if m_monitordata m then (m\<lparr>m_monitordata := False\<rparr>, h, seq, put_rtt (m_checkent m) None w) else (m, h, seq, w))"

section \<open>The reader of the socket\<close>

text \<open>\<open>types\<close> gives the type of the object a queue entry checks. A reply goes to the first entry it matches.\<close>

definition matches :: "echo_reply \<Rightarrow> pingdata \<Rightarrow> bool" where
  "matches r p \<longleftrightarrow> r_id r = p_ident p \<and> r_from r = p_to p"

primrec give_reply :: "(nat \<Rightarrow> int) \<Rightarrow> echo_reply \<Rightarrow> monitorent list \<Rightarrow> icmp_world \<Rightarrow> icmp_world" where
  "give_reply types r [] w = w"
| "give_reply types r (m # ms) w =
     (let k = m_checkent m in
      if types k = SYSM_TYPE_PING_LATENCY
      then (case rtt_match_and_record m r w of (hit, w') \<Rightarrow> if hit then w' else give_reply types r ms w')
      else if types k = SYSM_TYPE_PKTLOSS
      then (case (if m_monitordata m then iw_loss w k else None) of
              None \<Rightarrow> give_reply types r ms w
            | Some d \<Rightarrow>
                if matches r (l_ping d)
                then (if p_nreceived (l_ping d) < p_packetsent (l_ping d)
                      then put_loss k (Some (d\<lparr>l_ping := (l_ping d)\<lparr>p_nreceived := p_nreceived (l_ping d) + 1\<rparr>\<rparr>)) w else w)
                else give_reply types r ms w)
      else if types k \<noteq> SYSM_TYPE_PING then give_reply types r ms w
      else (case (if m_monitordata m then iw_ping w k else None) of
              None \<Rightarrow> give_reply types r ms w
            | Some p \<Rightarrow>
                if matches r p then put_ping k (Some (p\<lparr>p_nreceived := p_nreceived p + 1\<rparr>)) w
                else give_reply types r ms w))"

text \<open>The datagrams waiting on the socket, each with its source and the time it is given; \<open>buf\<close> is \<open>rcvd_pkt\<close>.\<close>

fun response_loop ::
    "(nat \<Rightarrow> int) \<Rightarrow> byte list \<Rightarrow> (byte list \<times> byte list \<times> timeval) list \<Rightarrow> monitorent list \<Rightarrow> icmp_world \<Rightarrow> icmp_world outcome" where
  "response_loop types buf [] q w = Got w"
| "response_loop types buf ((d, from, tm) # ds) q w =
     (case read_reply (received buf d) from tm of
        Fault \<Rightarrow> Fault
      | Reject \<Rightarrow> response_loop types (received buf d) ds q w
      | Got r \<Rightarrow> response_loop types (received buf d) ds q (give_reply types r q w))"

definition handle_icmp_responses ::
    "(nat \<Rightarrow> int) \<Rightarrow> byte list \<Rightarrow> (byte list \<times> byte list \<times> timeval) list \<Rightarrow> monitorent list \<Rightarrow> icmp_world \<Rightarrow> icmp_world outcome" where
  "handle_icmp_responses types buf ds q w = (if iw_fd w = - 1 then Got w else response_loop types buf ds q w)"

section \<open>The contract of the scheduler\<close>

lemmas icmp_put = put_ping_def put_loss_def put_rtt_def

text \<open>Sending touches the result of the entry, the state of the helper and the list of packets.\<close>

definition same_entry :: "monitorent \<Rightarrow> monitorent \<Rightarrow> bool" where
  "same_entry m m' \<longleftrightarrow> (\<exists>r. m' = m\<lparr>m_retval := r\<rparr>)"

lemma same_entry_refl [simp]: "same_entry m m"
  unfolding same_entry_def by (rule exI[of _ "m_retval m"]) simp

lemma same_entry_retval [simp]: "same_entry m (m\<lparr>m_retval := r\<rparr>)"
  by (auto simp: same_entry_def)

lemma same_entryD:
  assumes "same_entry m m'"
  shows "m_checkent m' = m_checkent m" "m_unique_name m' = m_unique_name m" "m_queueat m' = m_queueat m"
    "m_wakeup_count m' = m_wakeup_count m" "m_monitordata m' = m_monitordata m" "m_filedes m' = m_filedes m"
  using assms by (auto simp: same_entry_def)

lemma via_helper_frame:
  assumes "via_helper (p, m, w) = (p', m', w')"
  shows "same_entry m m'" "iw_ping w' = iw_ping w" "iw_loss w' = iw_loss w" "iw_rtt w' = iw_rtt w" "iw_tv w' = iw_tv w"
    "iw_now w' = iw_now w" "iw_fd w' = iw_fd w" "iw_ident w' = iw_ident w" "iw_sent w' = iw_sent w"
    "p_packetsent p' = p_packetsent p" "p_nreceived p' = p_nreceived p" "p_to p' = p_to p" "p_ident p' = p_ident p"
    "p_outpack p' = p_outpack p" "p_lastsentat p' = p_lastsentat p \<or> p_lastsentat p' = iw_tv w"
  using assms
  by (auto simp: via_helper_def pinger_v4_via_helper_def split: if_splits helper_result.splits)

text \<open>The three ways \<open>pinger_v4\<close> can go: nothing to send with, done with the socket, or left to the helper.\<close>

lemma counted_sel [simp]:
  "p_packetsent (counted p) = p_packetsent p + 1" "p_nreceived (counted p) = p_nreceived p" "p_to (counted p) = p_to p"
  "p_ident (counted p) = p_ident p" "p_lastsentat (counted p) = p_lastsentat p"
  by (simp_all add: counted_def)

lemma pinger_v4_cases:
  obtains (nothing) "iw_fd w = - 1" "\<not> iw_use_helper w" "pinger_v4 (p, m, w) = (p, m, w)"
  | (socket) r tv x where "iw_fd w \<noteq> - 1" "tv = p_lastsentat p \<or> tv = iw_tv w"
      "pinger_v4 (p, m, w) = ((counted p)\<lparr>p_lastsentat := tv\<rparr>, m\<lparr>m_retval := r\<rparr>, w\<lparr>iw_sent := x\<rparr>)"
  | (helper) b where "iw_fd w \<noteq> - 1 \<or> iw_use_helper w" "pinger_v4 (p, m, w) = via_helper (counted p, m, w\<lparr>iw_helper_required := b\<rparr>)"
proof -
  have same: "(counted p)\<lparr>p_lastsentat := p_lastsentat p\<rparr> = counted p" "m\<lparr>m_retval := m_retval m\<rparr> = m"
    "w\<lparr>iw_sent := iw_sent w\<rparr> = w" "w\<lparr>iw_helper_required := iw_helper_required w\<rparr> = w"
    by simp_all
  consider (a) "iw_fd w = - 1" "\<not> iw_use_helper w" | (b) "iw_fd w = - 1" "iw_use_helper w" | (c) "iw_fd w \<noteq> - 1" by blast
  then show thesis
  proof cases
    case a
    show thesis by (rule nothing) (use a in \<open>simp_all add: pinger_v4_def\<close>)
  next
    case b
    then show thesis
      using helper[of "iw_helper_required w"] by (simp add: pinger_v4_def Let_def same)
  next
    case c
    show thesis
    proof (cases "iw_sendto w")
      case None
      then show thesis using c socket[of "iw_tv w" "m_retval m"] by (simp add: pinger_v4_def Let_def same)
    next
      case (Some e)
      consider "e = ENETUNREACH" | "e = EHOSTDOWN \<or> e = EHOSTUNREACH" | "e = EPERM \<or> e = EACCES"
        | "e \<noteq> ENETUNREACH" "\<not> (e = EHOSTDOWN \<or> e = EHOSTUNREACH)" "\<not> (e = EPERM \<or> e = EACCES)" by blast
      then show thesis
      proof cases
        case 1
        then show thesis using socket[of "p_lastsentat p" SYSM_NETUNRCH "iw_sent w"] c Some same(1,3) by (simp add: pinger_v4_def)
      next
        case 2
        then show thesis using socket[of "p_lastsentat p" SYSM_HOSTDOWN "iw_sent w"] c Some same(1,3)
          by (elim disjE) (simp_all add: pinger_v4_def)
      next
        case 3
        then show thesis using helper[of True] helper[of "iw_helper_required w"] c Some same(4)
          by (elim disjE; cases "iw_use_helper w") (simp_all add: pinger_v4_def)
      next
        case 4
        then show thesis using socket[of "p_lastsentat p" "m_retval m" "iw_sent w"] c Some same(1-3)
          by (simp add: pinger_v4_def)
      qed
    qed
  qed
qed

lemma pinger_v4_frame_all:
  assumes "pinger_v4 (p, m, w) = (p', m', w')"
  shows "same_entry m m' \<and> iw_ping w' = iw_ping w \<and> iw_loss w' = iw_loss w \<and> iw_rtt w' = iw_rtt w \<and> iw_tv w' = iw_tv w \<and>
     iw_now w' = iw_now w \<and> iw_fd w' = iw_fd w \<and> iw_ident w' = iw_ident w \<and> p_nreceived p' = p_nreceived p \<and>
     p_to p' = p_to p \<and> p_ident p' = p_ident p \<and> (p_lastsentat p' = p_lastsentat p \<or> p_lastsentat p' = iw_tv w) \<and>
     p_packetsent p' = (if iw_fd w = - 1 \<and> \<not> iw_use_helper w then p_packetsent p else p_packetsent p + 1)"
proof (cases rule: pinger_v4_cases[of w p m])
  case (helper b)
  then have "via_helper (counted p, m, w\<lparr>iw_helper_required := b\<rparr>) = (p', m', w')" using assms by simp
  from via_helper_frame[OF this] helper(1) show ?thesis by simp
qed (use assms in \<open>auto simp: same_entry_def\<close>)

lemma pinger_v4_frame:
  assumes "pinger_v4 (p, m, w) = (p', m', w')"
  shows "same_entry m m'" "iw_ping w' = iw_ping w" "iw_loss w' = iw_loss w" "iw_rtt w' = iw_rtt w" "iw_tv w' = iw_tv w"
    "iw_now w' = iw_now w" "iw_fd w' = iw_fd w" "iw_ident w' = iw_ident w"
    "p_nreceived p' = p_nreceived p" "p_to p' = p_to p" "p_ident p' = p_ident p"
    "p_lastsentat p' = p_lastsentat p \<or> p_lastsentat p' = iw_tv w"
    "p_packetsent p' = (if iw_fd w = - 1 \<and> \<not> iw_use_helper w then p_packetsent p else p_packetsent p + 1)"
  using pinger_v4_frame_all[OF assms] by auto

lemma start_test_ping_keeps: "keeps_entry start_test_ping"
  by (rule keeps_entryI)
     (auto simp: start_test_ping_def Let_def split: if_splits option.splits prod.splits
           dest!: pinger_v4_frame(1) simp: same_entry_def)

lemma service_test_ping_keeps: "keeps_entry service_test_ping"
  by (rule keeps_entryI)
     (auto simp: service_test_ping_def Let_def split: if_splits option.splits prod.splits
           dest!: pinger_v4_frame(1) simp: same_entry_def)

lemma stop_test_ping_keeps: "keeps_entry stop_test_ping"
  by (rule keeps_entryI) (auto simp: stop_test_ping_def)

interpretation ping: check_protocol start_test_ping service_test_ping stop_test_ping
  by unfold_locales (fact start_test_ping_keeps service_test_ping_keeps stop_test_ping_keeps)+

lemma start_test_pktloss_keeps: "keeps_entry start_test_pktloss"
  by (rule keeps_entryI)
     (auto simp: start_test_pktloss_def Let_def split: if_splits option.splits prod.splits
           dest!: pinger_v4_frame(1) simp: same_entry_def)

lemma service_test_pktloss_keeps: "keeps_entry service_test_pktloss"
  by (rule keeps_entryI)
     (auto simp: service_test_pktloss_def Let_def object_changed_def split: if_splits option.splits prod.splits
           dest!: pinger_v4_frame(1) simp: same_entry_def)

lemma stop_test_pktloss_keeps: "keeps_entry stop_test_pktloss"
  by (rule keeps_entryI) (auto simp: stop_test_pktloss_def)

interpretation pktloss: check_protocol start_test_pktloss service_test_pktloss stop_test_pktloss
  by unfold_locales (fact start_test_pktloss_keeps service_test_pktloss_keeps stop_test_pktloss_keeps)+

lemma start_test_rtt_keeps: "keeps_entry start_test_rtt"
  by (rule keeps_entryI)
     (auto simp: start_test_rtt_def Let_def split: if_splits option.splits prod.splits
           dest!: pinger_v4_frame(1) simp: same_entry_def)

lemma rtt_finish_keeps:
  assumes "rtt_finish rv d (m, h, seq, w) = (m', h', seq', w')"
  shows "m' = m\<lparr>m_retval := rv, m_monitordata := False\<rparr>" "h_queued h' = h_queued h" "h_queuetime h' = h_queuetime h"
    "seq' = seq + 1" "w' = put_rtt (m_checkent m) None w"
  using assms by (auto simp: rtt_finish_def Let_def object_changed_def split: if_splits)

lemma service_test_rtt_keeps: "keeps_entry service_test_rtt"
  by (rule keeps_entryI)
     (auto simp: service_test_rtt_def Let_def split: if_splits option.splits prod.splits
           dest!: pinger_v4_frame(1) simp: same_entry_def dest: rtt_finish_keeps)

lemma stop_test_rtt_keeps: "keeps_entry stop_test_rtt"
  by (rule keeps_entryI) (auto simp: stop_test_rtt_def split: if_splits)

interpretation rtt: check_protocol start_test_rtt service_test_rtt stop_test_rtt
  by unfold_locales (fact start_test_rtt_keeps service_test_rtt_keeps stop_test_rtt_keeps)+

end
