(* ===== verification/Icmp_Correct.thy ===== *)
theory Icmp_Correct
  imports Icmp_Check
begin

text \<open>
  What the ICMP checks promise: the history of losses is a bounded log, the counters and figures of the checks in
  progress stay consistent in every run, replies are credited to the host that sent them, and every check ends.
\<close>

section \<open>The history of losses\<close>

definition loss_inv :: "pktloss_data \<Rightarrow> bool" where
  "loss_inv d \<longleftrightarrow> length (l_history d) = PKTLOSS_HISTORY_SIZE \<and> l_history_head d < PKTLOSS_HISTORY_SIZE \<and>
     l_history_count d \<le> PKTLOSS_HISTORY_SIZE"

definition loss_held :: "pktloss_data \<Rightarrow> pktloss_sample list" where
  "loss_held d = ring_view PKTLOSS_HISTORY_SIZE (l_history d) (l_history_head d) (l_history_count d)"

lemma add_sample_history:
  "l_history (pktloss_add_sample smp d) = (l_history d)[l_history_head d := loss_sample smp]"
  "l_history_head (pktloss_add_sample smp d) = Suc (l_history_head d) mod PKTLOSS_HISTORY_SIZE"
  "l_history_count (pktloss_add_sample smp d) =
     (if l_history_count d < PKTLOSS_HISTORY_SIZE then Suc (l_history_count d) else l_history_count d)"
  "l_ping (pktloss_add_sample smp d) = l_ping d"
  by (simp_all add: pktloss_add_sample_def Let_def)

interpretation loss_log: bounded_log PKTLOSS_HISTORY_SIZE loss_inv loss_held "\<lambda>smp _. loss_sample smp" pktloss_add_sample
proof unfold_locales
  fix smp d
  assume i: "loss_inv d"
  show "loss_inv (pktloss_add_sample smp d)" using i by (simp add: loss_inv_def add_sample_history)
  show "loss_held (pktloss_add_sample smp d) = take PKTLOSS_HISTORY_SIZE (loss_sample smp # loss_held d)"
    using ring_view_write[of "l_history d" PKTLOSS_HISTORY_SIZE "l_history_head d" "l_history_count d" "loss_sample smp"] i
    by (simp add: loss_held_def add_sample_history loss_inv_def)
  show "length (loss_held d) \<le> PKTLOSS_HISTORY_SIZE" using i by (simp add: loss_held_def ring_view_def loss_inv_def)
qed

section \<open>Counters and figures stay consistent\<close>

definition counters_ok :: "pingdata \<Rightarrow> bool" where
  "counters_ok p \<longleftrightarrow> 0 \<le> p_nreceived p \<and> p_nreceived p \<le> p_packetsent p"

text \<open>The figures of an rtt check: counts against the tables, and the bounds of mean and jitter.\<close>

definition rtt_ok :: "rtt_data \<Rightarrow> bool" where
  "rtt_ok d \<longleftrightarrow>
     length (q_sent_at d) = RTT_MAX_SAMPLES \<and> length (q_answered d) = RTT_MAX_SAMPLES \<and> 0 < q_probes d \<and> q_probes d \<le> RTT_MAX_SAMPLES \<and>
     count_list (q_answered d) True = q_rtt_count d \<and> (\<forall>i<RTT_MAX_SAMPLES. q_answered d ! i \<longrightarrow> i < q_probes d) \<and>
     0 \<le> q_jitter_current d \<and>
     (if q_rtt_count d = 0 then q_rtt_sum d = 0 \<and> q_jitter_current d = 0
      else q_rtt_avg d = q_rtt_sum d / of_nat (q_rtt_count d) \<and>
           of_nat (q_rtt_count d) * q_rtt_min d \<le> q_rtt_sum d \<and> q_rtt_sum d \<le> of_nat (q_rtt_count d) * q_rtt_max d \<and>
           q_rtt_min d \<le> q_rtt_previous d \<and> q_rtt_previous d \<le> q_rtt_max d \<and>
           q_jitter_current d \<le> q_rtt_max d - q_rtt_min d)"

lemma count_list_update:
  assumes "i < length xs" "xs ! i = False"
  shows "count_list (xs[i := True]) True = Suc (count_list xs True)"
  using assms
proof (induction xs arbitrary: i)
  case (Cons x xs)
  then show ?case by (cases i) auto
qed simp

lemma count_list_initial:
  "(\<forall>i<length xs. xs ! i \<longrightarrow> i < n) \<Longrightarrow> count_list xs True \<le> n"
proof (induction xs arbitrary: n)
  case (Cons x xs)
  show ?case
  proof (cases n)
    case 0
    with Cons.prems have "\<forall>i<length (x # xs). \<not> (x # xs) ! i" by auto
    then have "True \<notin> set (x # xs)" by (metis in_set_conv_nth)
    then show ?thesis by (simp add: count_list_0_iff)
  next
    case (Suc k)
    have "\<forall>i<length xs. xs ! i \<longrightarrow> i < k" using Cons.prems Suc by (metis Suc_less_eq length_Cons nth_Cons_Suc)
    from Cons.IH[OF this] show ?thesis using Suc by simp
  qed
qed simp

lemma rtt_ok_count: "rtt_ok d \<Longrightarrow> q_rtt_count d \<le> q_probes d"
  using count_list_initial[of "q_answered d" "q_probes d"] by (simp add: rtt_ok_def)

lemma fresh_rtt_ok: "rtt_ok (fresh_rtt tv p)"
proof -
  have "count_list (replicate n False) True = 0" for n by (induction n) simp_all
  then show ?thesis by (simp add: rtt_ok_def fresh_rtt_def)
qed

lemma jitter_step:
  fixes j :: rat
  assumes "0 \<le> j" "j \<le> b" "0 \<le> df" "df \<le> b"
  shows "0 \<le> j + (df - j) / 16" "j + (df - j) / 16 \<le> b"
  using assms by (simp_all add: field_simps)

lemma rtt_record_ok:
  assumes "rtt_ok d" "idx < q_probes d" "\<not> q_answered d ! idx"
  shows "rtt_ok (rtt_record idx tm d)"
proof -
  define x where "x = calculate_rtt_ms (q_sent_at d ! idx) tm"
  define lo where "lo = (if x < q_rtt_min d then x else q_rtt_min d)"
  define hi where "hi = (if x > q_rtt_max d then x else q_rtt_max d)"
  define j where "j = (if q_rtt_count d + 1 > 1 then q_jitter_current d + (\<bar>x - q_rtt_previous d\<bar> - q_jitter_current d) / 16 else q_jitter_current d)"
  let ?d = "rtt_record idx tm d"
  have d: "q_answered ?d = (q_answered d)[idx := True]" "q_rtt_count ?d = Suc (q_rtt_count d)" "q_rtt_sum ?d = q_rtt_sum d + x"
    "q_rtt_avg ?d = (q_rtt_sum d + x) / of_nat (Suc (q_rtt_count d))" "q_rtt_min ?d = lo" "q_rtt_max ?d = hi" "q_rtt_previous ?d = x"
    "q_jitter_current ?d = j" "q_sent_at ?d = q_sent_at d" "q_probes ?d = q_probes d"
    by (simp_all add: rtt_record_def update_jitter_def Let_def x_def lo_def hi_def j_def)
  have b: "lo \<le> x" "x \<le> hi" "lo \<le> q_rtt_min d" "q_rtt_max d \<le> hi" by (auto simp: lo_def hi_def)
  have ix: "idx < RTT_MAX_SAMPLES" using assms(1,2) by (simp add: rtt_ok_def)
  have tables: "count_list (q_answered ?d) True = q_rtt_count ?d"
    "\<forall>i<RTT_MAX_SAMPLES. q_answered ?d ! i \<longrightarrow> i < q_probes ?d"
    using assms ix by (auto simp: d rtt_ok_def count_list_update nth_list_update)
  have jit: "0 \<le> j \<and> j \<le> hi - lo"
  proof (cases "q_rtt_count d = 0")
    case True
    then show ?thesis using assms(1) b by (simp add: j_def rtt_ok_def)
  next
    case False
    then have o: "0 \<le> q_jitter_current d" "q_jitter_current d \<le> q_rtt_max d - q_rtt_min d"
      "q_rtt_min d \<le> q_rtt_previous d" "q_rtt_previous d \<le> q_rtt_max d" using assms(1) by (simp_all add: rtt_ok_def)
    have "\<bar>x - q_rtt_previous d\<bar> \<le> hi - lo" using b o(3,4) by linarith
    moreover have "q_jitter_current d \<le> hi - lo" using b o(2) by linarith
    ultimately show ?thesis using jitter_step[OF o(1)] False by (simp add: j_def)
  qed
  have sums: "of_nat (Suc (q_rtt_count d)) * lo \<le> q_rtt_sum d + x \<and> q_rtt_sum d + x \<le> of_nat (Suc (q_rtt_count d)) * hi"
  proof (cases "q_rtt_count d = 0")
    case True
    then show ?thesis using assms(1) b by (simp add: rtt_ok_def)
  next
    case False
    then have o: "of_nat (q_rtt_count d) * q_rtt_min d \<le> q_rtt_sum d" "q_rtt_sum d \<le> of_nat (q_rtt_count d) * q_rtt_max d"
      using assms(1) by (simp_all add: rtt_ok_def)
    have "of_nat (q_rtt_count d) * lo \<le> of_nat (q_rtt_count d) * q_rtt_min d"
      "of_nat (q_rtt_count d) * q_rtt_max d \<le> of_nat (q_rtt_count d) * hi" using b by (simp_all add: mult_left_mono)
    then show ?thesis using o b by (simp add: ring_distribs)
  qed
  show ?thesis
    unfolding rtt_ok_def d(2-8)[symmetric] using tables jit sums b assms(1)
    by (simp add: d(2-10)) (simp add: d(1) rtt_ok_def)
qed

definition icmp_ok :: "icmp_world \<Rightarrow> bool" where
  "icmp_ok w \<longleftrightarrow> (\<forall>k d. iw_loss w k = Some d \<longrightarrow> counters_ok (l_ping d) \<and> loss_inv d) \<and> (\<forall>k d. iw_rtt w k = Some d \<longrightarrow> rtt_ok d)"

lemma icmp_ok_put:
  assumes "icmp_ok w"
  shows "icmp_ok (put_ping k p w)"
    "(\<And>d. x = Some d \<Longrightarrow> counters_ok (l_ping d) \<and> loss_inv d) \<Longrightarrow> icmp_ok (put_loss k x w)"
    "(\<And>d. y = Some d \<Longrightarrow> rtt_ok d) \<Longrightarrow> icmp_ok (put_rtt k y w)"
  using assms by (auto simp: icmp_ok_def icmp_put)

lemma icmp_ok_cong: "iw_loss w' = iw_loss w \<Longrightarrow> iw_rtt w' = iw_rtt w \<Longrightarrow> icmp_ok w' = icmp_ok w"
  by (simp add: icmp_ok_def)

lemma pinger_ok:
  assumes "pinger_v4 (p, m, w) = (p', m', w')"
  shows "icmp_ok w' = icmp_ok w" "counters_ok p \<Longrightarrow> counters_ok p'"
  using pinger_v4_frame[OF assms] by (auto simp: icmp_ok_def counters_ok_def)

lemma fresh_loss_ok: "counters_ok p \<Longrightarrow> counters_ok (l_ping (fresh_loss p)) \<and> loss_inv (fresh_loss p)"
  by (simp add: fresh_loss_def loss_inv_def)

lemma start_ping_ok:
  assumes "icmp_ok w" "start_test_ping now (m, h, seq, w) = (m', h', seq', w')"
  shows "icmp_ok w'"
proof (cases "iw_fd w = - 1 \<or> iw_resolve w (h_hostname h) = None")
  case True
  then show ?thesis using assms by (auto simp: start_test_ping_def Let_def split: if_splits option.splits)
next
  case False
  then obtain hp where hp: "iw_resolve w (h_hostname h) = Some hp" by auto
  let ?id = "generate_ident (iw_ident w)"
  obtain p1 m1 w1 where p: "pinger_v4 (fresh_ping hp ?id, m\<lparr>m_filedes := - 1, m_lastserv := iw_tv w\<rparr>\<lparr>m_monitordata := True\<rparr>, w\<lparr>iw_ident := ?id\<rparr>) = (p1, m1, w1)"
    by (metis prod_cases3)
  have w': "w' = put_ping (m_checkent m) (Some (p1\<lparr>p_lastsentat := iw_tv w1\<rparr>)) w1"
    using assms(2) False hp p by (simp add: start_test_ping_def Let_def)
  have "icmp_ok w1" using pinger_ok(1)[OF p] assms(1) by (simp add: icmp_ok_def)
  then show ?thesis unfolding w' by (rule icmp_ok_put(1))
qed

lemma service_ping_ok:
  assumes "icmp_ok w" "service_test_ping now (m, h, seq, w) = (m', h', seq', w')"
  shows "icmp_ok w'"
proof (cases "if m_monitordata m then iw_ping w (m_checkent m) else None")
  case None
  then show ?thesis using assms by (simp add: service_test_ping_def)
next
  case (Some p)
  obtain p1 m1 w1 where p1: "pinger_v4 (p, m\<lparr>m_lastserv := iw_now w\<rparr>, w) = (p1, m1, w1)" by (metis prod_cases3)
  have "w' = w \<or> (\<exists>x. w' = put_ping (m_checkent m) x w \<or> w' = put_ping (m_checkent m) x w1)"
    using assms(2) Some p1 by (auto simp: service_test_ping_def Let_def split: if_splits)
  moreover have "icmp_ok w1" using pinger_ok(1)[OF p1] assms(1) by simp
  ultimately show ?thesis using assms(1) icmp_ok_put(1) by auto
qed

lemma start_pktloss_ok:
  assumes "icmp_ok w" "start_test_pktloss now (m, h, seq, w) = (m', h', seq', w')"
  shows "icmp_ok w'"
proof (cases "iw_fd w = - 1 \<or> iw_resolve w (h_hostname h) = None")
  case True
  then show ?thesis using assms by (auto simp: start_test_pktloss_def Let_def split: if_splits option.splits)
next
  case False
  then obtain hp where hp: "iw_resolve w (h_hostname h) = Some hp" by auto
  let ?id = "generate_ident (iw_ident w)"
  obtain p1 m1 w1 where p: "pinger_v4 (fresh_ping hp ?id, m\<lparr>m_filedes := - 1, m_lastserv := iw_tv w\<rparr>\<lparr>m_monitordata := True\<rparr>, w\<lparr>iw_ident := ?id\<rparr>) = (p1, m1, w1)"
    by (metis prod_cases3)
  have w': "w' = put_loss (m_checkent m) (Some (fresh_loss (p1\<lparr>p_lastsentat := iw_tv w1\<rparr>))) w1"
    using assms(2) False hp p by (simp add: start_test_pktloss_def Let_def)
  have "icmp_ok w1" using pinger_ok(1)[OF p] assms(1) by (simp add: icmp_ok_def)
  moreover have "counters_ok (p1\<lparr>p_lastsentat := iw_tv w1\<rparr>)"
    using pinger_ok(2)[OF p] by (simp add: counters_ok_def fresh_ping_def)
  ultimately show ?thesis unfolding w' by (intro icmp_ok_put(2)) (auto simp: fresh_loss_ok)
qed

lemma service_pktloss_ok:
  assumes "icmp_ok w" "service_test_pktloss now (m, h, seq, w) = (m', h', seq', w')"
  shows "icmp_ok w'"
proof (cases "if m_monitordata m then iw_loss w (m_checkent m) else None")
  case None
  then show ?thesis using assms by (simp add: service_test_pktloss_def)
next
  case (Some d)
  then have d: "counters_ok (l_ping d)" "loss_inv d" using assms(1) by (auto simp: icmp_ok_def split: if_splits)
  obtain p1 m1 w1 where p: "pinger_v4 (l_ping d, m\<lparr>m_lastserv := iw_now w\<rparr>, w) = (p1, m1, w1)" by (metis prod_cases3)
  have drop: "put_loss k None (put_loss k x w) = put_loss k None w" for k x by (simp add: put_loss_def)
  have "w' = w \<or> w' = put_loss (m_checkent m) None w \<or> w' = put_loss (m_checkent m) (Some (d\<lparr>l_ping := p1\<rparr>)) w1"
    using assms(2) Some p by (auto simp: service_test_pktloss_def Let_def object_changed_def drop split: if_splits)
  moreover have "icmp_ok (put_loss (m_checkent m) (Some (d\<lparr>l_ping := p1\<rparr>)) w1)"
    using pinger_ok[OF p] d assms(1) by (intro icmp_ok_put(2)) (auto simp: loss_inv_def)
  ultimately show ?thesis using assms(1) icmp_ok_put(2)[OF assms(1), of None] by auto
qed

lemma start_rtt_ok:
  assumes "icmp_ok w" "start_test_rtt now (m, h, seq, w) = (m', h', seq', w')"
  shows "icmp_ok w'"
proof (cases "iw_fd w = - 1 \<or> iw_resolve w (h_hostname h) = None")
  case True
  then show ?thesis using assms by (auto simp: start_test_rtt_def Let_def split: if_splits option.splits)
next
  case False
  then obtain hp where hp: "iw_resolve w (h_hostname h) = Some hp" by auto
  let ?id = "generate_ident (iw_ident w)"
  obtain p1 m1 w1 where p: "pinger_v4 (fresh_ping hp ?id, m\<lparr>m_filedes := - 1, m_lastserv := iw_tv w\<rparr>, w\<lparr>iw_ident := ?id\<rparr>) = (p1, m1, w1)"
    by (metis prod_cases3)
  have w': "w' = put_rtt (m_checkent m) (Some (fresh_rtt (iw_tv w) (p1\<lparr>p_lastsentat := iw_tv w1\<rparr>))) w1"
    using assms(2) False hp p by (simp add: start_test_rtt_def Let_def)
  have "icmp_ok w1" using pinger_ok(1)[OF p] assms(1) by (simp add: icmp_ok_def)
  then show ?thesis unfolding w' by (intro icmp_ok_put(3)) (auto simp: fresh_rtt_ok)
qed

lemma rtt_want_le: "0 < rtt_want h \<and> rtt_want h \<le> RTT_MAX_SAMPLES"
  by (simp add: rtt_want_def Let_def)

lemma next_probe_ok:
  assumes "rtt_ok d" "q_probes d < RTT_MAX_SAMPLES"
  shows "rtt_ok (d\<lparr>q_sent_at := (q_sent_at d)[q_probes d := tv], q_last_send_time := tv, q_probes := q_probes d + 1, q_ping := p\<rparr>)"
  using assms by (auto simp: rtt_ok_def)

lemma service_rtt_ok:
  assumes "icmp_ok w" "service_test_rtt now (m, h, seq, w) = (m', h', seq', w')"
  shows "icmp_ok w'"
proof (cases "if m_monitordata m then iw_rtt w (m_checkent m) else None")
  case None
  then show ?thesis using assms by (simp add: service_test_rtt_def)
next
  case (Some d)
  then have d: "rtt_ok d" using assms(1) by (auto simp: icmp_ok_def split: if_splits)
  obtain p1 m1 w1 where p: "pinger_v4 (q_ping d, m, w) = (p1, m1, w1)" by (metis prod_cases3)
  let ?d1 = "d\<lparr>q_sent_at := (q_sent_at d)[q_probes d := iw_tv w], q_last_send_time := iw_tv w, q_probes := q_probes d + 1,
               q_ping := p1\<lparr>p_lastsentat := iw_tv w1\<rparr>\<rparr>"
  have "w' = w \<or> w' = put_rtt (m_checkent m) None w \<or> q_probes d < rtt_want h \<and> w' = put_rtt (m_checkent m) (Some ?d1) w1"
    using assms(2) Some p by (auto simp: service_test_rtt_def Let_def dest: rtt_finish_keeps(5) split: if_splits)
  moreover have "q_probes d < rtt_want h \<Longrightarrow> icmp_ok (put_rtt (m_checkent m) (Some ?d1) w1)"
    using pinger_ok(1)[OF p] next_probe_ok[OF d, where tv = "iw_tv w" and p = "p1\<lparr>p_lastsentat := iw_tv w1\<rparr>"] assms(1) rtt_want_le[of h]
    by (intro icmp_ok_put(3)) auto
  ultimately show ?thesis using assms(1) icmp_ok_put(3)[OF assms(1), of None] by auto
qed

lemma stops_ok:
  assumes "icmp_ok w"
  shows "stop_test_ping now (m, h, seq, w) = (m', h', seq', w') \<Longrightarrow> icmp_ok w'"
    "stop_test_pktloss now (m, h, seq, w) = (m', h', seq', w') \<Longrightarrow> icmp_ok w'"
    "stop_test_rtt now (m, h, seq, w) = (m', h', seq', w') \<Longrightarrow> icmp_ok w'"
  using assms icmp_ok_put(1)[OF assms] icmp_ok_put(2)[OF assms, of None] icmp_ok_put(3)[OF assms, of None]
  by (auto simp: stop_test_ping_def stop_test_pktloss_def stop_test_rtt_def split: if_splits)

section \<open>Runs of the three checks and the reader\<close>

definition icmp_ops :: "icmp_op set" where
  "icmp_ops = {start_test_ping, service_test_ping, stop_test_ping, start_test_pktloss, service_test_pktloss, stop_test_pktloss,
               start_test_rtt, service_test_rtt, stop_test_rtt}"

text \<open>Anything but the data of the checks may change between two steps.\<close>

inductive icmp_run :: "icmp_world \<Rightarrow> icmp_world \<Rightarrow> bool" for w0 where
  run_init: "icmp_run w0 w0"
| run_check: "icmp_run w0 w \<Longrightarrow> f \<in> icmp_ops \<Longrightarrow> f now (m, h, seq, w) = (m', h', seq', w') \<Longrightarrow> icmp_run w0 w'"
| run_replies: "icmp_run w0 w \<Longrightarrow> handle_icmp_responses types buf ds q w = Got w' \<Longrightarrow> icmp_run w0 w'"
| run_outside: "icmp_run w0 w \<Longrightarrow> iw_ping w' = iw_ping w \<Longrightarrow> iw_loss w' = iw_loss w \<Longrightarrow> iw_rtt w' = iw_rtt w \<Longrightarrow> icmp_run w0 w'"

lemma ops_ok:
  assumes "icmp_ok w" "f \<in> icmp_ops" "f now (m, h, seq, w) = (m', h', seq', w')"
  shows "icmp_ok w'"
  using assms(2,3) unfolding icmp_ops_def
  by (auto intro: start_ping_ok[OF assms(1)] service_ping_ok[OF assms(1)] start_pktloss_ok[OF assms(1)]
    service_pktloss_ok[OF assms(1)] start_rtt_ok[OF assms(1)] service_rtt_ok[OF assms(1)] stops_ok[OF assms(1)])

lemma rtt_match_ok:
  assumes "icmp_ok w" "rtt_match_and_record m r w = (hit, w')"
  shows "icmp_ok w'"
proof -
  have "w' = w \<or> (\<exists>d. iw_rtt w (m_checkent m) = Some d \<and> r_seq r \<noteq> 0 \<and> unat (r_seq r) \<le> q_probes d \<and>
      \<not> q_answered d ! (unat (r_seq r) - 1) \<and> w' = put_rtt (m_checkent m) (Some (rtt_record (unat (r_seq r) - 1) (r_time r) d)) w)"
    using assms(2) by (auto simp: rtt_match_and_record_def Let_def split: if_splits option.splits)
  then show ?thesis
  proof (elim disjE exE conjE)
    fix d
    assume d: "iw_rtt w (m_checkent m) = Some d" "r_seq r \<noteq> 0" "unat (r_seq r) \<le> q_probes d" "\<not> q_answered d ! (unat (r_seq r) - 1)"
      and w': "w' = put_rtt (m_checkent m) (Some (rtt_record (unat (r_seq r) - 1) (r_time r) d)) w"
    have "0 < unat (r_seq r)" using d(2) by (simp add: unat_gt_0)
    then have "unat (r_seq r) - 1 < q_probes d" using d(3) by linarith
    moreover have "rtt_ok d" using d(1) assms(1) by (auto simp: icmp_ok_def)
    ultimately have "rtt_ok (rtt_record (unat (r_seq r) - 1) (r_time r) d)" using d(4) by (intro rtt_record_ok)
    then show ?thesis unfolding w' using assms(1) by (intro icmp_ok_put(3)) simp_all
  qed (use assms(1) in simp)
qed

lemma give_reply_ok: "icmp_ok w \<Longrightarrow> icmp_ok (give_reply types r q w)"
proof (induction q)
  case (Cons m ms)
  obtain hit w1 where r: "rtt_match_and_record m r w = (hit, w1)" by fastforce
  have w1: "icmp_ok w1" "\<not> hit \<Longrightarrow> w1 = w"
    using rtt_match_ok[OF Cons.prems r] r by (auto simp: rtt_match_and_record_def Let_def split: if_splits option.splits)
  have "icmp_ok (put_loss (m_checkent m) (Some (d\<lparr>l_ping := (l_ping d)\<lparr>p_nreceived := p_nreceived (l_ping d) + 1\<rparr>\<rparr>)) w)"
    if "iw_loss w (m_checkent m) = Some d" "p_nreceived (l_ping d) < p_packetsent (l_ping d)" for d
    using that Cons.prems by (intro icmp_ok_put(2)) (auto simp: icmp_ok_def counters_ok_def loss_inv_def)
  then show ?case
    using Cons w1 icmp_ok_put(1)[OF Cons.prems] by (simp add: Let_def r split: if_splits option.splits)
qed simp

lemma response_loop_ok: "icmp_ok w \<Longrightarrow> response_loop types buf ds q w = Got w' \<Longrightarrow> icmp_ok w'"
proof (induction types buf ds q w rule: response_loop.induct)
  case (2 types buf d src tm ds q w)
  then show ?case by (auto split: outcome.splits intro: give_reply_ok)
qed simp

lemma icmp_run_ok:
  assumes "icmp_run w0 w" "icmp_ok w0"
  shows "icmp_ok w"
  using assms
proof (induction rule: icmp_run.induct)
  case (run_replies w types buf ds q w')
  then show ?case using response_loop_ok by (auto simp: handle_icmp_responses_def split: if_splits)
next
  case (run_outside w w')
  then show ?case using icmp_ok_cong by blast
qed (auto intro: ops_ok)

section \<open>Replies are credited to the host that sent them\<close>

text \<open>\<open>probes k a w\<close>: whatever entry \<open>k\<close> has in flight is addressed to \<open>a\<close>.\<close>

definition probes :: "nat \<Rightarrow> byte list \<Rightarrow> icmp_world \<Rightarrow> bool" where
  "probes k a w \<longleftrightarrow> (\<forall>p. iw_ping w k = Some p \<longrightarrow> p_to p = a) \<and> (\<forall>d. iw_loss w k = Some d \<longrightarrow> p_to (l_ping d) = a) \<and>
     (\<forall>d. iw_rtt w k = Some d \<longrightarrow> p_to (q_ping d) = a)"

definition same_data :: "nat \<Rightarrow> icmp_world \<Rightarrow> icmp_world \<Rightarrow> bool" where
  "same_data k w w' \<longleftrightarrow> iw_ping w' k = iw_ping w k \<and> iw_loss w' k = iw_loss w k \<and> iw_rtt w' k = iw_rtt w k"

lemma same_data_probes: "same_data k w w' \<Longrightarrow> probes k a w' = probes k a w"
  by (simp add: same_data_def probes_def)

lemma rtt_match_same:
  assumes "rtt_match_and_record m r w = (hit, w')" "probes k a w" "r_from r \<noteq> a"
  shows "same_data k w w'" "\<not> hit \<Longrightarrow> w' = w"
  using assms by (auto simp: rtt_match_and_record_def Let_def same_data_def put_rtt_def probes_def split: if_splits option.splits)

lemma give_reply_same: "probes k a w \<Longrightarrow> r_from r \<noteq> a \<Longrightarrow> same_data k w (give_reply types r q w)"
proof (induction q)
  case (Cons m ms)
  obtain hit w1 where r: "rtt_match_and_record m r w = (hit, w1)" by fastforce
  note same = rtt_match_same[OF r Cons.prems]
  have "same_data k w (put_loss (m_checkent m) x w)" if "iw_loss w (m_checkent m) = Some d" "matches r (l_ping d)" for x d
    using that Cons.prems by (auto simp: same_data_def put_loss_def matches_def probes_def)
  moreover have "same_data k w (put_ping (m_checkent m) x w)" if "iw_ping w (m_checkent m) = Some p" "matches r p" for x p
    using that Cons.prems by (auto simp: same_data_def put_ping_def matches_def probes_def)
  ultimately show ?case using Cons same
    by (auto simp: Let_def r same_data_def split: if_splits option.splits)
qed (simp add: same_data_def)

lemma response_loop_same:
  "probes k a w \<Longrightarrow> list_all (\<lambda>(d, src, tm). src \<noteq> a) ds \<Longrightarrow> response_loop types buf ds q w = Got w' \<Longrightarrow> same_data k w w'"
proof (induction types buf ds q w rule: response_loop.induct)
  case (2 types buf d src tm ds q w)
  show ?case
  proof (cases "read_reply (received buf d) src tm")
    case (Got r)
    then have "r_from r = src"
      by (auto simp: read_reply_def at_def Let_def split: if_splits)
    then have g: "same_data k w (give_reply types r q w)" using give_reply_same[OF "2.prems"(1)] "2.prems"(2) by simp
    have "same_data k (give_reply types r q w) w'"
      using "2.IH"(2)[OF Got] "2.prems" Got same_data_probes[OF g] by simp
    with g show ?thesis by (simp add: same_data_def)
  qed (use 2 in auto)
qed (simp add: same_data_def)

section \<open>Every check ends\<close>

text \<open>The calls on one entry, with whatever the world does before each of them, until there is a result.\<close>

fun serviced :: "icmp_op \<Rightarrow> int \<Rightarrow> (icmp_world \<Rightarrow> icmp_world) list \<Rightarrow> monitorent \<times> hostinfo \<times> u64 \<times> icmp_world \<Rightarrow> monitorent \<times> hostinfo \<times> u64 \<times> icmp_world" where
  "serviced f now [] st = st"
| "serviced f now (e # es) (m, h, seq, w) =
     (if m_retval m \<noteq> - 1 then (m, h, seq, w) else serviced f now es (f now (m, h, seq, e w)))"

lemma serviced_done: "m_retval m \<noteq> - 1 \<Longrightarrow> serviced f now es (m, h, seq, w) = (m, h, seq, w)"
  by (cases es) simp_all

text \<open>
  What the three service functions have in common: \<open>sent\<close> probes of \<open>goal\<close> are out; a call made late enough for the
  entry (\<open>patient\<close>) sends the next probe or ends the check.
\<close>

locale probing =
  fixes service :: icmp_op
    and sent :: "nat \<Rightarrow> icmp_world \<Rightarrow> nat option"
    and goal :: "hostinfo \<Rightarrow> nat"
    and patient :: "nat \<Rightarrow> icmp_world \<Rightarrow> bool"
  assumes progress: "m_monitordata m \<Longrightarrow> m_retval m = - 1 \<Longrightarrow> sent (m_checkent m) w = Some n \<Longrightarrow> patient (m_checkent m) w \<Longrightarrow>
      service now (m, h, seq, w) = (m', h', seq', w') \<Longrightarrow>
      m_retval m' \<noteq> - 1 \<or> n < goal h \<and> sent (m_checkent m) w' = Some (Suc n) \<and> h' = h \<and> m_monitordata m' \<and> m_checkent m' = m_checkent m"
begin

lemma serviced_ends:
  assumes "m_monitordata m" "sent (m_checkent m) w = Some n"
    "\<forall>e\<in>set es. \<forall>w. patient (m_checkent m) (e w) \<and> sent (m_checkent m) (e w) = sent (m_checkent m) w" "goal h < n + length es" "es \<noteq> []"
  shows "m_retval (fst (serviced service now es (m, h, seq, w))) \<noteq> - 1"
  using assms
proof (induction es arbitrary: m h seq w n)
  case (Cons e es)
  show ?case
  proof (cases "m_retval m = - 1")
    case True
    obtain m1 h1 seq1 w1 where s: "service now (m, h, seq, e w) = (m1, h1, seq1, w1)" by (metis prod_cases4)
    have e: "patient (m_checkent m) (e w)" "sent (m_checkent m) (e w) = Some n" using Cons.prems(2,3) by auto
    from progress[OF Cons.prems(1) True e(2,1) s] show ?thesis
    proof
      assume "m_retval m1 \<noteq> - 1"
      then show ?thesis using True s by (simp add: serviced_done)
    next
      assume p: "n < goal h \<and> sent (m_checkent m) w1 = Some (Suc n) \<and> h1 = h \<and> m_monitordata m1 \<and> m_checkent m1 = m_checkent m"
      then have "es \<noteq> []" using Cons.prems(4) by auto
      then have "m_retval (fst (serviced service now es (m1, h1, seq1, w1))) \<noteq> - 1"
        using p Cons.prems(3,4) by (intro Cons.IH) auto
      then show ?thesis using True s p by auto
    qed
  qed simp
qed simp

end

definition in_flight :: "pingdata \<Rightarrow> nat option" where
  "in_flight p = (if 0 \<le> p_packetsent p \<and> p_packetsent p < 2 ^ 32 then Some (nat (p_packetsent p)) else None)"

definition long_ago :: "pingdata \<Rightarrow> icmp_world \<Rightarrow> bool" where
  "long_ago p w \<longleftrightarrow> iw_fd w \<noteq> - 1 \<and> mydifftime (p_lastsentat p) (iw_now w) \<ge> 2000000"

lemma sent_compare:
  assumes "in_flight p = Some n"
  shows "word_of_int (p_packetsent p) \<ge> (x :: u32) \<longleftrightarrow> n \<ge> unat x"
    "word_of_int (p_packetsent p) < (x :: u32) \<longleftrightarrow> n < unat x"
proof -
  have n: "p_packetsent p = int n" "n < 2 ^ 32" using assms by (auto simp: in_flight_def split: if_splits)
  then have "unat (word_of_int (p_packetsent p) :: u32) = n" by (simp add: unat_of_nat)
  then show "word_of_int (p_packetsent p) \<ge> x \<longleftrightarrow> n \<ge> unat x" "word_of_int (p_packetsent p) < x \<longleftrightarrow> n < unat x"
    by (simp_all add: word_le_nat_alt word_less_nat_alt)
qed

lemma pinger_in_flight:
  assumes "pinger_v4 (p, m, w) = (p', m', w')" "in_flight p = Some n" "n < unat (x :: u32)" "iw_fd w \<noteq> - 1"
  shows "in_flight p' = Some (Suc n)"
proof -
  have "unat x < 2 ^ 32" using unsigned_less[of x] by simp
  then show ?thesis using pinger_v4_frame(13)[OF assms(1)] assms(2-4) by (auto simp: in_flight_def nat_add_distrib split: if_splits)
qed

definition ping_sent :: "nat \<Rightarrow> icmp_world \<Rightarrow> nat option" where
  "ping_sent k w = Option.bind (iw_ping w k) in_flight"

definition ping_patient :: "nat \<Rightarrow> icmp_world \<Rightarrow> bool" where
  "ping_patient k w \<longleftrightarrow> (\<forall>p. iw_ping w k = Some p \<longrightarrow> long_ago p w)"

interpretation ping_turns: probing service_test_ping ping_sent "\<lambda>h. unat (h_send_pings h)" ping_patient
proof
  fix m :: monitorent and w n now h seq m' h' seq' w'
  assume a: "m_monitordata m" "m_retval m = - 1" "ping_sent (m_checkent m) w = Some n" "ping_patient (m_checkent m) w"
    and s: "service_test_ping now (m, h, seq, w) = (m', h', seq', w')"
  from a(3) obtain p where p: "iw_ping w (m_checkent m) = Some p" "in_flight p = Some n"
    by (auto simp: ping_sent_def bind_eq_Some_conv)
  have late: "iw_fd w \<noteq> - 1" "mydifftime (p_lastsentat p) (iw_now w) \<ge> 2000000" using a(4) p(1) by (auto simp: ping_patient_def long_ago_def)
  obtain p1 m1 w1 where p1: "pinger_v4 (p, m\<lparr>m_lastserv := iw_now w\<rparr>, w) = (p1, m1, w1)" by (metis prod_cases3)
  note fr = pinger_v4_frame[OF p1] same_entryD[OF pinger_v4_frame(1)[OF p1]]
  show "m_retval m' \<noteq> - 1 \<or> n < unat (h_send_pings h) \<and> ping_sent (m_checkent m) w' = Some (Suc n) \<and> h' = h \<and> m_monitordata m' \<and>
    m_checkent m' = m_checkent m"
  proof (cases "n < unat (h_send_pings h)")
    case False
    then show ?thesis using s a(1) p late by (auto simp: service_test_ping_def sent_compare[OF p(2)])
  next
    case True
    show ?thesis
    proof (cases "word_of_int (p_nreceived p) < h_min_pings h")
      case True
      then have "(m', h', seq', w') = (m1, h, seq, put_ping (m_checkent m) (Some p1) w1)"
        using s a(1) p late \<open>n < unat (h_send_pings h)\<close> fr(9) by (simp add: service_test_ping_def sent_compare[OF p(2)] p1 not_le[symmetric])
      then show ?thesis using fr a(1) \<open>n < unat (h_send_pings h)\<close> pinger_in_flight[OF p1 p(2) _ late(1)]
        by (simp add: ping_sent_def put_ping_def)
    next
      case False
      then have "h_min_pings h \<le> word_of_int (p_nreceived p)" by (simp add: not_less)
      then show ?thesis using False s a(1) p late \<open>n < unat (h_send_pings h)\<close>
        by (auto simp: service_test_ping_def sent_compare[OF p(2)])
    qed
  qed
qed

definition loss_sent :: "nat \<Rightarrow> icmp_world \<Rightarrow> nat option" where
  "loss_sent k w = Option.bind (iw_loss w k) (\<lambda>d. in_flight (l_ping d))"

definition loss_patient :: "nat \<Rightarrow> icmp_world \<Rightarrow> bool" where
  "loss_patient k w \<longleftrightarrow> (\<forall>d. iw_loss w k = Some d \<longrightarrow> long_ago (l_ping d) w)"

lemma pktloss_verdict_result: "pktloss_verdict t s l \<noteq> - 1"
  by (simp add: pktloss_verdict_def)

interpretation loss_turns: probing service_test_pktloss loss_sent "\<lambda>h. unat (h_send_pings h)" loss_patient
proof
  fix m :: monitorent and w n now h seq m' h' seq' w'
  assume a: "m_monitordata m" "m_retval m = - 1" "loss_sent (m_checkent m) w = Some n" "loss_patient (m_checkent m) w"
    and s: "service_test_pktloss now (m, h, seq, w) = (m', h', seq', w')"
  from a(3) obtain d where d: "iw_loss w (m_checkent m) = Some d" "in_flight (l_ping d) = Some n"
    by (auto simp: loss_sent_def bind_eq_Some_conv)
  have late: "iw_fd w \<noteq> - 1" "mydifftime (p_lastsentat (l_ping d)) (iw_now w) \<ge> 2000000"
    using a(4) d(1) by (auto simp: loss_patient_def long_ago_def)
  obtain p1 m1 w1 where p1: "pinger_v4 (l_ping d, m\<lparr>m_lastserv := iw_now w\<rparr>, w) = (p1, m1, w1)" by (metis prod_cases3)
  note fr = pinger_v4_frame[OF p1] same_entryD[OF pinger_v4_frame(1)[OF p1]]
  show "m_retval m' \<noteq> - 1 \<or> n < unat (h_send_pings h) \<and> loss_sent (m_checkent m) w' = Some (Suc n) \<and> h' = h \<and> m_monitordata m' \<and>
    m_checkent m' = m_checkent m"
  proof (cases "n < unat (h_send_pings h)")
    case False
    then show ?thesis using s a(1) d late
      by (auto simp: service_test_pktloss_def Let_def sent_compare[OF d(2)] pktloss_verdict_result split: prod.splits)
  next
    case True
    then have "(m', h', seq', w') = (m1, h, seq, put_loss (m_checkent m) (Some (d\<lparr>l_ping := p1\<rparr>)) w1)"
      using s a(1) d late by (simp add: service_test_pktloss_def Let_def sent_compare[OF d(2)] p1)
    then show ?thesis using fr a(1) True pinger_in_flight[OF p1 d(2) True late(1)] by (simp add: loss_sent_def put_loss_def)
  qed
qed

definition rtt_sent :: "nat \<Rightarrow> icmp_world \<Rightarrow> nat option" where
  "rtt_sent k w = map_option q_probes (iw_rtt w k)"

definition rtt_patient :: "nat \<Rightarrow> icmp_world \<Rightarrow> bool" where
  "rtt_patient k w \<longleftrightarrow> (\<forall>d. iw_rtt w k = Some d \<longrightarrow> calculate_rtt_ms (q_last_send_time d) (iw_now w) \<ge> 5000)"

lemma rtt_interval_le: "rtt_interval_ms h \<le> 5000"
proof (cases "h_rtt_interval h > 5000")
  case False
  then have "unat (h_rtt_interval h) \<le> 5000" by (simp add: word_less_nat_alt)
  then have "(of_nat (unat (h_rtt_interval h)) :: rat) \<le> of_nat 5000" by (simp only: of_nat_le_iff)
  then show ?thesis by (simp add: rtt_interval_ms_def)
qed (simp add: rtt_interval_ms_def)

lemma rtt_verdict_result: "rtt_verdict h d \<noteq> - 1"
  by (simp add: rtt_verdict_def)

interpretation rtt_turns: probing service_test_rtt rtt_sent rtt_want rtt_patient
proof
  fix m :: monitorent and w n now h seq m' h' seq' w'
  assume a: "m_monitordata m" "m_retval m = - 1" "rtt_sent (m_checkent m) w = Some n" "rtt_patient (m_checkent m) w"
    and s: "service_test_rtt now (m, h, seq, w) = (m', h', seq', w')"
  from a(3) obtain d where d: "iw_rtt w (m_checkent m) = Some d" "q_probes d = n" by (auto simp: rtt_sent_def)
  have late: "calculate_rtt_ms (q_last_send_time d) (iw_now w) \<ge> 5000" using a(4) d(1) by (auto simp: rtt_patient_def)
  obtain p1 m1 w1 where p1: "pinger_v4 (q_ping d, m, w) = (p1, m1, w1)" by (metis prod_cases3)
  note fr = pinger_v4_frame[OF p1] same_entryD[OF pinger_v4_frame(1)[OF p1]]
  show "m_retval m' \<noteq> - 1 \<or> n < rtt_want h \<and> rtt_sent (m_checkent m) w' = Some (Suc n) \<and> h' = h \<and> m_monitordata m' \<and>
    m_checkent m' = m_checkent m"
  proof (cases "n < rtt_want h")
    case False
    then have "rtt_finish (rtt_verdict h d) d (m, h, seq, w) = (m', h', seq', w')"
      using s a(1) d late by (simp add: service_test_rtt_def Let_def)
    from rtt_finish_keeps(1)[OF this] rtt_verdict_result show ?thesis by simp
  next
    case True
    have "rtt_interval_ms h \<le> calculate_rtt_ms (q_last_send_time d) (iw_now w)" using late rtt_interval_le[of h] by linarith
    then show ?thesis using s a(1) d True fr by (auto simp: service_test_rtt_def Let_def p1 rtt_sent_def put_rtt_def)
  qed
qed

section \<open>Properties\<close>


text \<open>
  C17. A host that answers nothing is credited with nothing: while the socket is read, the data of a check change only if a
  datagram comes from the very address that check is probing, whatever identities and sequence numbers others use.
\<close>

theorem silent_host_not_credited:
  assumes "handle_icmp_responses types buf ds q w = Got w'" "list_all (\<lambda>(d, src, tm). src \<noteq> a) ds"
    "\<And>p. iw_ping w k = Some p \<Longrightarrow> p_to p = a" "\<And>d. iw_loss w k = Some d \<Longrightarrow> p_to (l_ping d) = a"
    "\<And>d. iw_rtt w k = Some d \<Longrightarrow> p_to (q_ping d) = a"
  shows "iw_ping w' k = iw_ping w k \<and> iw_loss w' k = iw_loss w k \<and> iw_rtt w' k = iw_rtt w k"
proof -
  have "probes k a w" using assms(3-5) by (simp add: probes_def)
  then have "same_data k w w'" using assms(1,2) response_loop_same
    by (auto simp: handle_icmp_responses_def same_data_def split: if_splits)
  then show ?thesis by (simp add: same_data_def)
qed

text \<open>
  C18. A ping check ends: serviced \<open>send_pings + 1\<close> times, each time two seconds or more after its last probe, it has a
  result, whatever replies arrive and whichever sends fail in between.
\<close>

theorem ping_check_ends:
  assumes "m_monitordata m" "iw_ping w (m_checkent m) = Some p" "0 \<le> p_packetsent p" "p_packetsent p < 2 ^ 32"
    "\<forall>e\<in>set es. \<forall>w. ping_patient (m_checkent m) (e w) \<and> ping_sent (m_checkent m) (e w) = ping_sent (m_checkent m) w"
    "unat (h_send_pings h) < length es"
  shows "m_retval (fst (serviced service_test_ping now es (m, h, seq, w))) \<noteq> - 1"
proof (rule ping_turns.serviced_ends[OF assms(1) _ assms(5)])
  show "ping_sent (m_checkent m) w = Some (nat (p_packetsent p))" using assms(2-4) by (simp add: ping_sent_def in_flight_def)
qed (use assms(6) in auto)

text \<open>The same for an rtt check, with five seconds between the calls; lost packets cost samples, never the check.\<close>

theorem rtt_check_ends:
  assumes "m_monitordata m" "iw_rtt w (m_checkent m) = Some d"
    "\<forall>e\<in>set es. \<forall>w. rtt_patient (m_checkent m) (e w) \<and> rtt_sent (m_checkent m) (e w) = rtt_sent (m_checkent m) w"
    "64 < length es"
  shows "m_retval (fst (serviced service_test_rtt now es (m, h, seq, w))) \<noteq> - 1"
proof (rule rtt_turns.serviced_ends[OF assms(1) _ assms(3)])
  show "rtt_sent (m_checkent m) w = Some (q_probes d)" using assms(2) by (simp add: rtt_sent_def)
qed (use assms(4) rtt_want_le[of h] in auto)

text \<open>
  C16. The result of a packet loss cycle: once all probes are out and two seconds have passed, the object records exactly
  the probes sent and the replies counted, clients are told, and the result follows from the number lost: within the
  tolerance it is fine, everything lost is unpingable, anything between exceeds the tolerance. The data are released.
\<close>

theorem pktloss_cycle_result:
  assumes "m_monitordata m" "iw_loss w (m_checkent m) = Some d" "p_packetsent (l_ping d) = int s" "p_nreceived (l_ping d) = int r"
    "r \<le> s" "s < 2 ^ 32" "unat (h_send_pings h) \<le> s" "mydifftime (p_lastsentat (l_ping d)) (iw_now w) \<ge> 2000000"
    "service_test_pktloss now (m, h, seq, w) = (m', h', seq', w')"
  shows "unat (h_pktloss_last_sent h') = s \<and> unat (h_pktloss_last_recv h') = r \<and> h_change_seq h' = seq + 1 \<and> seq' = seq + 1 \<and>
     m_retval m' = (if s - r \<le> unat (h_pktloss_tolerance h) then SYSM_OK else if r = 0 then SYSM_UNPINGABLE else SYSM_PKTLOSS_EXCEED) \<and>
     \<not> m_monitordata m' \<and> iw_loss w' (m_checkent m) = None"
proof -
  define sw rw :: u32 where "sw = word_of_int (int s)" and "rw = word_of_int (int r)"
  have u: "unat sw = s" "unat rw = r" using assms(5,6) by (simp_all add: sw_def rw_def unat_of_nat)
  have le: "h_send_pings h \<le> word_of_nat s" using u(1) assms(7) by (simp add: word_le_nat_alt sw_def)
  define lost where "lost = (if rw \<ge> sw then 0 else sw - rw)"
  have "rw \<le> sw" using u assms(5) by (simp add: word_le_nat_alt)
  then have lost: "unat lost = s - r" using u assms(5) by (simp add: lost_def unat_sub word_le_nat_alt)
  then have "(lost = sw) = (s - r = s)" using u by (metis word_unat_eq_iff)
  moreover have "(lost > h_pktloss_tolerance h) = (\<not> s - r \<le> unat (h_pktloss_tolerance h))" using lost by (simp add: word_less_nat_alt not_le)
  ultimately have v: "pktloss_verdict (h_pktloss_tolerance h) sw lost =
      (if s - r \<le> unat (h_pktloss_tolerance h) then SYSM_OK else if r = 0 then SYSM_UNPINGABLE else SYSM_PKTLOSS_EXCEED)"
    using assms(5) by (auto simp: pktloss_verdict_def)
  have "(m', h', seq', w') = (m\<lparr>m_lastserv := iw_now w, m_retval := pktloss_verdict (h_pktloss_tolerance h) sw lost, m_monitordata := False\<rparr>,
      h\<lparr>h_pktloss_last_sent := sw, h_pktloss_last_recv := rw, h_change_seq := seq + 1\<rparr>, seq + 1, put_loss (m_checkent m) None w)"
    using assms(1-4,8,9) le by (auto simp: service_test_pktloss_def Let_def object_changed_def put_loss_def sw_def rw_def lost_def)
  then show ?thesis using u v by (simp add: put_loss_def)
qed

text \<open>
  A reply that has come in does not count when the main loop is late: a ping check whose probes are all out is called
  unpingable at the first call two seconds or more after the last probe, however many replies were counted.
\<close>

theorem ping_ignores_replies:
  assumes "m_monitordata m" "iw_ping w (m_checkent m) = Some p" "h_send_pings h \<le> word_of_int (p_packetsent p)"
    "mydifftime (p_lastsentat p) (iw_now w) \<ge> 2000000"
  shows "m_retval (fst (service_test_ping now (m, h, seq, w))) = SYSM_UNPINGABLE"
  using assms by (simp add: service_test_ping_def)

text \<open>
  A check whose first send fails has a result at once and keeps its data: the scheduler takes the entry off the queue
  without stopping the check, so nothing releases them.
\<close>

theorem failed_start_leaks:
  assumes "iw_fd w \<noteq> - 1" "iw_resolve w (h_hostname h) = Some hp" "iw_sendto w = Some ENETUNREACH"
    "start_test_ping now (m, h, seq, w) = (m', h', seq', w')"
  shows "m_retval m' = SYSM_NETUNRCH \<and> m_monitordata m' \<and> iw_ping w' (m_checkent m) \<noteq> None"
  using assms by (auto simp: start_test_ping_def pinger_v4_def Let_def put_ping_def)

text \<open>The history of losses begins empty with every check and is released with its first sample.\<close>

theorem loss_history_lost:
  assumes "iw_loss w (m_checkent m) = Some d" "service_test_pktloss now (m, h, seq, w) = (m', h', seq', w')"
    "iw_loss w' (m_checkent m) = Some d'" "loss_held d = []"
  shows "loss_held d' = []"
proof -
  obtain p1 m1 w1 where p1: "pinger_v4 (l_ping d, m\<lparr>m_lastserv := iw_now w\<rparr>, w) = (p1, m1, w1)" by (metis prod_cases3)
  have "iw_loss w1 = iw_loss w" by (rule pinger_v4_frame(3)[OF p1])
  then have "l_history d' = l_history d \<and> l_history_head d' = l_history_head d \<and> l_history_count d' = l_history_count d"
    using assms(1-3) by (auto simp: service_test_pktloss_def Let_def p1 put_loss_def object_changed_def split: if_splits)
  then show ?thesis using assms(4) by (simp add: loss_held_def)
qed

section \<open>Witnesses\<close>

definition icmp_idle :: icmp_world where
  "icmp_idle =
     \<lparr>iw_fd = 3, iw_use_helper = False, iw_helper_required = False, iw_helper_failed_once = False, iw_ident = 0,
      iw_ping = Map.empty, iw_loss = Map.empty, iw_rtt = Map.empty, iw_sent = [], iw_now = (100, 0), iw_tv = (100, 0), iw_time = 100,
      iw_resolve = (\<lambda>_. Some \<lparr>h_name = ''a'', h_addrtype_v4 = 2, h_length_v4 = 4, my_h_addr_v4 = [10, 0, 0, 1]\<rparr>),
      iw_sendto = None, iw_helper = Helper_ok\<rparr>"

definition an_entry :: monitorent where
  "an_entry = \<lparr>m_checkent = 0, m_unique_name = ''a'', m_queueat = (100, 0), m_lastserv = (0, 0), m_filedes = - 1, m_fd_state = 0, m_started = True,
     m_retval = - 1, m_monitordata = True, m_wakeup_count = 0, m_last_wakeup_time = 0\<rparr>"

definition a_ping :: "int \<Rightarrow> int \<Rightarrow> pingdata" where
  "a_ping s r = \<lparr>p_to = [10, 0, 0, 1], p_ident = 3, p_packetsent = s, p_nreceived = r, p_outpack = fresh_outpack, p_lastsentat = (90, 0)\<rparr>"

lemmas witness_defs = icmp_idle_def an_entry_def a_ping_def zero_host_def


theorem silent_host_not_credited_witness:
  "handle_icmp_responses (\<lambda>_. SYSM_TYPE_PING) (0x45 # replicate 63 0) [([], [10, 0, 0, 9], (100, 0))] [an_entry]
     (put_ping 0 (Some (a_ping 1 0)) icmp_idle) = Got (put_ping 0 (Some (a_ping 1 0)) icmp_idle) \<and>
   iw_ping (put_ping 0 (Some (a_ping 1 0)) icmp_idle) 0 = Some (a_ping 1 0)"
proof -
  have h: "handle_icmp_responses (\<lambda>_. SYSM_TYPE_PING) (0x45 # replicate 63 0) [([], [10, 0, 0, 9], (100, 0))] [an_entry]
     (put_ping 0 (Some (a_ping 1 0)) icmp_idle) = Got (put_ping 0 (Some (a_ping 1 0)) icmp_idle)"
    by (simp add: handle_icmp_responses_def received_def read_reply_def at_def matches_def put_ping_def witness_defs)
  show ?thesis
    using silent_host_not_credited[OF h, of "[10, 0, 0, 1]" 0] h by (simp add: put_ping_def witness_defs)
qed

text \<open>Three seconds after the last probe of entry 0.\<close>

definition three_later :: "icmp_world \<Rightarrow> icmp_world" where
  "three_later w = w\<lparr>iw_fd := 3, iw_now :=
     (case iw_ping w 0 of Some p \<Rightarrow> (fst (p_lastsentat p) + 3, snd (p_lastsentat p)) | None \<Rightarrow> iw_now w)\<rparr>"

theorem ping_check_ends_witness:
  "m_retval (fst (serviced service_test_ping 0 [three_later] (an_entry, zero_host, 0, put_ping 0 (Some (a_ping 0 0)) icmp_idle))) \<noteq> - 1"
  by (rule ping_check_ends[where p = "a_ping 0 0"])
     (simp_all add: put_ping_def witness_defs three_later_def ping_patient_def ping_sent_def long_ago_def mydifftime_def)

definition six_later :: "icmp_world \<Rightarrow> icmp_world" where
  "six_later w = w\<lparr>iw_now :=
     (case iw_rtt w 0 of Some d \<Rightarrow> (fst (q_last_send_time d) + 6, snd (q_last_send_time d)) | None \<Rightarrow> iw_now w)\<rparr>"

theorem rtt_check_ends_witness:
  "m_retval (fst (serviced service_test_rtt 0 (replicate 65 six_later)
     (an_entry, zero_host, 0, put_rtt 0 (Some (fresh_rtt (90, 0) (a_ping 1 0))) icmp_idle))) \<noteq> - 1"
  by (rule rtt_check_ends[where d = "fresh_rtt (90, 0) (a_ping 1 0)"])
     (simp_all add: put_rtt_def witness_defs six_later_def rtt_patient_def rtt_sent_def calculate_rtt_ms_def)

theorem pktloss_cycle_result_witness:
  "m_retval (fst (service_test_pktloss 0 (an_entry, zero_host, 0, put_loss 0 (Some (fresh_loss (a_ping 5 3))) icmp_idle))) = SYSM_PKTLOSS_EXCEED"
proof -
  obtain m' h' seq' w' where
    s: "service_test_pktloss 0 (an_entry, zero_host, 0, put_loss 0 (Some (fresh_loss (a_ping 5 3))) icmp_idle) = (m', h', seq', w')"
    by (metis prod_cases4)
  show ?thesis
    using pktloss_cycle_result[where d = "fresh_loss (a_ping 5 3)" and s = 5 and r = 3, OF _ _ _ _ _ _ _ _ s]
    unfolding s by (simp add: put_loss_def witness_defs fresh_loss_def mydifftime_def)
qed

theorem ping_ignores_replies_witness:
  "m_retval (fst (service_test_ping 0 (an_entry, zero_host\<lparr>h_send_pings := 1, h_min_pings := 1\<rparr>, 0,
     put_ping 0 (Some (a_ping 1 1)) icmp_idle))) = SYSM_UNPINGABLE"
  by (rule ping_ignores_replies[where p = "a_ping 1 1"]) (simp_all add: put_ping_def witness_defs mydifftime_def)

theorem failed_start_leaks_witness:
  "m_monitordata (fst (start_test_ping 0 (an_entry, zero_host, 0, icmp_idle\<lparr>iw_sendto := Some ENETUNREACH\<rparr>)))"
proof -
  obtain m' h' seq' w' where
    s: "start_test_ping 0 (an_entry, zero_host, 0, icmp_idle\<lparr>iw_sendto := Some ENETUNREACH\<rparr>) = (m', h', seq', w')"
    by (metis prod_cases4)
  show ?thesis unfolding s using failed_start_leaks[OF _ _ _ s] by (simp add: icmp_idle_def)
qed

theorem loss_history_lost_witness:
  "\<forall>d'. iw_loss (snd (snd (snd (service_test_pktloss 0 (an_entry, zero_host\<lparr>h_send_pings := 9\<rparr>, 0,
     put_loss 0 (Some (fresh_loss (a_ping 5 3))) icmp_idle))))) 0 = Some d' \<longrightarrow> loss_held d' = []"
proof -
  obtain m' h' seq' w' where
    s: "service_test_pktloss 0 (an_entry, zero_host\<lparr>h_send_pings := 9\<rparr>, 0, put_loss 0 (Some (fresh_loss (a_ping 5 3))) icmp_idle) = (m', h', seq', w')"
    by (metis prod_cases4)
  have "loss_held (fresh_loss (a_ping 5 3)) = []" by (simp add: loss_held_def fresh_loss_def ring_view_def)
  then show ?thesis using loss_history_lost[OF _ s, of "fresh_loss (a_ping 5 3)"] unfolding s
    by (simp add: put_loss_def an_entry_def)
qed

end
