(* ===== verification/Client_Xml.thy ===== *)
theory Client_Xml
  imports Icmp_Check Trap_History
begin

text \<open>
  The documents srvclient.c sends: the escaping of text, the status of one object (\<open>send_object_xml\<close>) and the
  recent traps (\<open>send_traps\<close>). A document is the list of its lines. Text escaped and decoded again is
  the text with its control characters dropped, cut at the end if it does not fit, and every line is a complete element.
\<close>

section \<open>Escaping\<close>

definition entity :: "char \<Rightarrow> string option" where
  "entity c =
     (if c = CHR ''&'' then Some ''&amp;'' else if c = CHR ''<'' then Some ''&lt;'' else if c = CHR ''>'' then Some ''&gt;''
      else if c = CHR 0x22 then Some ''&quot;'' else if c = CHR 0x27 then Some ''&apos;'' else None)"

fun escape_loop :: "nat \<Rightarrow> string \<Rightarrow> string \<Rightarrow> string" where
  "escape_loop outlen [] out = out"
| "escape_loop outlen (c # cs) out =
     (if c = CHR 0x00 then out
      else case entity c of
        Some rep \<Rightarrow> if length out + length rep \<ge> outlen then out else escape_loop outlen cs (out @ rep)
      | None \<Rightarrow>
          if (of_char c :: nat) < 0x20 then escape_loop outlen cs out
          else if length out + 1 \<ge> outlen then out else escape_loop outlen cs (out @ [c]))"

definition xml_escape :: "string option \<Rightarrow> nat \<Rightarrow> string" where
  "xml_escape s outlen = (case s of None \<Rightarrow> [] | Some t \<Rightarrow> escape_loop outlen t [])"

section \<open>Elements\<close>

abbreviation (input) TEMPBUF_SIZE :: nat where "TEMPBUF_SIZE \<equiv> 1024"
abbreviation (input) LARGE_TEMPBUF_SIZE :: nat where "LARGE_TEMPBUF_SIZE \<equiv> 4096"

definition tagged :: "string \<Rightarrow> string \<Rightarrow> string" where
  "tagged tag content = ''<'' @ tag @ ''>'' @ content @ ''</'' @ tag @ ''>''"

definition open_tag :: "string \<Rightarrow> string" where "open_tag tag = ''<'' @ tag @ ''>''"
definition close_tag :: "string \<Rightarrow> string" where "close_tag tag = ''</'' @ tag @ ''>''"

text \<open>The formats of the object document: \<open>%s\<close> of escaped text, \<open>%ld\<close> and \<open>%d\<close> of unsigned fields, \<open>%u\<close>, \<open>%lld\<close>.\<close>

definition text_el :: "string \<Rightarrow> string option \<Rightarrow> string" where
  "text_el tag s = fit TEMPBUF_SIZE (tagged tag (xml_escape s (TEMPBUF_SIZE - 128)))"

definition opt_el :: "string \<Rightarrow> string option \<Rightarrow> string list" where
  "opt_el tag s = (case s of None \<Rightarrow> [] | Some t \<Rightarrow> [text_el tag (Some t)])"

definition int_el :: "string \<Rightarrow> int \<Rightarrow> string" where
  "int_el tag i = fit TEMPBUF_SIZE (tagged tag (int_string i))"

definition nat_el :: "string \<Rightarrow> nat \<Rightarrow> string" where
  "nat_el tag n = fit TEMPBUF_SIZE (tagged tag (dec_string n))"

definition bool_int :: "bool \<Rightarrow> int" where "bool_int b = (if b then 1 else 0)"

text \<open>\<open>%.2f\<close>: rounding to the nearest hundredth, ties to even.\<close>

definition hundredths :: "rat \<Rightarrow> nat" where
  "hundredths x =
     (let y = 100 * \<bar>x\<bar>; f = \<lfloor>y\<rfloor>; d = y - of_int f
      in nat (if d < 1 / 2 \<or> d = 1 / 2 \<and> even f then f else f + 1))"

definition fixed2 :: "rat \<Rightarrow> string" where
  "fixed2 x = (if x < 0 then ''-'' else []) @ dec_string (hundredths x div 100) @ ''.'' @
     dec_string (hundredths x mod 100 div 10) @ dec_string (hundredths x mod 10)"

definition fixed_el :: "string \<Rightarrow> rat \<Rightarrow> string" where
  "fixed_el tag x = fit TEMPBUF_SIZE (tagged tag (fixed2 x))"

text \<open>\<open>%ld.%06ld\<close>\<close>

definition pad6 :: "int \<Rightarrow> string" where
  "pad6 i = (let ds = dec_string (nat \<bar>i\<bar>) in (if i < 0 then ''-'' else []) @ replicate (6 - length ds - (if i < 0 then 1 else 0)) CHR ''0'' @ ds)"

definition time_el :: "string \<Rightarrow> timeval \<Rightarrow> string" where
  "time_el tag t = fit TEMPBUF_SIZE (tagged tag (int_string (fst t) @ ''.'' @ pad6 (snd t)))"

section \<open>The status of an object\<close>

definition snmp_part :: "bool \<Rightarrow> hostinfo \<Rightarrow> string list" where
  "snmp_part privileged h =
     (if h_type h = SYSM_TYPE_SNMP then
        (if privileged then opt_el ''ObjectSNMPCommunity'' (h_snmp_community h) else []) @
        [text_el ''ObjectSNMPVersion'' (Some (if h_snmp_version h = 0 then ''1'' else ''2c''))] @
        opt_el ''ObjectSNMPoid'' (h_snmp_oid h) @
        [text_el ''ObjectSNMPType'' (Some (snmp_type_to_name (h_snmp_test_type h))),
         int_el ''ObjectSNMPLowThresh'' (sint (h_snmp_low h)), int_el ''ObjectSNMPHighThresh'' (sint (h_snmp_high h)),
         int_el ''ObjectSNMPExactThresh'' (sint (h_snmp_exact h)), int_el ''ObjectSNMPObjectSysUpTime'' (sint (h_system_uptime h)),
         int_el ''ObjectSNMPOctets'' (bool_int (h_snmp_octets h)), int_el ''ObjectSNMPRate'' (sint (h_snmp_rate h)),
         int_el ''ObjectSNMPLastResponseTime'' (h_last_snmp_resptime h)]
      else [])"

definition identity_part :: "graph_element \<Rightarrow> hostinfo \<Rightarrow> string list" where
  "identity_part g h =
     [nat_el ''ObjectChangeSeq'' (unat (h_change_seq h)), text_el ''Object'' (Some (g_unique_name g)),
      text_el ''HostName'' (Some (h_hostname h)), int_el ''ObjectPort'' (sint (h_port h)),
      text_el ''ObjectType'' (Some (type_to_name (h_type h))), text_el ''ObjectMessage'' (h_message h)] @
     opt_el ''ObjectContact'' (h_contact h) @ opt_el ''ObjectGroup'' (h_group h) @ opt_el ''ObjectNotes'' (h_notes h)"

definition secrets_part :: "hostinfo \<Rightarrow> string list" where
  "secrets_part h =
     opt_el ''ObjectAuthUsername'' (h_username h) @ opt_el ''ObjectAuthPassword'' (h_password h) @
     opt_el ''ObjectHeader'' (h_hdr h) @ opt_el ''ObjectHeaderValue'' (h_hdrval h) @ opt_el ''ObjectRadiusSecret'' (h_secret h)"

definition web_part :: "hostinfo \<Rightarrow> string list" where
  "web_part h = opt_el ''ObjectURL'' (h_url h) @ opt_el ''ObjectURLText'' (h_url_text h) @ opt_el ''ObjectExecCmd'' (h_command h)"

definition counters_part :: "hostinfo \<Rightarrow> string list" where
  "counters_part h =
     [int_el ''ObjectTotalChecked'' (sint (h_totalchecked h)), int_el ''ObjectTotalDown'' (sint (h_totaldown h)),
      int_el ''ObjectDownCt'' (sint (h_downct h)), int_el ''ObjectUpCt'' (sint (h_upct h)),
      int_el ''ObjectMaxDown'' (sint (h_max_down h)), int_el ''ObjectQueueInterval'' (sint (h_queuetime h)),
      int_el ''ObjectSendPings'' (sint (h_send_pings h)), int_el ''ObjectMinPings'' (sint (h_min_pings h)),
      int_el ''ObjectReversed'' (bool_int (h_reverse h)), int_el ''ObjectContacted'' (bool_int (h_contacted h)),
      int_el ''ObjectContactedAt'' (h_lastcontacted h), int_el ''ObjectContactOnUp'' (h_contact_when h),
      int_el ''ObjectQueued'' (bool_int (h_queued h)), int_el ''ObjectLastChecked'' (h_lchecktime h),
      int_el ''ObjectCheckStarted'' (h_check_start h), int_el ''ObjectOutageTime'' (h_deathtime h),
      int_el ''ObjectLastTimeUp'' (h_last_up h)]"

definition positive_el :: "string \<Rightarrow> u32 \<Rightarrow> string list" where
  "positive_el tag v = (if v > 0 then [nat_el tag (unat v)] else [])"

definition limits_part :: "hostinfo \<Rightarrow> string list" where
  "limits_part h =
     positive_el ''ObjectPacketLossThreshold'' (h_pktloss_tolerance h) @ positive_el ''ObjectRTTThreshold'' (h_rtt_threshold h) @
     positive_el ''ObjectJitterThreshold'' (h_jitter_threshold h) @ positive_el ''ObjectWakeupRetries'' (h_max_wakeup_retries h) @
     (if h_trap_alert h then [int_el ''ObjectTrapAlert'' 1] else [])"

definition extended_part :: "hostinfo \<Rightarrow> string list" where
  "extended_part h =
     (if h_type h = SYSM_TYPE_SNMP
      then opt_el ''ObjectSNMPOidSecondary'' (h_snmp_oid_sec h) @ opt_el ''ObjectSNMPUpMessage'' (h_snmp_up_msg h) @
           opt_el ''ObjectSNMPDownMessage'' (h_snmp_down_msg h) else []) @
     (if h_type h = SYSM_TYPE_DNS \<and> h_dns_query h \<noteq> None
      then opt_el ''ObjectDNSQuery'' (h_dns_query h) @
           [int_el ''ObjectDNSRequireAA'' (bool_int (h_dns_aa h)), int_el ''ObjectDNSRecursion'' (bool_int (h_dns_recursion h))] else []) @
     opt_el ''ObjectPageMessage'' (h_pmesg h) @
     positive_el ''ObjectPacketLossHistoryHours'' (h_pktloss_history_hours h) @
     (if h_pktloss_last_check h > 0 then [int_el ''ObjectPacketLossLastCheck'' (h_pktloss_last_check h)] else []) @
     (if h_pktloss_last_sent h > 0
      then [nat_el ''ObjectPacketLossLastSent'' (unat (h_pktloss_last_sent h)),
            nat_el ''ObjectPacketLossLastRecv'' (unat (h_pktloss_last_recv h))] else []) @
     positive_el ''ObjectRTTSamples'' (h_rtt_samples h) @ positive_el ''ObjectRTTInterval'' (h_rtt_interval h) @
     (if h_rtt_last_probes h > 0
      then [fixed_el ''ObjectRTTMin'' (h_rtt_last_min h), fixed_el ''ObjectRTTAvg'' (h_rtt_last_avg h),
            fixed_el ''ObjectRTTMax'' (h_rtt_last_max h), fixed_el ''ObjectRTTJitter'' (h_rtt_last_jitter h),
            nat_el ''ObjectRTTReplies'' (unat (h_rtt_last_replies h)), nat_el ''ObjectRTTProbes'' (unat (h_rtt_last_probes h))] else []) @
     (if h_next_queuetime h > 0 then [int_el ''ObjectNextQueueTime'' (h_next_queuetime h)] else []) @
     [int_el ''ObjectTraceEnabled'' (bool_int (h_trace h)), int_el ''ObjectAcked'' (bool_int (h_acked h))]"

definition sample_line :: "pktloss_sample \<Rightarrow> string" where
  "sample_line s = fit TEMPBUF_SIZE (''<Sample timestamp='' @ [CHR 0x22] @ int_string (sm_timestamp s) @ [CHR 0x22] @
     '' sent='' @ [CHR 0x22] @ dec_string (unat (sm_sent s)) @ [CHR 0x22] @ '' received='' @ [CHR 0x22] @
     dec_string (unat (sm_received s)) @ [CHR 0x22] @ '' lost='' @ [CHR 0x22] @ dec_string (unat (sm_lost s)) @ [CHR 0x22] @ ''/>'')"

definition history_part :: "pktloss_data \<Rightarrow> string list" where
  "history_part d =
     [nat_el ''PacketLossTotalSent'' (unat (l_total_sent d)), nat_el ''PacketLossTotalReceived'' (unat (l_total_received d)),
      nat_el ''PacketLossTotalLost'' (unat (l_total_lost d)), nat_el ''PacketLossHistorySamples'' (l_history_count d)] @
     (let n = min (l_history_count d) PKTLOSS_HISTORY_SIZE in
      if n > 0 then [open_tag ''PacketLossHistory''] @
        map (\<lambda>i. sample_line (l_history d ! ((l_history_head d + PKTLOSS_HISTORY_SIZE - n + i) mod PKTLOSS_HISTORY_SIZE))) [0..<n] @
        [close_tag ''PacketLossHistory'']
      else [])"

text \<open>What the queue knows of an object being checked; \<open>loss\<close> is the data of a packet loss check.\<close>

definition queue_part :: "hostinfo \<Rightarrow> monitorent \<Rightarrow> pktloss_data option \<Rightarrow> string list" where
  "queue_part h m loss =
     [time_el ''CheckQueuedAt'' (m_queueat m), time_el ''CheckLastServiced'' (m_lastserv m),
      int_el ''CheckFileDescriptor'' (m_filedes m), int_el ''CheckStarted'' (bool_int (m_started m))] @
     (if m_retval m \<noteq> - 1 then [int_el ''CheckReturnValue'' (m_retval m)] else []) @
     (if m_wakeup_count m > 0
      then [nat_el ''CheckWakeupCount'' (unat (m_wakeup_count m)), int_el ''CheckLastWakeupTime'' (m_last_wakeup_time m)] else []) @
     (if h_type h = SYSM_TYPE_PKTLOSS \<and> m_monitordata m then (case loss of None \<Rightarrow> [] | Some d \<Rightarrow> history_part d) else [])"

text \<open>The document; \<open>queue\<close> is the queue of checks and \<open>p\<close> the position of the object.\<close>

definition object_lines ::
    "bool \<Rightarrow> nat \<Rightarrow> graph_element \<Rightarrow> hostinfo \<Rightarrow> monitorent list \<Rightarrow> (nat \<Rightarrow> pktloss_data option) \<Rightarrow> string list" where
  "object_lines privileged p g h queue loss =
     identity_part g h @ snmp_part privileged h @ [int_el ''ObjectLastcheckState'' (sint (h_lastcheck h))] @
     (if privileged then secrets_part h else []) @ opt_el ''ObjectMessageID'' (h_lastmsgid h) @
     [text_el ''ObjectUniqueID'' (Some (h_unique_id h))] @ (if privileged then web_part h else []) @
     counters_part h @ limits_part h @ extended_part h @
     (case find (\<lambda>m. m_checkent m = p) queue of None \<Rightarrow> [] | Some m \<Rightarrow> queue_part h m (loss p))"

definition send_object_xml ::
    "bool \<Rightarrow> nat \<Rightarrow> graph_element \<Rightarrow> hostinfo \<Rightarrow> monitorent list \<Rightarrow> (nat \<Rightarrow> pktloss_data option) \<Rightarrow> string list" where
  "send_object_xml privileged p g h queue loss =
     [open_tag ''ObjectStatus''] @ object_lines privileged p g h queue loss @ [close_tag ''ObjectStatus'']"

section \<open>The recent traps\<close>

definition trap_text :: "string \<Rightarrow> string \<Rightarrow> string" where
  "trap_text tag s = fit LARGE_TEMPBUF_SIZE (tagged tag (xml_escape (Some s) 1160))"

definition trap_opt :: "string \<Rightarrow> string \<Rightarrow> string list" where
  "trap_opt tag s = (if s \<noteq> [] then [trap_text tag s] else [])"

definition trap_num :: "string \<Rightarrow> int \<Rightarrow> string" where
  "trap_num tag i = fit LARGE_TEMPBUF_SIZE (tagged tag (int_string i))"

definition varbind_lines :: "trap_varbind \<Rightarrow> string list" where
  "varbind_lines b =
     [open_tag ''Varbind'', trap_text ''VarbindOID'' (vb_oid b)] @ trap_opt ''VarbindName'' (vb_name b) @
     [trap_text ''VarbindType'' (vb_type b), trap_text ''VarbindValue'' (vb_value b)] @ trap_opt ''VarbindNote'' (vb_note b) @
     [close_tag ''Varbind'']"

definition version_name :: "int \<Rightarrow> string" where
  "version_name v = (if v = 0 then ''v1'' else if v = 1 then ''v2c'' else if v = 3 then ''v3'' else ''unknown'')"

definition trap_lines :: "bool \<Rightarrow> trap_record \<Rightarrow> string list" where
  "trap_lines privileged r =
     (let c = r_content r in
      [open_tag ''Trap'', trap_num ''TrapSeq'' (uint (r_seq r)), trap_text ''TrapSource'' (r_source r), trap_num ''TrapTime'' (r_when r),
       trap_num ''TrapBytes'' (r_bytes r), fit LARGE_TEMPBUF_SIZE (tagged ''TrapVersion'' (version_name (t_version c)))] @
      (if privileged then trap_opt ''TrapCommunity'' (t_community c) else []) @
      [trap_text ''TrapName'' (t_name c), trap_text ''TrapDescription'' (t_description c),
       trap_text ''TrapSeverity'' (t_severity c), trap_text ''TrapCategory'' (t_category c)] @
      trap_opt ''TrapOID'' (t_trap_oid c) @ trap_opt ''TrapEnterprise'' (t_enterprise c) @ trap_opt ''TrapAgentAddress'' (t_agent c) @
      trap_opt ''TrapVendor'' (t_vendor c) @ trap_opt ''TrapInterface'' (t_iface c) @
      (if t_ifindex c \<ge> 0 then [trap_num ''TrapIfIndex'' (t_ifindex c)] else []) @
      [trap_num ''TrapUptime'' (int (t_uptime c)), trap_num ''TrapDecoded'' (bool_int (t_decoded c))] @
      trap_opt ''TrapMatchedHost'' (r_matched r) @
      [trap_num ''TrapAlertEnabled'' (bool_int (r_alert_enabled r)), trap_num ''TrapAlertSent'' (bool_int (r_alert_sent r))] @
      concat (map varbind_lines (take 16 (vbs c))) @ [close_tag ''Trap''])"

text \<open>The loop over \<open>trap_history_get\<close>, newest first, up to the first trap the client has already seen.\<close>

definition newer_traps :: "u64 \<Rightarrow> trap_history \<Rightarrow> trap_record list" where
  "newer_traps since th =
     takeWhile (\<lambda>r. r_seq r > since) (List.map_filter (\<lambda>i. trap_history_get (int i) th) [0..<trap_history_count th])"

definition trap_summary :: "trap_record \<Rightarrow> string" where
  "trap_summary r =
     (let c = r_content r in
      fit LARGE_TEMPBUF_SIZE (int_string (r_when r) @ '':'' @ r_source r @ '':'' @ t_name c @ '':'' @ t_severity c @ '':'' @
        (if r_matched r \<noteq> [] then r_matched r else ''-'') @ '':'' @ t_description c))"

definition trap_footer :: "trap_history \<Rightarrow> nat \<Rightarrow> string" where
  "trap_footer th n = fit LARGE_TEMPBUF_SIZE (''333 '' @ dec_string (unat (trap_history_total th)) @ '' '' @
     dec_string (unat (trap_history_oldest_seq th)) @ '' '' @ dec_string n)"

definition send_traps :: "bool \<Rightarrow> bool \<Rightarrow> u64 \<Rightarrow> trap_history \<Rightarrow> string list" where
  "send_traps xml privileged since th =
     (let rs = newer_traps since th in
      if \<not> xml then map trap_summary rs @ [trap_footer th (trap_history_count th)]
      else [open_tag ''SysmonTraps''] @ concat (map (trap_lines privileged) rs) @ [close_tag ''SysmonTraps'', trap_footer th (length rs)])"

section \<open>Escaped text decodes to what was escaped\<close>

text \<open>The reader's side: an entity is one character.\<close>

definition entities :: "(string \<times> char) list" where
  "entities = [(''&amp;'', CHR ''&''), (''&lt;'', CHR ''<''), (''&gt;'', CHR ''>''), (''&quot;'', CHR 0x22), (''&apos;'', CHR 0x27)]"

function unescape :: "string \<Rightarrow> string" where
  "unescape s =
     (case find (\<lambda>(e, c). has_prefix e s) entities of
        Some (e, c) \<Rightarrow> c # unescape (drop (length e) s)
      | None \<Rightarrow> (case s of [] \<Rightarrow> [] | c # cs \<Rightarrow> c # unescape cs))"
  by pat_completeness auto
termination
  by (relation "measure length")
     (auto simp: find_Some_iff entities_def has_prefix_def nth_Cons' split: if_splits dest!: arg_cong[where f = length])

declare unescape.simps [simp del]

definition esc1 :: "char \<Rightarrow> string" where
  "esc1 c = (case entity c of Some e \<Rightarrow> e | None \<Rightarrow> [c])"

lemma esc1_char: "entity c = None \<Longrightarrow> esc1 c = [c]"
  by (simp add: esc1_def)

lemma has_prefix_Cons: "has_prefix (a # as) (b # bs) \<longleftrightarrow> a = b \<and> has_prefix as bs" "has_prefix [] s"
  by (auto simp: has_prefix_def)

lemma unescape_esc1: "unescape (esc1 c @ s) = c # unescape s"
proof (cases "entity c")
  case None
  then have "c \<noteq> CHR ''&''" by (auto simp: entity_def)
  then have "find (\<lambda>(e, x). has_prefix e (c # s)) entities = None"
    by (simp add: entities_def has_prefix_Cons)
  then show ?thesis by (simp add: esc1_char[OF None] unescape.simps[of "c # s"])
next
  case (Some e)
  then have e: "(e, c) \<in> set entities" "esc1 c = e" by (auto simp: entity_def entities_def esc1_def split: if_splits)
  then show ?thesis
    by (subst unescape.simps) (auto simp: entities_def has_prefix_Cons)
qed

lemma unescape_concat: "unescape (concat (map esc1 xs)) = xs"
proof (induction xs)
  case Nil
  then show ?case by (subst unescape.simps) (simp add: entities_def has_prefix_def)
qed (simp add: unescape_esc1)

definition xml_char :: "char \<Rightarrow> bool" where
  "xml_char c \<longleftrightarrow> (of_char c :: nat) \<ge> 0x20"

lemma control_char: "((of_char c :: nat) < 32) = (\<not> xml_char c)"
  by (auto simp: xml_char_def)

lemma entity_xml_char: "entity c = Some e \<Longrightarrow> xml_char c"
  by (auto simp: entity_def xml_char_def split: if_splits)

text \<open>The loop writes the characters one after the other and stops where one does not fit any more.\<close>

lemma escape_loop_prefix:
  assumes "CHR 0x00 \<notin> set s"
  shows "\<exists>k. escape_loop n s out = out @ concat (map esc1 (take k (filter xml_char s)))"
  using assms
proof (induction s arbitrary: out)
  case (Cons c cs)
  have IH: "\<exists>k. escape_loop n cs out' = out' @ concat (map esc1 (take k (filter xml_char cs)))" for out'
    using Cons by auto
  have zero: "\<exists>k. out = out @ concat (map esc1 (take k xs))" for xs by (rule exI[of _ 0]) simp
  have step: "\<exists>k. escape_loop n cs (out @ esc1 c) = out @ concat (map esc1 (take k (filter xml_char (c # cs))))" if "xml_char c"
  proof -
    obtain k where "escape_loop n cs (out @ esc1 c) = (out @ esc1 c) @ concat (map esc1 (take k (filter xml_char cs)))" using IH by blast
    then show ?thesis using that by (intro exI[of _ "Suc k"]) simp
  qed
  show ?case
  proof (cases "entity c")
    case None
    then show ?thesis
      using Cons.prems step zero IH[of out] by (auto simp: esc1_char[OF None] control_char)
  next
    case (Some e)
    then have "esc1 c = e" "xml_char c" by (simp_all add: esc1_def entity_xml_char)
    then show ?thesis using Some Cons.prems step zero by auto
  qed
qed simp

lemma escape_loop_fits:
  assumes "CHR 0x00 \<notin> set s" "length out + length (concat (map esc1 (filter xml_char s))) < n"
  shows "escape_loop n s out = out @ concat (map esc1 (filter xml_char s))"
  using assms
proof (induction s arbitrary: out)
  case (Cons c cs)
  show ?case
  proof (cases "entity c")
    case None
    then show ?thesis using Cons by (cases "xml_char c") (auto simp: esc1_char[OF None] control_char)
  next
    case (Some e)
    then have "esc1 c = e" "xml_char c" by (simp_all add: esc1_def entity_xml_char)
    then show ?thesis using Some Cons by auto
  qed
qed simp

lemma escape_loop_length: "length out < n \<Longrightarrow> length (escape_loop n s out) < n"
  by (induction s arbitrary: out) (auto split: option.split)

lemma entity_set: "entity c = Some e \<Longrightarrow> set e \<inter> {CHR ''<'', CHR ''>'', CHR 0x22, CHR 0x27} = {} \<and> list_all xml_char e"
  by (auto simp: entity_def xml_char_def split: if_splits)

lemma no_entity: "entity c = None \<Longrightarrow> c \<notin> {CHR ''<'', CHR ''>'', CHR 0x22, CHR 0x27}"
  by (auto simp: entity_def)

lemma escape_loop_chars:
  assumes "set out \<inter> {CHR ''<'', CHR ''>'', CHR 0x22, CHR 0x27} = {} \<and> list_all xml_char out"
  shows "set (escape_loop n s out) \<inter> {CHR ''<'', CHR ''>'', CHR 0x22, CHR 0x27} = {} \<and> list_all xml_char (escape_loop n s out)"
  using assms
proof (induction s arbitrary: out)
  case (Cons c cs)
  show ?case
  proof (cases "entity c")
    case None
    then show ?thesis using Cons.prems Cons.IH[of out] Cons.IH[of "out @ [c]"] no_entity[OF None]
      by (auto simp: control_char)
  next
    case (Some e)
    then show ?thesis using Cons.prems Cons.IH[of "out @ e"] entity_set[OF Some] by (simp add: Int_Un_distrib2)
  qed
qed simp

text \<open>What no reader can take for markup.\<close>

definition plain_text :: "string \<Rightarrow> bool" where
  "plain_text s \<longleftrightarrow> set s \<inter> {CHR ''<'', CHR ''>'', CHR 0x0A, CHR 0x0D} = {}"

lemma plain_xml_escape: "plain_text (xml_escape s n)"
proof (cases s)
  case (Some t)
  have "\<not> xml_char CHR 0x0A" "\<not> xml_char CHR 0x0D" by (simp_all add: xml_char_def)
  then show ?thesis using escape_loop_chars[of "[]" n t] by (auto simp: Some xml_escape_def plain_text_def list_all_iff)
qed (simp add: xml_escape_def plain_text_def)

lemma xml_escape_length: "0 < n \<Longrightarrow> length (xml_escape s n) < n"
  by (simp add: xml_escape_def escape_loop_length split: option.split)

section \<open>What an unauthenticated reader gets\<close>

text \<open>An object and a trap without the credentials they carry.\<close>

definition public_host :: "hostinfo \<Rightarrow> hostinfo" where
  "public_host h = h\<lparr>h_snmp_community := None, h_username := None, h_password := None, h_hdr := None, h_hdrval := None,
     h_secret := None, h_url := None, h_url_text := None, h_command := None\<rparr>"

definition public_trap :: "trap_record \<Rightarrow> trap_record" where
  "public_trap r = r\<lparr>r_content := (r_content r)\<lparr>t_community := []\<rparr>\<rparr>"

lemma public_host_parts:
  "identity_part g (public_host h) = identity_part g h" "snmp_part False (public_host h) = snmp_part False h"
  "counters_part (public_host h) = counters_part h" "limits_part (public_host h) = limits_part h"
  "extended_part (public_host h) = extended_part h" "queue_part (public_host h) m loss = queue_part h m loss"
  by (simp_all add: public_host_def identity_part_def snmp_part_def counters_part_def limits_part_def extended_part_def queue_part_def)

lemma public_host_sel [simp]:
  "h_lastcheck (public_host h) = h_lastcheck h" "h_lastmsgid (public_host h) = h_lastmsgid h"
  "h_unique_id (public_host h) = h_unique_id h" "h_change_seq (public_host h) = h_change_seq h"
  by (simp_all add: public_host_def)

lemma send_object_public: "send_object_xml False p g (public_host h) queue loss = send_object_xml False p g h queue loss"
  by (simp add: send_object_xml_def object_lines_def public_host_parts split: option.split)

lemma trap_lines_public: "trap_lines False (public_trap r) = trap_lines False r"
  by (simp add: trap_lines_def public_trap_def Let_def)

lemma trap_summary_public: "trap_summary (public_trap r) = trap_summary r"
  by (simp add: trap_summary_def public_trap_def Let_def)

section \<open>Lines are complete elements\<close>

definition is_element :: "string \<Rightarrow> bool" where
  "is_element l \<longleftrightarrow> (\<exists>tag content. l = tagged tag content \<and> plain_text tag \<and> plain_text content)"

lemma tagged_fits: "length tag \<le> 40 \<Longrightarrow> length content < 900 \<Longrightarrow> fit TEMPBUF_SIZE (tagged tag content) = tagged tag content"
  by (rule fit_id) (simp add: tagged_def)

lemma is_elementI:
  assumes "length tag \<le> 40" "length content < 900" "plain_text tag" "plain_text content"
  shows "is_element (fit TEMPBUF_SIZE (tagged tag content))"
  using assms tagged_fits by (auto simp: is_element_def)

lemma text_el_ok: "length tag \<le> 40 \<Longrightarrow> plain_text tag \<Longrightarrow> is_element (text_el tag s)"
  unfolding text_el_def using xml_escape_length[of 896 s] by (intro is_elementI) (simp_all add: plain_xml_escape)

lemma opt_el_ok: "length tag \<le> 40 \<Longrightarrow> plain_text tag \<Longrightarrow> list_all is_element (opt_el tag s)"
  by (simp add: opt_el_def text_el_ok split: option.split)

lemma plain_dec_string: "plain_text (dec_string n)"
  using dec_string_digits[of _ n] by (fastforce simp: plain_text_def is_digit_def)

lemma plain_int_string: "plain_text (int_string i)"
  using plain_dec_string by (auto simp: int_string_def plain_text_def)

lemma plain_Cons: "plain_text (c # s) \<longleftrightarrow> c \<notin> {CHR ''<'', CHR ''>'', CHR 0x0A, CHR 0x0D} \<and> plain_text s" "plain_text []"
  by (auto simp: plain_text_def)

lemma plain_append: "plain_text (a @ b) \<longleftrightarrow> plain_text a \<and> plain_text b"
  by (auto simp: plain_text_def)

text \<open>A C integer of 64 bits takes at most 21 characters.\<close>

definition c_long :: "int \<Rightarrow> bool" where "c_long i \<longleftrightarrow> \<bar>i\<bar> < 10 ^ 20"

lemma c_long_length: "c_long i \<Longrightarrow> length (int_string i) < 900"
proof -
  assume "c_long i"
  then have "nat \<bar>i\<bar> < 10 ^ Suc 19" by (simp add: c_long_def nat_less_iff)
  from dec_string_length[OF this] show ?thesis by (auto simp: int_string_def)
qed

lemma c_long_sint32: "c_long (sint (w :: u32))"
  using sint_lt[of w] sint_ge[of w] by (simp add: c_long_def)

lemma c_long_sint64: "c_long (sint (w :: u64))"
  using sint_lt[of w] sint_ge[of w] by (simp add: c_long_def)

lemma int_el_ok: "length tag \<le> 40 \<Longrightarrow> plain_text tag \<Longrightarrow> c_long i \<Longrightarrow> is_element (int_el tag i)"
  unfolding int_el_def by (intro is_elementI) (simp_all add: c_long_length plain_int_string)

definition c_ulong :: "nat \<Rightarrow> bool" where "c_ulong n \<longleftrightarrow> n < 10 ^ Suc 19"

lemma nat_el_ok: "length tag \<le> 40 \<Longrightarrow> plain_text tag \<Longrightarrow> c_ulong n \<Longrightarrow> is_element (nat_el tag n)"
  unfolding nat_el_def c_ulong_def using dec_string_length[of n 19] by (intro is_elementI) (simp_all add: plain_dec_string)

lemma unat_small: "c_ulong (unat (w :: u32))" "c_ulong (unat (v :: u64))"
proof -
  have "unat w < 2 ^ LENGTH(32)" "unat v < 2 ^ LENGTH(64)" by (rule unsigned_less)+
  then show "c_ulong (unat w)" "c_ulong (unat v)" by (simp_all add: c_ulong_def)
qed

lemma positive_el_ok: "length tag \<le> 40 \<Longrightarrow> plain_text tag \<Longrightarrow> list_all is_element (positive_el tag v)"
  using unat_small(1)[of v] by (simp add: positive_el_def nat_el_ok)

text \<open>Fields that hold what a C variable of their type can hold.\<close>

definition c_object :: "hostinfo \<Rightarrow> bool" where
  "c_object h \<longleftrightarrow>
     list_all c_long [h_last_snmp_resptime h, h_lastcontacted h, h_contact_when h, h_lchecktime h, h_check_start h, h_deathtime h,
        h_last_up h, h_pktloss_last_check h, h_next_queuetime h] \<and>
     list_all (\<lambda>x. c_ulong (hundredths x)) [h_rtt_last_min h, h_rtt_last_avg h, h_rtt_last_max h, h_rtt_last_jitter h]"

definition c_entry :: "monitorent \<Rightarrow> bool" where
  "c_entry m \<longleftrightarrow>
     list_all c_long [fst (m_queueat m), snd (m_queueat m), fst (m_lastserv m), snd (m_lastserv m), m_filedes m, m_retval m, m_last_wakeup_time m]"

lemma fixed_el_ok:
  assumes "length tag \<le> 40" "plain_text tag" "c_ulong (hundredths x)"
  shows "is_element (fixed_el tag x)"
proof -
  have "length (dec_string (hundredths x div 100)) \<le> Suc 19"
    by (rule dec_string_length) (use assms(3) in \<open>simp add: c_ulong_def\<close>)
  moreover have "length (dec_string (hundredths x mod 100 div 10)) \<le> Suc 0" "length (dec_string (hundredths x mod 10)) \<le> Suc 0"
    by (rule dec_string_length, simp)+
  ultimately have "length (fixed2 x) < 900" by (simp add: fixed2_def del: dec_string.simps)
  moreover have "plain_text (fixed2 x)"
    using plain_dec_string by (auto simp: fixed2_def plain_append plain_Cons simp del: dec_string.simps)
  ultimately show ?thesis unfolding fixed_el_def using assms by (intro is_elementI)
qed

lemma time_el_ok:
  assumes "length tag \<le> 40" "plain_text tag" "c_long (fst t)" "c_long (snd t)"
  shows "is_element (time_el tag t)"
proof -
  have "nat \<bar>snd t\<bar> < 10 ^ Suc 19" using assms(4) by (simp add: c_long_def nat_less_iff)
  then have "length (dec_string (nat \<bar>snd t\<bar>)) \<le> Suc 19" by (rule dec_string_length)
  then have "length (pad6 (snd t)) \<le> 30"
    by (cases "snd t < 0") (simp_all add: pad6_def Let_def)
  moreover have "length (int_string (fst t)) \<le> 21"
  proof -
    have "nat \<bar>fst t\<bar> < 10 ^ Suc 19" using assms(3) by (simp add: c_long_def nat_less_iff)
    from dec_string_length[OF this] show ?thesis by (auto simp: int_string_def)
  qed
  moreover have "plain_text (pad6 (snd t))"
    using plain_dec_string[of "nat \<bar>snd t\<bar>"] by (auto simp: pad6_def Let_def plain_append plain_Cons plain_text_def[of "replicate _ _"])
  ultimately show ?thesis unfolding time_el_def using assms plain_int_string by (intro is_elementI) (simp_all add: plain_append plain_Cons)
qed

lemmas element_ok = text_el_ok opt_el_ok int_el_ok nat_el_ok positive_el_ok fixed_el_ok time_el_ok c_long_sint32 c_long_sint64
  unat_small

lemma bool_int_long [simp]: "c_long (bool_int b)" "c_long 1"
  by (simp_all add: bool_int_def c_long_def)

lemma identity_part_ok: "list_all is_element (identity_part g h)"
  unfolding identity_part_def by (simp add: element_ok plain_Cons)

lemma snmp_part_ok: "c_object h \<Longrightarrow> list_all is_element (snmp_part privileged h)"
  unfolding snmp_part_def c_object_def by (simp add: element_ok plain_Cons)

lemma secrets_part_ok: "list_all is_element (secrets_part h)" "list_all is_element (web_part h)"
  unfolding secrets_part_def web_part_def by (simp_all add: element_ok plain_Cons)

lemma counters_part_ok: "c_object h \<Longrightarrow> list_all is_element (counters_part h)"
  unfolding counters_part_def c_object_def by (simp add: element_ok plain_Cons)

lemma limits_part_ok: "list_all is_element (limits_part h)"
  unfolding limits_part_def by (simp add: element_ok plain_Cons)

lemma extended_part_ok: "c_object h \<Longrightarrow> list_all is_element (extended_part h)"
  unfolding extended_part_def c_object_def by (simp add: element_ok plain_Cons)

definition document_line :: "string \<Rightarrow> bool" where
  "document_line l \<longleftrightarrow> is_element l \<or> l = open_tag ''PacketLossHistory'' \<or> l = close_tag ''PacketLossHistory'' \<or> (\<exists>s. l = sample_line s)"

lemma document_lineI: "list_all is_element ls \<Longrightarrow> list_all document_line ls"
  by (simp add: list_all_iff document_line_def)

lemma history_part_ok: "c_ulong (l_history_count d) \<Longrightarrow> list_all document_line (history_part d)"
  unfolding history_part_def by (auto simp: Let_def list_all_iff document_line_def element_ok plain_Cons)

lemma queue_part_ok:
  assumes "c_entry m" "\<And>d. loss = Some d \<Longrightarrow> c_ulong (l_history_count d)"
  shows "list_all document_line (queue_part h m loss)"
proof -
  have "list_all is_element [time_el ''CheckQueuedAt'' (m_queueat m), time_el ''CheckLastServiced'' (m_lastserv m),
      int_el ''CheckFileDescriptor'' (m_filedes m), int_el ''CheckStarted'' (bool_int (m_started m)), int_el ''CheckReturnValue'' (m_retval m),
      nat_el ''CheckWakeupCount'' (unat (m_wakeup_count m)), int_el ''CheckLastWakeupTime'' (m_last_wakeup_time m)]"
    using assms(1) by (simp add: c_entry_def element_ok plain_Cons)
  then show ?thesis using assms(2) history_part_ok by (auto simp: queue_part_def document_line_def split: option.split)
qed

section \<open>Properties\<close>

lemma entity_length: "length (esc1 c) \<le> 6"
  by (simp add: esc1_def entity_def)

lemma escaped_length: "length (concat (map esc1 s)) \<le> 6 * length s"
proof (induction s)
  case (Cons c s)
  then show ?case using entity_length[of c] by simp
qed simp

text \<open>
  C36. Escaping loses nothing a client could display. For every text, what a reader decodes from the escaped form is the
  text without its control characters, cut at a character (never inside an entity) when the buffer is too small, and whole
  when the buffer has six bytes per character; the escaped form always fits its buffer and has no character that could end the
  element or the line.
\<close>

theorem xml_escape_exact:
  assumes "CHR 0x00 \<notin> set s" "0 < n"
  shows "(\<exists>k. unescape (xml_escape (Some s) n) = take k (filter xml_char s))
    \<and> (6 * length s < n \<longrightarrow> unescape (xml_escape (Some s) n) = filter xml_char s)
    \<and> length (xml_escape (Some s) n) < n \<and> plain_text (xml_escape (Some s) n)"
proof (intro conjI impI)
  obtain k where "escape_loop n s [] = concat (map esc1 (take k (filter xml_char s)))"
    using escape_loop_prefix[OF assms(1), of n "[]"] by auto
  then show "\<exists>k. unescape (xml_escape (Some s) n) = take k (filter xml_char s)"
    by (auto simp: xml_escape_def unescape_concat)
next
  assume "6 * length s < n"
  then have "length (concat (map esc1 (filter xml_char s))) < n"
    using escaped_length[of "filter xml_char s"] length_filter_le[of xml_char s] by linarith
  then show "unescape (xml_escape (Some s) n) = filter xml_char s"
    using escape_loop_fits[OF assms(1), of "[]" n] by (simp add: xml_escape_def unescape_concat)
qed (simp_all add: assms(2) xml_escape_length plain_xml_escape)

text \<open>The property at the text \<open>a<b\<close>.\<close>

theorem xml_escape_exact_witness: "unescape (xml_escape (Some ''a<b'') 64) = ''a<b''"
  using xml_escape_exact[of "''a<b''" 64] by (simp add: xml_char_def)

text \<open>
  An object's document is well formed whatever its names, messages and counters hold: every line is one complete
  element with escaped content, or a line of the packet loss history. No text of the configuration is cut
  inside an element and none can add one.
\<close>

theorem object_document_complete:
  assumes "c_object h" "list_all c_entry queue" "pred_option (\<lambda>d. c_ulong (l_history_count d)) (loss p)"
  shows "list_all document_line (object_lines privileged p g h queue loss)"
proof -
  have "list_all document_line (queue_part h m (loss p))" if "find (\<lambda>m. m_checkent m = p) queue = Some m" for m
    using that assms(2,3) by (intro queue_part_ok) (auto simp: find_Some_iff list_all_length)
  moreover have "list_all document_line ([int_el ''ObjectLastcheckState'' (sint (h_lastcheck h))] @ opt_el ''ObjectMessageID'' (h_lastmsgid h) @
      [text_el ''ObjectUniqueID'' (Some (h_unique_id h))])"
    by (rule document_lineI) (simp add: element_ok plain_Cons)
  ultimately show ?thesis
    using assms(1) unfolding object_lines_def
    by (auto simp: document_lineI identity_part_ok snmp_part_ok secrets_part_ok counters_part_ok limits_part_ok extended_part_ok
        split: option.split)
qed

text \<open>The property for an object named with markup.\<close>

theorem object_document_complete_witness:
  "list_all document_line (object_lines True 0
     \<lparr>g_unique_name = ''</Object>'', g_data = Some zero_host, g_deps = [], g_tot_nei = 0, g_neighbors = [], g_visit = False\<rparr> zero_host [] (\<lambda>p. None))"
  by (rule object_document_complete) (simp_all add: c_object_def zero_host_def c_long_def c_ulong_def hundredths_def)

lemma history_read:
  assumes "trap_history_wf h"
  shows "List.map_filter (\<lambda>i. trap_history_get (int i) h) [0..<trap_history_count h] = trap_held h"
proof -
  have "List.map_filter (\<lambda>i. trap_history_get (int i) h) xs = map (\<lambda>i. trap_held h ! i) xs" if "set xs \<subseteq> {..<trap_ring_count h}" for xs
    using that by (induction xs) (auto simp: trap_history_get_held[OF assms] )
  from this[of "[0..<trap_ring_count h]"] show ?thesis
    using map_nth[of "trap_held h"] by (simp add: trap_history_count_def lessThan_atLeast0)
qed

lemma newer_stamps:
  assumes "unat (trap_ring_total h) + length as < 2 ^ 64" "r \<in> set (stamps trap_history_entry trap_history_add as h)"
  shows "trap_ring_total h < r_seq r"
proof -
  obtain i where i: "i < length as" "r = stamps trap_history_entry trap_history_add as h ! i"
    using assms(2) by (auto simp: in_set_conv_nth)
  have "r_seq r = of_nat (unat (trap_ring_total h) + Suc i)" using stamps_seq[OF i(1)] i(2) by simp
  also have "unat (of_nat (unat (trap_ring_total h) + Suc i) :: u64) = unat (trap_ring_total h) + Suc i"
    using assms(1) i(1) by (intro unat_of_nat_len) simp
  ultimately show ?thesis by (simp add: word_less_nat_alt)
qed

text \<open>
  A poll for traps is a complete delta. A client that has seen everything up to the number it was told and asks again gets exactly the
  traps that arrived in between, newest first, as long as there were no more of them than the history holds.
\<close>

theorem trap_poll_complete:
  assumes "h = fold trap_history_add earlier trap_history_init" "length arrived \<le> 128"
    and "length earlier + length arrived < 2 ^ 64"
  shows "newer_traps (trap_history_total h) (fold trap_history_add arrived h) =
         rev (stamps trap_history_entry trap_history_add arrived h)"
proof -
  let ?h = "fold trap_history_add arrived h" and ?new = "rev (stamps trap_history_entry trap_history_add arrived h)"
  have wf: "trap_history_wf h" unfolding assms(1) by (rule traps.inv_adds[OF trap_history_wf_init])
  have N: "unat (trap_ring_total h) = length earlier"
    using assms(3) by (simp add: assms(1) fold_add_total trap_history_init_def unat_of_nat_len)
  have "trap_ring_count h \<le> unat (trap_ring_total h)" unfolding N by (simp add: assms(1) fold_add_count)
  note seqs = held_seqs[OF wf this]
  have old: "\<not> trap_ring_total h < r_seq r" if "r \<in> set (trap_held h)" for r
  proof -
    have "unat (r_seq r) \<in> unat ` r_seq ` set (trap_held h)" using that by blast
    then show ?thesis unfolding seqs by (simp add: word_less_nat_alt)
  qed
  have new: "trap_ring_total h < r_seq r" if "r \<in> set ?new" for r
    using that newer_stamps[of h arrived r] assms(3) N by simp
  have "newer_traps (trap_history_total h) ?h = takeWhile (\<lambda>r. trap_ring_total h < r_seq r) (trap_held ?h)"
    by (simp add: newer_traps_def history_read[OF traps.inv_adds[OF wf]] trap_history_total_def)
  also have "trap_held ?h = ?new @ take (128 - length arrived) (trap_held h)"
    using traps.held_adds[OF wf, of arrived] assms(2) by simp
  also have "takeWhile (\<lambda>r. trap_ring_total h < r_seq r) \<dots> = ?new"
    using new old by (subst takeWhile_append2) (auto simp: takeWhile_eq_Nil_iff dest!: hd_in_set in_set_takeD)
  finally show ?thesis .
qed

text \<open>The property for a first poll of one trap.\<close>

theorem trap_poll_complete_witness:
  "map r_when (newer_traps 0 (fold trap_history_add
      [\<lparr>a_source = None, a_when = 7, a_bytes = 40, a_content = None, a_matched = None, a_alert_enabled = False, a_alert_sent = False\<rparr>]
      trap_history_init)) = [7]"
  using trap_poll_complete[OF refl, of
      "[\<lparr>a_source = None, a_when = 7, a_bytes = 40, a_content = None, a_matched = None, a_alert_enabled = False, a_alert_sent = False\<rparr>]" "[]"]
  by (simp add: trap_history_total_def trap_history_init_def trap_history_entry_def)

end
