(* ===== verification/Change_Log.thy ===== *)
theory Change_Log
  imports Host_Info
begin

text \<open>
  The interface between what changes the objects (results of checks, commands of operators) and a client that keeps a copy of
  their status: every change draws numbers from one counter and leaves a fresh one on the object it alters. The client
  remembers the counter and later asks for the objects numbered above it. The locale derives, from the law of one step, that after any
  run of steps this question misses no object.
\<close>

text \<open>
  One step: it draws \<open>n\<close> numbers, at most \<open>cost\<close>, and an object it has altered for the client, or renumbered, has one of them.
\<close>

definition renumbered :: "nat \<Rightarrow> u64 \<Rightarrow> hostinfo \<Rightarrow> hostinfo \<Rightarrow> bool" where
  "renumbered n q h h' \<longleftrightarrow>
     client_view h' = client_view h \<and> h_change_seq h' = h_change_seq h \<or> (\<exists>j. 1 \<le> j \<and> j \<le> n \<and> h_change_seq h' = q + of_nat j)"

definition logged :: "nat \<Rightarrow> (nat \<Rightarrow> hostinfo option) \<Rightarrow> u64 \<Rightarrow> (nat \<Rightarrow> hostinfo option) \<Rightarrow> u64 \<Rightarrow> bool" where
  "logged cost hs q hs' q' \<longleftrightarrow>
     (\<exists>n \<le> cost. q' = q + of_nat n \<and> (\<forall>p. rel_option (renumbered n q) (hs p) (hs' p)))"

lemma renumbered_refl [simp]: "renumbered n q h h"
  by (simp add: renumbered_def)

lemma renumbered_trans:
  assumes "renumbered n q h g" "renumbered m (q + of_nat n) g h'"
  shows "renumbered (n + m) q h h'"
  using assms(2) unfolding renumbered_def[of m]
proof
  assume "client_view h' = client_view g \<and> h_change_seq h' = h_change_seq g"
  then show ?thesis using assms(1) by (auto simp: renumbered_def)
next
  assume "\<exists>j. 1 \<le> j \<and> j \<le> m \<and> h_change_seq h' = q + of_nat n + of_nat j"
  then obtain j where "1 \<le> j" "j \<le> m" "h_change_seq h' = q + of_nat n + of_nat j" by blast
  then show ?thesis unfolding renumbered_def by (intro disjI2 exI[of _ "n + j"]) (simp add: add.assoc)
qed

lemma loggedE:
  assumes "logged cost hs q hs' q'"
  obtains n where "n \<le> cost" "q' = q + of_nat n" "\<And>p. rel_option (renumbered n q) (hs p) (hs' p)"
  using assms unfolding logged_def by blast

lemma logged_refl: "logged cost hs q hs q"
  unfolding logged_def by (intro exI[of _ 0]) (simp add: option.rel_refl)

text \<open>An operation that touches one object: the rest is as it was.\<close>

lemma logged_one:
  assumes "hs p = Some h" "n \<le> cost" "renumbered n q h h'"
  shows "logged cost hs q (hs(p \<mapsto> h')) (q + of_nat n)"
  unfolding logged_def using assms by (intro exI[of _ n]) (auto intro: option.rel_refl)

lemma logged_trans:
  assumes "logged a hs q hs1 q1" "logged b hs1 q1 hs2 q2"
  shows "logged (a + b) hs q hs2 q2"
proof -
  obtain n where n: "n \<le> a" "q1 = q + of_nat n" "\<And>p. rel_option (renumbered n q) (hs p) (hs1 p)" by (rule loggedE[OF assms(1)]) blast
  obtain m where m: "m \<le> b" "q2 = q1 + of_nat m" "\<And>p. rel_option (renumbered m q1) (hs1 p) (hs2 p)" by (rule loggedE[OF assms(2)]) blast
  have "rel_option (renumbered (n + m) q) (hs p) (hs2 p)" for p
    using n(3)[of p] m(3)[of p] n(2) renumbered_trans[of n q _ _ m]
    by (cases "hs p"; cases "hs1 p"; cases "hs2 p") auto
  then show ?thesis unfolding logged_def using n m by (intro exI[of _ "n + m"]) (simp add: add.assoc)
qed

locale change_log =
  fixes hosts :: "'s \<Rightarrow> nat \<Rightarrow> hostinfo option" and seq :: "'s \<Rightarrow> u64" and step :: "'a \<Rightarrow> 's \<Rightarrow> 's" and cost :: nat
  assumes step_logged: "logged cost (hosts s) (seq s) (hosts (step a s)) (seq (step a s))"
begin

lemma run_logged: "logged (cost * length as) (hosts s) (seq s) (hosts (fold step as s)) (seq (fold step as s))"
proof (induction as arbitrary: s)
  case (Cons a as)
  from logged_trans[OF step_logged[of s a] Cons.IH[of "step a s"]] show ?case by simp
qed (simp add: logged_refl)

text \<open>An object that looks different after a run is numbered above what the counter was before it.\<close>

lemma altered_is_newer:
  assumes "unat (seq s) + cost * length as < 2 ^ 64" "hosts s p = Some h" "hosts (fold step as s) p = Some h'"
    and "client_view h' \<noteq> client_view h"
  shows "seq s < h_change_seq h' \<and> h_change_seq h' \<le> seq (fold step as s)"
proof -
  obtain n where n: "n \<le> cost * length as" "seq (fold step as s) = seq s + of_nat n"
    and law: "\<And>p. rel_option (renumbered n (seq s)) (hosts s p) (hosts (fold step as s) p)"
    by (rule loggedE[OF run_logged[of as s]]) blast
  from law[of p] have "renumbered n (seq s) h h'" using assms(2,3) by simp
  then obtain j where j: "1 \<le> j" "j \<le> n" "h_change_seq h' = seq s + of_nat j" using assms(4) by (auto simp: renumbered_def)
  have "unat (seq s + of_nat i) = unat (seq s) + i" if "i \<le> n" for i
  proof -
    have "seq s + of_nat i = of_nat (unat (seq s) + i)" by simp
    also have "unat (of_nat (unat (seq s) + i) :: u64) = unat (seq s) + i"
      using that n(1) assms(1) by (subst unat_of_nat) simp
    finally show ?thesis .
  qed
  then show ?thesis using j n by (simp add: word_less_nat_alt word_le_nat_alt)
qed

end

end
