(* ===== verification/Client_Service.thy ===== *)
theory Client_Service
  imports Client_Xml Conf_Wire Change_Log
begin

text \<open>
  The commands of the client port, srvclient.c: \<open>do_service\<close> and the handlers it calls, with \<open>print_queue\<close> of
  syswatch.c. A handler takes the client, its connection and the daemon's state and returns them. A connection
  takes a number of lines (\<open>k_room\<close>), and every later write to it fails, as on a closed stream.

  The theory shows what an unauthenticated client can do and learn, that the numbered changes of the objects are complete for a
  client that polls with \<open>CONF\<close>, and what each command answers.
\<close>

section \<open>State\<close>

record clientstatus =
  c_lastactivity :: int
  c_filedes :: int
  c_ip :: string
  c_authlvl :: int
  c_clientver :: int
  c_outage_log :: bool
  c_xml :: bool

record conn =
  k_room :: nat
  k_out :: "string list"
  k_payload :: "int \<Rightarrow> string option"

text \<open>
  The globals the handlers read and write; \<open>d_graph\<close> is the list at \<open>currenthead\<close>, and \<open>d_aborted\<close> that the process has dumped core.
\<close>

record daemon =
  d_graph :: graph
  d_change_seq :: u64
  d_queue :: "monitorent list"
  d_numqueued :: int
  d_loss :: "nat \<Rightarrow> pktloss_data option"
  d_trap_history :: trap_history
  d_dns :: dns_state
  d_box :: box
  d_confset :: "conf_entry list"
  d_paused :: bool
  d_debug :: int
  d_snmp_debug :: int
  d_stop_daemon :: bool
  d_aborted :: bool
  d_sitename :: "string option"
  d_sitedesc :: "string option"
  d_authkey :: "string option"
  d_boottime :: int

text \<open>What the handlers get from outside: the system calls, the parser, the hash, the settings of the DNS cache.\<close>

record service_env =
  v_calls :: calls
  v_parse :: parser
  v_sha256 :: "byte list \<Rightarrow> byte list"
  v_slurp :: "string \<Rightarrow> byte list option"
  v_seed :: load_result
  v_statedir :: string
  v_configfile :: string
  v_nextfd :: int
  v_dnsexpire :: int
  v_dnslog :: int

type_synonym session = "clientstatus \<times> conn \<times> daemon"

section \<open>Writing to a client\<close>

definition send_lines :: "string list \<Rightarrow> conn \<Rightarrow> conn" where
  "send_lines ls k = k\<lparr>k_out := k_out k @ take (k_room k) ls, k_room := k_room k - length ls\<rparr>"

definition reply :: "string list \<Rightarrow> session \<Rightarrow> session" where
  "reply ls = (\<lambda>(c, k, d). (c, send_lines ls k, d))"

text \<open>Lines after which the client is dropped if one of them could not be written.\<close>

definition reply_or_drop :: "string list \<Rightarrow> session \<Rightarrow> session" where
  "reply_or_drop ls = (\<lambda>(c, k, d). (if k_room k < length ls then c\<lparr>c_filedes := - 1\<rparr> else c, send_lines ls k, d))"

definition on_daemon :: "(daemon \<Rightarrow> daemon) \<Rightarrow> session \<Rightarrow> session" where
  "on_daemon f = (\<lambda>(c, k, d). (c, k, f d))"

definition set_host_at :: "nat \<Rightarrow> hostinfo \<Rightarrow> daemon \<Rightarrow> daemon" where
  "set_host_at p h d = d\<lparr>d_graph := put_host p h (d_graph d)\<rparr>"

section \<open>Status and configuration\<close>

definition stat_line :: "bool \<Rightarrow> graph_element \<Rightarrow> hostinfo \<Rightarrow> string" where
  "stat_line obj g h =
     fit 256 (if obj then g_unique_name g
       else h_hostname h @ '':'' @ int_string (h_type h) @ '':'' @ int_string (sint (h_port h)) @ '':'' @
            int_string (sint (h_lastcheck h)) @ '':'' @ int_string (sint (h_downct h)) @ '':'' @
            int_string (bool_int (h_contacted h)) @ '':'' @ int_string (h_deathtime h))"

definition send_stat_start :: "bool \<Rightarrow> graph \<Rightarrow> string list" where
  "send_stat_start obj gs =
     List.map_filter (\<lambda>g. case g_data g of None \<Rightarrow> None
        | Some h \<Rightarrow> if h_lastcheck h \<noteq> 0 then Some (stat_line obj g h) else None) gs"

text \<open>\<open>send_stat_all\<close> reports the successes in place of the page flag.\<close>

definition stat_all_line :: "bool \<Rightarrow> graph_element \<Rightarrow> hostinfo \<Rightarrow> string" where
  "stat_all_line obj g h =
     fit 256 (if obj then g_unique_name g
       else h_hostname h @ '':'' @ int_string (h_type h) @ '':'' @ int_string (sint (h_port h)) @ '':'' @
            int_string (sint (h_lastcheck h)) @ '':'' @ int_string (sint (h_downct h)) @ '':'' @
            int_string (sint (h_upct h)) @ '':'' @ int_string (h_deathtime h))"

definition send_stat_all :: "bool \<Rightarrow> graph \<Rightarrow> string list" where
  "send_stat_all obj gs = List.map_filter (\<lambda>g. map_option (stat_all_line obj g) (g_data g)) gs"

definition send_stat :: "string \<Rightarrow> session \<Rightarrow> session" where
  "send_stat buff = (\<lambda>(c, k, d).
     reply_or_drop
       ((if has_prefix ''STATAL'' buff then send_stat_all True (d_graph d)
         else if has_prefix ''STATO'' buff then send_stat_start True (d_graph d)
         else send_stat_start False (d_graph d)) @
        [if d_paused d then ''333 Paused Currently'' else ''333 Not currently Paused'']) (c, k, d))"

definition changed_objects :: "u64 \<Rightarrow> graph \<Rightarrow> nat list" where
  "changed_objects since gs =
     filter (\<lambda>p. case host_at gs p of None \<Rightarrow> False | Some h \<Rightarrow> h_change_seq h > since) [0..<length gs]"

definition object_xml :: "bool \<Rightarrow> daemon \<Rightarrow> nat \<Rightarrow> string list" where
  "object_xml privileged d p =
     (case host_at (d_graph d) p of None \<Rightarrow> []
      | Some h \<Rightarrow> send_object_xml privileged p (d_graph d ! p) h (d_queue d) (d_loss d))"

definition conf_footer :: "daemon \<Rightarrow> nat \<Rightarrow> string" where
  "conf_footer d n =
     fit TEMPBUF_SIZE (''333 '' @ dec_string (unat (d_change_seq d)) @ '' '' @ dec_string n @ '' '' @ dec_string (length (d_graph d)))"

definition send_conf :: "u64 \<Rightarrow> session \<Rightarrow> session" where
  "send_conf since = (\<lambda>(c, k, d).
     if c_authlvl c \<le> 0 then reply [''444 Permission Denied''] (c, k, d)
     else let ps = changed_objects since (d_graph d)
          in reply (concat (map (object_xml True d) ps) @ [conf_footer d (length ps)]) (c, k, d))"

section \<open>Commands on one object\<close>

abbreviation (input) not_found :: string where "not_found \<equiv> ''403 object not found''"

text \<open>The object a command names, with its data; \<open>strncpy\<close> cuts the name to the buffer.\<close>

definition named_object :: "string \<Rightarrow> daemon \<Rightarrow> (nat \<times> hostinfo) option" where
  "named_object name d =
     (case find_object_by_name (d_graph d) (Some name) of None \<Rightarrow> None
      | Some p \<Rightarrow> map_option (Pair p) (host_at (d_graph d) p))"

definition srv_client_do_trace :: "string \<Rightarrow> session \<Rightarrow> session" where
  "srv_client_do_trace buff = (\<lambda>(c, k, d).
     case named_object (fit OBJECT_NAME_SIZE (drop 6 buff)) d of
       None \<Rightarrow> reply [not_found] (c, k, d)
     | Some (p, h) \<Rightarrow>
         if \<not> h_trace h then reply [''333 tracing enabled''] (c, k, set_host_at p (h\<lparr>h_trace := True\<rparr>) d)
         else reply [''333 tracing disabled''] (c, k, set_host_at p (h\<lparr>h_trace := False\<rparr>) d))"

definition srv_client_do_showobject :: "string \<Rightarrow> session \<Rightarrow> session" where
  "srv_client_do_showobject buff = (\<lambda>(c, k, d).
     if \<not> c_xml c then reply [''403 do mode xml first''] (c, k, d)
     else case named_object (fit OBJECT_NAME_SIZE (drop 8 buff)) d of
       None \<Rightarrow> reply [not_found] (c, k, d)
     | Some (p, h) \<Rightarrow> reply (object_xml (c_authlvl c > 0) d p) (c, k, d))"

text \<open>\<open>object_changed\<close> after a change of the object.\<close>

definition changed_host :: "nat \<Rightarrow> hostinfo \<Rightarrow> daemon \<Rightarrow> daemon" where
  "changed_host p h d =
     (case object_changed (h, d_change_seq d) of (h1, q) \<Rightarrow> (set_host_at p h1 d)\<lparr>d_change_seq := q\<rparr>)"

definition do_ack_as :: "bool \<Rightarrow> string \<Rightarrow> session \<Rightarrow> session" where
  "do_ack_as acked name = (\<lambda>(c, k, d).
     if c_authlvl c \<le> 0 then reply [''444 Permission Denied''] (c, k, d)
     else if \<not> c_xml c then reply [''403 do mode xml first''] (c, k, d)
     else case named_object name d of
       None \<Rightarrow> reply [not_found] (c, k, d)
     | Some (p, h) \<Rightarrow> reply [''333 object updated''] (c, k, changed_host p (h\<lparr>h_acked := acked\<rparr>) d))"

definition do_ack :: "string \<Rightarrow> session \<Rightarrow> session" where
  "do_ack buff = do_ack_as True (fit OBJECT_NAME_SIZE (drop 4 buff))"

definition do_unack :: "string \<Rightarrow> session \<Rightarrow> session" where
  "do_unack buff = do_ack_as False (fit OBJECT_NAME_SIZE (drop 6 buff))"

text \<open>The text after the second space of the line, if it has two.\<close>

primrec note_text :: "nat \<Rightarrow> string \<Rightarrow> string option" where
  "note_text sc [] = None"
| "note_text sc (ch # cs) =
     (let n = (if ch = CHR '' '' then Suc sc else sc) in if n = 2 then Some cs else note_text n cs)"

definition do_upd :: "string \<Rightarrow> session \<Rightarrow> session" where
  "do_upd buff = (\<lambda>(c, k, d).
     if c_authlvl c \<le> 0 then reply [''444 Permission Denied''] (c, k, d)
     else case named_object (takeWhile (\<lambda>ch. ch \<noteq> CHR '' '') (fit 128 (drop 4 buff))) d of
       None \<Rightarrow> reply [not_found] (c, k, d)
     | Some (p, h) \<Rightarrow>
         (case note_text 0 buff of
            None \<Rightarrow> reply [''403 update error''] (c, k, d)
          | Some txt \<Rightarrow> reply [''333 object updated''] (c, k, changed_host p (h\<lparr>h_notes := Some txt\<rparr>) d)))"

section \<open>Commands on the session and the daemon\<close>

definition srv_client_do_mode :: "string \<Rightarrow> session \<Rightarrow> session" where
  "srv_client_do_mode buff = (\<lambda>(c, k, d).
     if drop 5 buff = ''xml'' then reply [''333 xml enabled''] (c\<lparr>c_xml := True\<rparr>, k, d)
     else if drop 5 buff = ''outagelog''
          then if \<not> c_outage_log c then reply [''333 outagelog enabled''] (c\<lparr>c_outage_log := True\<rparr>, k, d)
               else reply [''333 outagelog disabled''] (c\<lparr>c_outage_log := False\<rparr>, k, d)
     else reply [''444 unknown MODE subcommand''] (c, k, d))"

definition do_auth :: "string \<Rightarrow> session \<Rightarrow> session" where
  "do_auth buff = (\<lambda>(c, k, d).
     if d_authkey d = Some (drop 5 buff) then reply [''333 Good Authentication''] (c\<lparr>c_authlvl := 2\<rparr>, k, d)
     else reply [''444''] (c, k, d))"

definition site_name :: "daemon \<Rightarrow> string" where
  "site_name d = (case d_sitename d of None \<Rightarrow> ''local'' | Some s \<Rightarrow> s)"

definition site_desc :: "daemon \<Rightarrow> string" where
  "site_desc d = (case d_sitedesc d of None \<Rightarrow> [] | Some s \<Rightarrow> s)"

definition send_site :: "session \<Rightarrow> session" where
  "send_site = (\<lambda>(c, k, d).
     if c_xml c
     then reply [fit TEMPBUF_SIZE (tagged ''SiteName'' (site_name d)), fit TEMPBUF_SIZE (tagged ''SiteDescription'' (site_desc d)),
                 ''333 site''] (c, k, d)
     else reply [fit TEMPBUF_SIZE (''333 '' @ site_name d @ '' '' @ site_desc d)] (c, k, d))"

definition send_uptime :: "int \<Rightarrow> session \<Rightarrow> session" where
  "send_uptime now = (\<lambda>(c, k, d). reply [fit 256 (''Uptime = '' @ str_difftime_sec (d_boottime d) now)] (c, k, d))"

definition parse_since :: "string \<Rightarrow> u64" where
  "parse_since arg =
     (let a = dropWhile (\<lambda>ch. ch = CHR '' '' \<or> ch = CHR 0x09) arg
      in if a = [] \<or> no_conversion a then 0 else of_nat (strtoul a))"

definition recurs_print_q :: "graph \<Rightarrow> string list" where
  "recurs_print_q gs =
     List.map_filter (\<lambda>g. case g_data g of None \<Rightarrow> None
        | Some h \<Rightarrow> if h_queued h then Some (fit 256 (''treeQ: '' @ g_unique_name g)) else None) gs"

definition print_queue :: "session \<Rightarrow> session" where
  "print_queue = (\<lambda>(c, k, d).
     reply (recurs_print_q (d_graph d) @
            [fit 256 (''Number of elements in queue count: '' @ int_string (d_numqueued d))]) (c, k, d))"

text \<open>The commands that change the configuration, Conf_Wire.\<close>

definition reply_box :: "string list \<times> box \<Rightarrow> session \<Rightarrow> session" where
  "reply_box = (\<lambda>(ls, b) (c, k, d). reply ls (c, k, d\<lparr>d_box := b\<rparr>))"

definition config_command :: "service_env \<Rightarrow> string \<Rightarrow> session \<Rightarrow> session" where
  "config_command v buff = (\<lambda>(c, k, d).
     if has_prefix ''CONFIG-ROLLBACK'' buff
     then reply_box (confgen_do_rollback (v_calls v) (v_parse v) (v_sha256 v) (d_box d)) (c, k, d)
     else if has_prefix ''CONFIG-REVERT'' buff
     then reply_box (confgen_do_revert (v_calls v) (v_seed v) (v_statedir v) (v_configfile v) (d_box d)) (c, k, d)
     else if has_prefix ''CONFIG-PUT '' buff
     then reply_box (confgen_receive (v_calls v) (v_parse v) (v_sha256 v) (v_statedir v) (v_configfile v) (k_payload k)
                       (Some (drop 11 buff)) (d_box d)) (c, k, d)
     else if has_prefix ''CONFIG-GEN'' buff
     then reply [confgen_report (v_sha256 v) (v_slurp v) (d_confset d) (b_running (d_box d))] (c, k, d)
     else if has_prefix ''CONFIG-GET'' buff
     then reply (confgen_send (v_sha256 v) (v_slurp v) (k_room k) (d_confset d) (b_running (d_box d))) (c, k, d)
     else reply [''403 - config management needs the authkey''] (c, k, d))"

definition toggled :: "int \<Rightarrow> int" where
  "toggled x = (if x = 1 then 0 else 1)"

definition send_quit :: "session \<Rightarrow> session" where
  "send_quit s = (case reply [''333 Good Bye, please come again''] s of (c, k, d) \<Rightarrow> (c\<lparr>c_filedes := - 1\<rparr>, k, d))"

definition do_service :: "service_env \<Rightarrow> int \<Rightarrow> string \<Rightarrow> session \<Rightarrow> session" where
  "do_service v now buff = (\<lambda>(c, k, d).
     let s = (c, k, d); full = c_authlvl c > 1 in
     if has_prefix ''STAT'' buff then send_stat buff s
     else if has_prefix ''UPTIME'' buff then send_uptime now s
     else if has_prefix ''NFD'' buff \<and> full
     then reply [fit 256 (int_string (v_nextfd v) @ '' is the next FD- '' @ int_string (d_numqueued d) @ '' queued''),
                 ''what do you think about that?''] s
     else if has_prefix ''ABORT'' buff \<and> full then on_daemon (d_aborted_update (\<lambda>_. True)) s
     else if has_prefix ''KILLIT'' buff \<and> full then on_daemon (d_stop_daemon_update (\<lambda>_. True)) s
     else if has_prefix ''QUIT'' buff then send_quit s
     else if has_prefix ''SNMPD'' buff \<and> full
     then reply [''Toggled snmp debugging''] (on_daemon (d_snmp_debug_update toggled) s)
     else if has_prefix ''DEBUG'' buff \<and> full
     then reply [''Toggled debugging''] (on_daemon (d_debug_update toggled) s)
     else if has_prefix ''CONFIG-'' buff
     then (if full then config_command v buff s else reply [''403 - config management needs the authkey''] s)
     else if has_prefix ''CONF'' buff then send_conf (parse_since (drop 4 buff)) s
     else if has_prefix ''EXPIREDNS'' buff \<and> full
     then on_daemon (d_dns_update (\<lambda>st. fst (expire_dns (v_dnsexpire v) (v_dnslog v) now st))) s
     else if has_prefix ''PRINTQ'' buff \<and> full then print_queue s
     else if has_prefix ''VERS'' buff then reply [''v0.94''] s
     else if has_prefix ''MODE'' buff then srv_client_do_mode buff s
     else if has_prefix ''NOOP'' buff then reply [''333 noop''] s
     else if has_prefix ''SHOWOBJ '' buff then srv_client_do_showobject buff s
     else if has_prefix ''TRACE '' buff then srv_client_do_trace buff s
     else if has_prefix ''SITE'' buff then send_site s
     else if has_prefix ''TRAPS'' buff
     then reply_or_drop (send_traps (c_xml c) (c_authlvl c > 0) (parse_since (drop 5 buff)) (d_trap_history d)) s
     else if has_prefix ''AUTH'' buff then do_auth buff s
     else if has_prefix ''UPD '' buff then do_upd buff s
     else if has_prefix ''ACK '' buff then do_ack buff s
     else if has_prefix ''UNACK '' buff then do_unack buff s
     else if has_prefix ''GET '' buff then s
     else reply_or_drop [''444 - Unk''] s)"

section \<open>What an unauthenticated client can change\<close>

lemma reply_simps [simp]: "reply ls (c, k, d) = (c, send_lines ls k, d)" "on_daemon f (c, k, d) = (c, k, f d)"
  by (simp_all add: reply_def on_daemon_def)

lemma reply_or_drop_simp [simp]:
  "reply_or_drop ls (c, k, d) = (if k_room k < length ls then c\<lparr>c_filedes := - 1\<rparr> else c, send_lines ls k, d)"
  by (simp add: reply_or_drop_def)

text \<open>The trace flags aside, which \<open>TRACE\<close> turns on and off for anyone.\<close>

definition untraced :: "daemon \<Rightarrow> daemon" where
  "untraced d = d\<lparr>d_graph := map (\<lambda>g. g\<lparr>g_data := map_option (\<lambda>h. h\<lparr>h_trace := False\<rparr>) (g_data g)\<rparr>) (d_graph d)\<rparr>"

lemma named_object_host: "named_object name d = Some (p, h) \<Longrightarrow> host_at (d_graph d) p = Some h"
  by (auto simp: named_object_def split: option.splits)

lemma untraced_set_host:
  assumes "host_at (d_graph d) p = Some h"
  shows "untraced (set_host_at p (h\<lparr>h_trace := b\<rparr>) d) = untraced d"
proof -
  have p: "p < length (d_graph d)" "g_data (d_graph d ! p) = Some h" using assms by (auto simp: host_at_def split: if_splits)
  let ?f = "\<lambda>g. g\<lparr>g_data := map_option (\<lambda>h. h\<lparr>h_trace := False\<rparr>) (g_data g)\<rparr>"
  have "?f ((d_graph d ! p)\<lparr>g_data := Some (h\<lparr>h_trace := b\<rparr>)\<rparr>) = ?f (d_graph d ! p)" using p(2) by simp
  then have "map ?f (put_host p (h\<lparr>h_trace := b\<rparr>) (d_graph d)) = map ?f (d_graph d)"
    using p(1) by (simp add: put_host_def map_update list_update_same_conv)
  then show ?thesis by (simp add: untraced_def set_host_at_def)
qed

text \<open>What a step of an unauthenticated client may do: \<open>keyed\<close> says that it presented the key.\<close>

definition harmless :: "bool \<Rightarrow> session \<Rightarrow> session \<Rightarrow> bool" where
  "harmless keyed s t \<longleftrightarrow> untraced (snd (snd t)) = untraced (snd (snd s)) \<and> (c_authlvl (fst t) = c_authlvl (fst s) \<or> keyed)"

lemma harmless_trace: "harmless keyed (c, k, d) (srv_client_do_trace buff (c, k, d))"
  by (auto simp: harmless_def srv_client_do_trace_def untraced_set_host dest!: named_object_host split: option.splits)

lemma harmless_reply:
  "harmless keyed (c, k, d) (c, k', d)" "harmless keyed (c, k, d) (reply ls (c, k, d))" "harmless keyed (c, k, d) (reply_or_drop ls (c, k, d))"
  by (simp_all add: harmless_def)

lemma harmless_handlers:
  assumes "c_authlvl c \<le> 0"
  shows "harmless keyed (c, k, d) (send_stat buff (c, k, d))" "harmless keyed (c, k, d) (send_uptime now (c, k, d))"
    "harmless keyed (c, k, d) (send_quit (c, k, d))" "harmless keyed (c, k, d) (send_conf since (c, k, d))"
    "harmless keyed (c, k, d) (srv_client_do_mode buff (c, k, d))" "harmless keyed (c, k, d) (srv_client_do_showobject buff (c, k, d))"
    "harmless keyed (c, k, d) (send_site (c, k, d))" "harmless keyed (c, k, d) (do_upd buff (c, k, d))"
    "harmless keyed (c, k, d) (do_ack buff (c, k, d))" "harmless keyed (c, k, d) (do_unack buff (c, k, d))"
  using assms
  by (simp_all add: harmless_def send_stat_def send_uptime_def send_quit_def send_conf_def srv_client_do_mode_def
      srv_client_do_showobject_def send_site_def do_upd_def do_ack_def do_unack_def do_ack_as_def split: option.split)

lemma harmless_auth: "keyed = (d_authkey d = Some (drop 5 buff)) \<Longrightarrow> harmless keyed (c, k, d) (do_auth buff (c, k, d))"
  by (simp add: harmless_def do_auth_def)

text \<open>The dispatch as it is for a client without the key.\<close>

lemma open_service:
  assumes "c_authlvl c \<le> 0"
  shows "do_service v now buff (c, k, d) =
    (let s = (c, k, d) in
     if has_prefix ''STAT'' buff then send_stat buff s
     else if has_prefix ''UPTIME'' buff then send_uptime now s
     else if has_prefix ''QUIT'' buff then send_quit s
     else if has_prefix ''CONFIG-'' buff then reply [''403 - config management needs the authkey''] s
     else if has_prefix ''CONF'' buff then send_conf (parse_since (drop 4 buff)) s
     else if has_prefix ''VERS'' buff then reply [''v0.94''] s
     else if has_prefix ''MODE'' buff then srv_client_do_mode buff s
     else if has_prefix ''NOOP'' buff then reply [''333 noop''] s
     else if has_prefix ''SHOWOBJ '' buff then srv_client_do_showobject buff s
     else if has_prefix ''TRACE '' buff then srv_client_do_trace buff s
     else if has_prefix ''SITE'' buff then send_site s
     else if has_prefix ''TRAPS'' buff
     then reply_or_drop (send_traps (c_xml c) False (parse_since (drop 5 buff)) (d_trap_history d)) s
     else if has_prefix ''AUTH'' buff then do_auth buff s
     else if has_prefix ''UPD '' buff then do_upd buff s
     else if has_prefix ''ACK '' buff then do_ack buff s
     else if has_prefix ''UNACK '' buff then do_unack buff s
     else if has_prefix ''GET '' buff then s
     else reply_or_drop [''444 - Unk''] s)"
  using assms unfolding do_service_def by (simp add: Let_def del: reply_simps reply_or_drop_simp)

lemma harmless_service:
  assumes "c_authlvl c \<le> 0"
  shows "harmless (has_prefix ''AUTH'' buff \<and> d_authkey d = Some (drop 5 buff)) (c, k, d) (do_service v now buff (c, k, d))"
  unfolding open_service[OF assms] Let_def
  by (simp add: harmless_handlers[OF assms] harmless_reply harmless_trace harmless_auth
      del: reply_simps reply_or_drop_simp split: if_split)

text \<open>
  C6. Authorisation. A command from a client that has not authenticated leaves the daemon as it was, the trace flags of the objects aside;
  and the only way to be authenticated after it is an \<open>AUTH\<close> line with the configured key.
\<close>

theorem unauthenticated_harmless:
  assumes "c_authlvl c \<le> 0" "do_service v now buff (c, k, d) = (c', k', d')"
  shows "untraced d' = untraced d
    \<and> (c_authlvl c' = c_authlvl c \<or> has_prefix ''AUTH'' buff \<and> d_authkey d = Some (drop 5 buff))"
  using harmless_service[OF assms(1), of buff d k v now] by (simp add: assms(2) harmless_def)

section \<open>What an unauthenticated client can learn\<close>

definition public_element :: "graph_element \<Rightarrow> graph_element" where
  "public_element g = g\<lparr>g_data := map_option public_host (g_data g)\<rparr>"

text \<open>
  Two daemons that differ at most in what is secret: the credentials of the objects and of the traps, the key, the configuration
  files and generations, the DNS cache and the internal counters.
\<close>

definition same_history :: "trap_history \<Rightarrow> trap_history \<Rightarrow> bool" where
  "same_history a b \<longleftrightarrow> trap_history_wf a \<and> trap_history_wf b \<and>
     map public_trap (trap_ring a) = map public_trap (trap_ring b) \<and> trap_ring_count a = trap_ring_count b \<and> trap_ring_next a = trap_ring_next b \<and> trap_ring_total a = trap_ring_total b"

definition same_public :: "daemon \<Rightarrow> daemon \<Rightarrow> bool" where
  "same_public a b \<longleftrightarrow>
     map public_element (d_graph a) = map public_element (d_graph b) \<and> d_change_seq a = d_change_seq b \<and> d_queue a = d_queue b \<and>
     d_loss a = d_loss b \<and> same_history (d_trap_history a) (d_trap_history b) \<and> d_paused a = d_paused b \<and>
     d_sitename a = d_sitename b \<and> d_sitedesc a = d_sitedesc b \<and> d_boottime a = d_boottime b"

definition indistinct :: "session \<Rightarrow> session \<Rightarrow> bool" where
  "indistinct s t \<longleftrightarrow> fst s = fst t \<and> fst (snd s) = fst (snd t) \<and> same_public (snd (snd s)) (snd (snd t))"

lemma public_element_sel [simp]:
  "g_unique_name (public_element g) = g_unique_name g" "g_data (public_element g) = map_option public_host (g_data g)"
  by (simp_all add: public_element_def)

lemma map_filter_public:
  assumes "\<And>g. F (public_element g) = F g" "map public_element a = map public_element b"
  shows "List.map_filter F a = List.map_filter F b"
proof -
  have "List.map_filter F xs = List.map_filter F (map public_element xs)" for xs by (induction xs) (simp_all add: assms(1) split: option.split)
  then show ?thesis by (metis assms(2))
qed

lemma stat_line_public:
  "stat_line obj (public_element g) (public_host h) = stat_line obj g h"
  "stat_all_line obj (public_element g) (public_host h) = stat_all_line obj g h"
  by (simp_all add: stat_line_def stat_all_line_def public_host_def)

lemma stat_public:
  assumes "map public_element a = map public_element b"
  shows "send_stat_start obj a = send_stat_start obj b" "send_stat_all obj a = send_stat_all obj b"
  unfolding send_stat_start_def send_stat_all_def
  by (rule map_filter_public[OF _ assms]; simp add: stat_line_public map_option_case split: option.split)+

lemma find_name_public: "find_name name (map public_element gs) = find_name name gs"
  by (induction gs) simp_all

lemma host_at_public: "host_at (map public_element gs) p = map_option public_host (host_at gs p)"
  by (simp add: host_at_def)

lemma host_at_length: "host_at gs p = Some h \<Longrightarrow> p < length gs"
  by (simp add: host_at_def split: if_splits)

lemma named_object_public:
  assumes "map public_element (d_graph a) = map public_element (d_graph b)"
  obtains "named_object name a = None" "named_object name b = None"
  | p h h' where "named_object name a = Some (p, h)" "named_object name b = Some (p, h')" "public_host h = public_host h'"
proof -
  have f: "find_name name (d_graph a) = find_name name (d_graph b)" using assms find_name_public by metis
  have h: "map_option public_host (host_at (d_graph a) p) = map_option public_host (host_at (d_graph b) p)" for p
    using assms host_at_public by metis
  show thesis
  proof (cases "find_name name (d_graph b)")
    case None
    then show thesis using that(1) f by (simp add: named_object_def find_object_by_name_def)
  next
    case (Some p)
    then show thesis using that h[of p] f
      by (cases "host_at (d_graph a) p"; cases "host_at (d_graph b) p") (simp_all add: named_object_def find_object_by_name_def)
  qed
qed

lemma object_xml_public:
  assumes "map public_element (d_graph a) = map public_element (d_graph b)" "d_queue a = d_queue b" "d_loss a = d_loss b"
  shows "object_xml False a p = object_xml False b p"
proof -
  have xml: "send_object_xml False p (public_element g) (public_host h) q l = send_object_xml False p g h q l" for g h q l
    unfolding send_object_public by (simp add: send_object_xml_def object_lines_def identity_part_def)
  have "object_xml False x p = (case host_at (map public_element (d_graph x)) p of None \<Rightarrow> []
      | Some h \<Rightarrow> send_object_xml False p (map public_element (d_graph x) ! p) h (d_queue x) (d_loss x))" for x
    by (auto simp: object_xml_def host_at_public xml dest!: host_at_length split: option.split)
  then show ?thesis by (simp only: assms)
qed

lemma traps_public:
  assumes "same_history a b"
  shows "send_traps xml False since a = send_traps xml False since b"
proof -
  note wf = assms[unfolded same_history_def]
  have slot: "ring_slot 128 n i < 128" for n i by (rule ring_slot_less) simp
  have "map public_trap (trap_held x) = ring_view 128 (map public_trap (trap_ring x)) (trap_ring_next x) (trap_ring_count x)"
    if "trap_history_wf x" for x
    using that slot by (simp add: trap_held_def ring_view_def trap_history_wf_def)
  then have held: "map public_trap (trap_held a) = map public_trap (trap_held b)" using wf by simp
  have "map public_trap (newer_traps since x) = takeWhile (\<lambda>r. since < r_seq r) (map public_trap (trap_held x))" if "trap_history_wf x" for x
    by (simp add: newer_traps_def history_read[OF that] takeWhile_map comp_def public_trap_def)
  then have new: "map public_trap (newer_traps since a) = map public_trap (newer_traps since b)" using wf held by simp
  have "map F (newer_traps since a) = map F (newer_traps since b)" if "\<And>r. F (public_trap r) = F r" for F :: "trap_record \<Rightarrow> 'x"
    using arg_cong[OF new, of "map F"] that by (simp add: comp_def)
  then have lines: "map trap_summary (newer_traps since a) = map trap_summary (newer_traps since b)"
    "map (trap_lines False) (newer_traps since a) = map (trap_lines False) (newer_traps since b)"
    using trap_summary_public trap_lines_public by blast+
  have "length (newer_traps since a) = length (newer_traps since b)" using new map_eq_imp_length_eq by blast
  moreover have "trap_footer a n = trap_footer b n" for n
    using wf by (simp add: trap_footer_def trap_history_total_def oldest_seq_eq)
  ultimately show ?thesis using wf lines by (simp add: send_traps_def Let_def trap_history_count_def)
qed

lemma indistinctI: "same_public a b \<Longrightarrow> indistinct (c, k, a) (c, k, b)"
  by (simp add: indistinct_def)

lemma public_trace: "public_host (h\<lparr>h_trace := x\<rparr>) = (public_host h)\<lparr>h_trace := x\<rparr>"
  unfolding public_host_def by (rule hostinfo.equality) simp_all

lemma indistinct_trace:
  assumes "same_public a b"
  shows "indistinct (srv_client_do_trace buff (c, k, a)) (srv_client_do_trace buff (c, k, b))"
proof -
  have g: "map public_element (d_graph a) = map public_element (d_graph b)" using assms by (simp add: same_public_def)
  show ?thesis
  proof (cases rule: named_object_public[OF g, of "fit OBJECT_NAME_SIZE (drop 6 buff)"])
    case 1
    then show ?thesis using assms by (simp add: srv_client_do_trace_def indistinct_def)
  next
    case (2 p h h')
    have p: "p < length (d_graph a)" "p < length (d_graph b)" using 2 host_at_length named_object_host by blast+
    have t: "h_trace h = h_trace h'" using arg_cong[OF 2(3), of h_trace] by (simp add: public_host_def)
    have "map public_element (put_host p (h\<lparr>h_trace := x\<rparr>) (d_graph a)) = map public_element (put_host p (h'\<lparr>h_trace := x\<rparr>) (d_graph b))" for x
    proof -
      have e: "public_element (d_graph a ! p) = public_element (d_graph b ! p)"
        using arg_cong[OF g, of "\<lambda>xs. xs ! p"] p by simp
      have u: "public_host (h\<lparr>h_trace := x\<rparr>) = public_host (h'\<lparr>h_trace := x\<rparr>)"
        by (simp add: public_trace 2(3))
      have "public_element (gg\<lparr>g_data := Some y\<rparr>) = (public_element gg)\<lparr>g_data := Some (public_host y)\<rparr>" for gg y
        by (simp add: public_element_def)
      then show ?thesis using e u g by (simp add: put_host_def map_update)
    qed
    then show ?thesis using assms 2 t
      by (simp add: srv_client_do_trace_def indistinct_def same_public_def set_host_at_def)
  qed
qed

lemma indistinct_showobject:
  assumes "same_public a b" "c_authlvl c \<le> 0"
  shows "indistinct (srv_client_do_showobject buff (c, k, a)) (srv_client_do_showobject buff (c, k, b))"
proof -
  have g: "map public_element (d_graph a) = map public_element (d_graph b)" using assms by (simp add: same_public_def)
  have x: "object_xml False a p = object_xml False b p" for p
    using assms(1) by (intro object_xml_public) (simp_all add: same_public_def)
  show ?thesis
    using assms x by (cases rule: named_object_public[OF g, of "fit OBJECT_NAME_SIZE (drop 8 buff)"])
      (simp_all add: srv_client_do_showobject_def indistinct_def)
qed

lemma indistinct_handlers:
  assumes "same_public a b" "c_authlvl c \<le> 0"
  shows "indistinct (send_stat buff (c, k, a)) (send_stat buff (c, k, b))" "indistinct (send_uptime now (c, k, a)) (send_uptime now (c, k, b))"
    "indistinct (send_quit (c, k, a)) (send_quit (c, k, b))" "indistinct (send_conf since (c, k, a)) (send_conf since (c, k, b))"
    "indistinct (srv_client_do_mode buff (c, k, a)) (srv_client_do_mode buff (c, k, b))" "indistinct (send_site (c, k, a)) (send_site (c, k, b))"
    "indistinct (do_upd buff (c, k, a)) (do_upd buff (c, k, b))" "indistinct (do_ack buff (c, k, a)) (do_ack buff (c, k, b))"
    "indistinct (do_unack buff (c, k, a)) (do_unack buff (c, k, b))"
proof -
  have g: "map public_element (d_graph a) = map public_element (d_graph b)" using assms by (simp add: same_public_def)
  have p: "d_paused a = d_paused b" "d_boottime a = d_boottime b" "site_name a = site_name b" "site_desc a = site_desc b"
    using assms by (simp_all add: same_public_def site_name_def site_desc_def)
  show "indistinct (send_stat buff (c, k, a)) (send_stat buff (c, k, b))"
    using assms(1) by (simp add: send_stat_def indistinct_def stat_public[OF g] p)
  show "indistinct (srv_client_do_mode buff (c, k, a)) (srv_client_do_mode buff (c, k, b))"
    using assms(1) by (simp add: srv_client_do_mode_def indistinct_def)
qed (use assms in \<open>simp_all add: send_uptime_def send_quit_def send_conf_def send_site_def do_upd_def do_ack_def do_unack_def do_ack_as_def
    indistinct_def same_public_def site_name_def site_desc_def\<close>)

lemma indistinct_auth:
  assumes "same_public a b" "(d_authkey a = Some (drop 5 buff)) = (d_authkey b = Some (drop 5 buff))"
  shows "indistinct (do_auth buff (c, k, a)) (do_auth buff (c, k, b))"
  using assms by (simp add: do_auth_def indistinct_def)

lemma indistinct_reply:
  assumes "same_public a b"
  shows "indistinct (reply ls (c, k, a)) (reply ls (c, k, b))" "indistinct (reply_or_drop ls (c, k, a)) (reply_or_drop ls (c, k, b))"
  using assms by (simp_all add: indistinct_def)

lemma indistinct_traps:
  assumes "same_public a b"
  shows "indistinct (reply_or_drop (send_traps xml False since (d_trap_history a)) (c, k, a))
     (reply_or_drop (send_traps xml False since (d_trap_history b)) (c, k, b))"
proof -
  have "send_traps xml False since (d_trap_history a) = send_traps xml False since (d_trap_history b)"
    by (rule traps_public) (use assms in \<open>simp add: same_public_def\<close>)
  then show ?thesis using indistinct_reply[OF assms] by metis
qed

lemma indistinct_service:
  assumes "same_public a b" "c_authlvl c \<le> 0"
    and "has_prefix ''AUTH'' buff \<Longrightarrow> (d_authkey a = Some (drop 5 buff)) = (d_authkey b = Some (drop 5 buff))"
  shows "indistinct (do_service v now buff (c, k, a)) (do_service w now buff (c, k, b))"
  unfolding open_service[OF assms(2)] Let_def
  by (simp add: indistinct_handlers[OF assms(1,2)] indistinct_reply[OF assms(1)] indistinct_trace[OF assms(1)]
      indistinct_showobject[OF assms(1,2)] indistinct_auth[OF assms(1,3)] indistinct_traps[OF assms(1)] indistinctI[OF assms(1)]
      del: reply_simps reply_or_drop_simp split: if_split)

subsection \<open>Whole sessions\<close>

text \<open>
  The interface of an observer: if every step that is \<open>quiet\<close> keeps two states alike, so does every run of quiet steps.
\<close>

locale unwinding =
  fixes step :: "'a \<Rightarrow> 's \<Rightarrow> 's" and alike :: "'s \<Rightarrow> 's \<Rightarrow> bool" and quiet :: "'a \<Rightarrow> bool"
  assumes step_alike: "alike s t \<Longrightarrow> quiet a \<Longrightarrow> alike (step a s) (step a t)"
begin

lemma run_alike: "alike s t \<Longrightarrow> list_all quiet as \<Longrightarrow> alike (fold step as s) (fold step as t)"
  by (induction as arbitrary: s t) (simp_all add: step_alike)

end

text \<open>A line of a session; once the client has been dropped its lines are not read any more.\<close>

definition session_step :: "int \<times> string \<Rightarrow> service_env \<times> session \<Rightarrow> service_env \<times> session" where
  "session_step = (\<lambda>(now, buff) (v, s). (v, if c_filedes (fst s) = - 1 then s else do_service v now buff s))"

definition run_session :: "service_env \<Rightarrow> (int \<times> string) list \<Rightarrow> session \<Rightarrow> session" where
  "run_session v ls s = snd (fold session_step ls (v, s))"

text \<open>Neither daemon takes the line for its key.\<close>

definition keyless :: "string option \<Rightarrow> string option \<Rightarrow> int \<times> string \<Rightarrow> bool" where
  "keyless key1 key2 = (\<lambda>(now, buff). \<not> (has_prefix ''AUTH'' buff \<and> (key1 = Some (drop 5 buff) \<or> key2 = Some (drop 5 buff))))"

definition alike_sessions :: "string option \<Rightarrow> string option \<Rightarrow> service_env \<times> session \<Rightarrow> service_env \<times> session \<Rightarrow> bool" where
  "alike_sessions key1 key2 x y \<longleftrightarrow> indistinct (snd x) (snd y) \<and> c_authlvl (fst (snd x)) \<le> 0 \<and>
     d_authkey (snd (snd (snd x))) = key1 \<and> d_authkey (snd (snd (snd y))) = key2"

lemma open_result:
  assumes "c_authlvl c \<le> 0" "\<not> (has_prefix ''AUTH'' buff \<and> d_authkey d = Some (drop 5 buff))"
  shows "c_authlvl (fst (do_service v now buff (c, k, d))) \<le> 0" "d_authkey (snd (snd (do_service v now buff (c, k, d)))) = d_authkey d"
proof -
  let ?t = "do_service v now buff (c, k, d)"
  have h: "harmless (has_prefix ''AUTH'' buff \<and> d_authkey d = Some (drop 5 buff)) (c, k, d) ?t" by (rule harmless_service[OF assms(1)])
  then show "c_authlvl (fst ?t) \<le> 0" using assms by (simp add: harmless_def)
  have "d_authkey (untraced x) = d_authkey x" for x by (simp add: untraced_def)
  then show "d_authkey (snd (snd ?t)) = d_authkey d" using h unfolding harmless_def by (metis snd_conv)
qed

interpretation port: unwinding session_step "alike_sessions key1 key2" "keyless key1 key2" for key1 key2
proof
  fix x y :: "service_env \<times> session" and a :: "int \<times> string"
  assume al: "alike_sessions key1 key2 x y" and q: "keyless key1 key2 a"
  obtain now buff v c k d w c2 k2 e where x: "a = (now, buff)" "x = (v, c, k, d)" "y = (w, c2, k2, e)" by (metis prod.collapse)
  have same: "c2 = c" "k2 = k" "same_public d e" "c_authlvl c \<le> 0" "d_authkey d = key1" "d_authkey e = key2"
    using al by (auto simp: alike_sessions_def indistinct_def x)
  have nokey: "\<not> (has_prefix ''AUTH'' buff \<and> d_authkey d = Some (drop 5 buff))" "\<not> (has_prefix ''AUTH'' buff \<and> d_authkey e = Some (drop 5 buff))"
    using q same by (auto simp: keyless_def x)
  have "indistinct (do_service v now buff (c, k, d)) (do_service w now buff (c, k, e))"
    by (rule indistinct_service[OF same(3,4)]) (use nokey in blast)
  then show "alike_sessions key1 key2 (session_step a x) (session_step a y)"
    using al same open_result[OF same(4) nokey(1)] open_result[OF same(4) nokey(2)]
    by (simp add: session_step_def x alike_sessions_def)
qed

text \<open>
  C5. Confidentiality. Over a whole session without the key, a client receives exactly the same lines from two daemons that differ only in what is
  secret: the credentials of the objects (SNMP communities, names and passwords, headers, RADIUS secrets, URLs, commands), the
  communities of the traps, the key, the configuration files with their generations, the DNS cache, and everything the
  environment of the configuration commands holds.
\<close>

theorem secrets_not_observable:
  assumes "same_public d e" "c_authlvl c \<le> 0" "list_all (keyless (d_authkey d) (d_authkey e)) ls"
  shows "k_out (fst (snd (run_session v ls (c, k, d)))) = k_out (fst (snd (run_session w ls (c, k, e))))"
proof -
  have "alike_sessions (d_authkey d) (d_authkey e) (v, c, k, d) (w, c, k, e)"
    using assms(1,2) by (simp add: alike_sessions_def indistinct_def)
  from port.run_alike[OF this assms(3)] show ?thesis by (simp add: alike_sessions_def indistinct_def run_session_def)
qed

section \<open>Polling for changes\<close>

text \<open>What alters the objects of a running daemon: commands of the clients and results of checks.\<close>

datatype event = Command service_env clientstatus conn int string | Result page_env string int int nat

definition apply_event :: "event \<Rightarrow> daemon \<Rightarrow> daemon" where
  "apply_event ev d =
     (case ev of
        Command v c k now buff \<Rightarrow> snd (snd (do_service v now buff (c, k, d)))
      | Result e nm retval now p \<Rightarrow>
          (case host_at (d_graph d) p of None \<Rightarrow> d
           | Some h \<Rightarrow> (case handle_retval e nm retval now (h, d_change_seq d) of
               (h', q, _) \<Rightarrow> (set_host_at p h' d)\<lparr>d_change_seq := q\<rparr>)))"

definition event_logged :: "daemon \<Rightarrow> daemon \<Rightarrow> bool" where
  "event_logged d e \<longleftrightarrow> logged 4 (host_at (d_graph d)) (d_change_seq d) (host_at (d_graph e)) (d_change_seq e)"

lemma event_logged_same: "d_graph e = d_graph d \<Longrightarrow> d_change_seq e = d_change_seq d \<Longrightarrow> event_logged d e"
  by (simp add: event_logged_def logged_refl)

lemma host_map_put: "host_at gs p = Some h \<Longrightarrow> host_at (put_host p h' gs) = (host_at gs)(p \<mapsto> h')"
  by (auto simp: host_at_def put_host_def fun_eq_iff nth_list_update split: if_splits)

lemma event_logged_host:
  assumes "host_at (d_graph d) p = Some h" "renumbered n (d_change_seq d) h h'" "n \<le> 4" "d_change_seq e = d_change_seq d + of_nat n"
    and "d_graph e = put_host p h' (d_graph d)"
  shows "event_logged d e"
  unfolding event_logged_def assms(4,5) host_map_put[OF assms(1)]
  by (rule logged_one[where hs = "host_at (d_graph d)", OF assms(1,3,2)])

lemma event_logged_changed:
  assumes "named_object name d = Some (p, h)"
  shows "event_logged d (changed_host p h' d)"
  by (rule event_logged_host[OF named_object_host[OF assms], of 1 "h'\<lparr>h_change_seq := d_change_seq d + 1\<rparr>"])
     (auto simp: changed_host_def object_changed_def renumbered_def set_host_at_def)

lemma event_logged_trace: "event_logged d (snd (snd (srv_client_do_trace buff (c, k, d))))"
proof (cases "named_object (fit OBJECT_NAME_SIZE (drop 6 buff)) d")
  case (Some x)
  obtain p h where x: "x = (p, h)" by (cases x)
  have "event_logged d (set_host_at p (h\<lparr>h_trace := b\<rparr>) d)" for b
    by (rule event_logged_host[OF named_object_host[OF Some[unfolded x]], of 0 "h\<lparr>h_trace := b\<rparr>"])
       (simp_all add: renumbered_def client_view_def set_host_at_def)
  then show ?thesis by (simp add: srv_client_do_trace_def Some x)
qed (simp add: srv_client_do_trace_def event_logged_same)

lemma event_logged_handlers:
  "event_logged d (snd (snd (send_stat buff (c, k, d))))" "event_logged d (snd (snd (send_uptime now (c, k, d))))"
  "event_logged d (snd (snd (send_quit (c, k, d))))" "event_logged d (snd (snd (send_conf since (c, k, d))))"
  "event_logged d (snd (snd (srv_client_do_mode buff (c, k, d))))" "event_logged d (snd (snd (srv_client_do_showobject buff (c, k, d))))"
  "event_logged d (snd (snd (send_site (c, k, d))))" "event_logged d (snd (snd (do_auth buff (c, k, d))))"
  "event_logged d (snd (snd (print_queue (c, k, d))))" "event_logged d (snd (snd (config_command v buff (c, k, d))))"
  by (simp_all add: send_stat_def send_uptime_def send_quit_def send_conf_def srv_client_do_mode_def srv_client_do_showobject_def
      send_site_def do_auth_def print_queue_def config_command_def reply_box_def Let_def event_logged_same split_beta split: option.split)

lemma event_logged_updates:
  "event_logged d (snd (snd (do_ack buff (c, k, d))))" "event_logged d (snd (snd (do_unack buff (c, k, d))))"
  "event_logged d (snd (snd (do_upd buff (c, k, d))))"
  by (auto simp: do_ack_def do_unack_def do_ack_as_def do_upd_def event_logged_same intro: event_logged_changed split: option.split)

lemma event_logged_replies:
  "event_logged d (snd (snd (reply ls (c, k, d))))" "event_logged d (snd (snd (reply_or_drop ls (c, k, d))))"
  "event_logged d (snd (snd (on_daemon (d_aborted_update f) (c, k, d))))" "event_logged d (snd (snd (on_daemon (d_stop_daemon_update f) (c, k, d))))"
  "event_logged d (snd (snd (on_daemon (d_dns_update g) (c, k, d))))" "event_logged d (snd (snd (c, k, d)))"
  "event_logged d (snd (snd (reply ls (on_daemon (d_debug_update i) (c, k, d)))))"
  "event_logged d (snd (snd (reply ls (on_daemon (d_snmp_debug_update i) (c, k, d)))))"
  by (simp_all add: event_logged_same)

lemma event_logged_if: "event_logged d (snd (snd x)) \<Longrightarrow> event_logged d (snd (snd y)) \<Longrightarrow> event_logged d (snd (snd (if b then x else y)))"
  by simp

lemma event_logged_service: "event_logged d (snd (snd (do_service v now buff (c, k, d))))"
  unfolding do_service_def Let_def prod.case
  by (intro event_logged_if event_logged_handlers event_logged_updates event_logged_trace event_logged_replies)

lemma event_logged_result:
  assumes "host_at (d_graph d) p = Some h" "handle_retval e nm retval now (h, d_change_seq d) = (h', q, fx)"
  shows "event_logged d ((set_host_at p h' d)\<lparr>d_change_seq := q\<rparr>)"
  using handle_retval_seq[of "d_change_seq d" e nm retval now h]
proof
  assume "moved (d_change_seq d) 4 (handle_retval e nm retval now (h, d_change_seq d))"
  then obtain n where "1 \<le> n" "n \<le> 4" "q = d_change_seq d + of_nat n" "h_change_seq h' = q" by (auto simp: moved_def assms(2))
  then show ?thesis
    by (intro event_logged_host[OF assms(1), of n h']) (auto simp: renumbered_def set_host_at_def)
next
  assume "fst (snd (handle_retval e nm retval now (h, d_change_seq d))) = d_change_seq d \<and>
    numbered_view (fst (handle_retval e nm retval now (h, d_change_seq d))) = numbered_view h"
  then show ?thesis
    by (intro event_logged_host[OF assms(1), of 0 h']) (auto simp: renumbered_def numbered_view_def set_host_at_def assms(2))
qed

interpretation objects: change_log "\<lambda>d. host_at (d_graph d)" d_change_seq apply_event 4
proof
  fix d :: daemon and ev
  show "logged 4 (host_at (d_graph d)) (d_change_seq d) (host_at (d_graph (apply_event ev d))) (d_change_seq (apply_event ev d))"
  proof (cases ev)
    case (Command v c k now buff)
    then show ?thesis using event_logged_service by (simp add: apply_event_def event_logged_def)
  next
    case (Result e nm retval now p)
    show ?thesis
    proof (cases "host_at (d_graph d) p")
      case (Some h)
      obtain h' q fx where "handle_retval e nm retval now (h, d_change_seq d) = (h', q, fx)" by (metis prod.collapse)
      then show ?thesis using event_logged_result[OF Some] Result Some by (simp add: apply_event_def event_logged_def)
    qed (simp add: Result apply_event_def logged_refl)
  qed
qed

text \<open>
  C7. A poll with \<open>CONF\<close> is a complete delta. A client that remembers the number of its last poll, however many commands of other clients and results of checks
  come in between, gets the document of every object whose status, page flag, acknowledgement or note is different by then, the
  documents being those of the objects numbered above what it sent, in the order of the configuration, followed by the new
  number, how many documents there were and how many objects exist.
\<close>

theorem conf_poll_complete:
  assumes "c_authlvl c > 0" "e = fold apply_event evs d" "unat (d_change_seq d) + 4 * length evs < 2 ^ 64"
    and "host_at (d_graph d) p = Some h" "host_at (d_graph e) p = Some h'" "client_view h' \<noteq> client_view h"
    and "length (concat (map (object_xml True e) (changed_objects (d_change_seq d) (d_graph e)))) < k_room k"
  shows "p \<in> set (changed_objects (d_change_seq d) (d_graph e))
    \<and> k_out (fst (snd (send_conf (d_change_seq d) (c, k, e)))) =
        k_out k @ concat (map (object_xml True e) (changed_objects (d_change_seq d) (d_graph e))) @
        [conf_footer e (length (changed_objects (d_change_seq d) (d_graph e)))]"
proof
  have "d_change_seq d < h_change_seq h'"
    using objects.altered_is_newer[of d evs p h h'] assms(2-6) by simp
  then show "p \<in> set (changed_objects (d_change_seq d) (d_graph e))"
    using assms(5) by (auto simp: changed_objects_def dest: host_at_length)
  show "k_out (fst (snd (send_conf (d_change_seq d) (c, k, e)))) =
        k_out k @ concat (map (object_xml True e) (changed_objects (d_change_seq d) (d_graph e))) @
        [conf_footer e (length (changed_objects (d_change_seq d) (d_graph e)))]"
    using assms(1,7) by (simp add: send_conf_def Let_def send_lines_def)
qed

section \<open>The properties at a small configuration\<close>

text \<open>A daemon with one object and no history.\<close>

definition gateway_only :: "hostinfo \<Rightarrow> string \<Rightarrow> daemon" where
  "gateway_only h key =
     \<lparr>d_graph = [\<lparr>g_unique_name = ''gw'', g_data = Some h, g_deps = [], g_tot_nei = 0, g_neighbors = [], g_visit = False\<rparr>],
      d_change_seq = 1, d_queue = [], d_numqueued = 0, d_loss = (\<lambda>p. None), d_trap_history = trap_history_init,
      d_dns = \<lparr>dnshead = [], cache_misses = 0, cache_hits = 0, dnsentries = 0, dnslog_last_log = 0\<rparr>,
      d_box = \<lparr>b_disk = \<lparr>d_main = None, d_main_new = None, d_links = Map.empty, d_dirs = []\<rparr>, b_trace = [], b_mainname = ''sysmon.conf'',
        b_running = 0, b_sighup = False\<rparr>,
      d_confset = [], d_paused = False, d_debug = 0, d_snmp_debug = 0, d_stop_daemon = False, d_aborted = False,
      d_sitename = None, d_sitedesc = None, d_authkey = Some key, d_boottime = 1\<rparr>"

definition quiet_calls :: calls where
  "quiet_calls = \<lparr>c_mkdir = True, c_write = Written \<circ> (\<lambda>_. []), c_order_open = True, c_order_close = True, c_symlink = (\<lambda>_. True),
     c_rename = (\<lambda>_. True), c_main_open = True, c_main_close = True, c_main_rename = True, c_unlink = True, c_pipe = True, c_fork = True,
     c_strerror = []\<rparr>"

definition small_env :: service_env where
  "small_env = \<lparr>v_calls = quiet_calls, v_parse = (\<lambda>x m. Died 0 []), v_sha256 = id, v_slurp = (\<lambda>p. None), v_seed = Died 0 [], v_statedir = [],
     v_configfile = [], v_nextfd = 5, v_dnsexpire = 900, v_dnslog = 600\<rparr>"

definition client_at :: "int \<Rightarrow> clientstatus" where
  "client_at level = \<lparr>c_lastactivity = 0, c_filedes = 4, c_ip = ''127.0.0.1'', c_authlvl = level, c_clientver = 0, c_outage_log = False, c_xml = True\<rparr>"

definition wide_conn :: conn where
  "wide_conn = \<lparr>k_room = 1000, k_out = [], k_payload = (\<lambda>n. None)\<rparr>"

text \<open>A client without the key asks the daemon to stop.\<close>

theorem unauthenticated_harmless_witness:
  "untraced (snd (snd (do_service small_env 100 ''KILLIT'' (client_at 0, wide_conn, gateway_only zero_host ''k1'')))) =
   untraced (gateway_only zero_host ''k1'')"
  using unauthenticated_harmless[of "client_at 0" small_env 100 "''KILLIT''" wide_conn "gateway_only zero_host ''k1''"]
  by (cases "do_service small_env 100 ''KILLIT'' (client_at 0, wide_conn, gateway_only zero_host ''k1'')") (simp add: client_at_def)

text \<open>Two daemons with different communities and keys, and a client that looks at the object.\<close>

theorem secrets_not_observable_witness:
  "k_out (fst (snd (run_session small_env [(100, ''MODE xml''), (101, ''SHOWOBJ gw''), (102, ''AUTH guess'')]
       (client_at 0, wide_conn, gateway_only (zero_host\<lparr>h_type := SYSM_TYPE_SNMP, h_snmp_community := Some ''s3cret''\<rparr>) ''k1'')))) =
   k_out (fst (snd (run_session small_env [(100, ''MODE xml''), (101, ''SHOWOBJ gw''), (102, ''AUTH guess'')]
       (client_at 0, wide_conn, gateway_only (zero_host\<lparr>h_type := SYSM_TYPE_SNMP, h_snmp_community := Some ''public''\<rparr>) ''k2''))))"
  by (rule secrets_not_observable)
     (simp_all add: same_public_def same_history_def gateway_only_def trap_history_wf_init public_element_def public_host_def client_at_def
       keyless_def has_prefix_def)

lemma ack_example:
  "apply_event (Command small_env (client_at 2) wide_conn 100 ''ACK gw'') (gateway_only zero_host ''k1'') =
   (gateway_only (zero_host\<lparr>h_acked := True, h_change_seq := 2\<rparr>) ''k1'')\<lparr>d_change_seq := 2\<rparr>"
  by (simp add: apply_event_def do_service_def Let_def has_prefix_def do_ack_def do_ack_as_def client_at_def named_object_def
      find_object_by_name_def gateway_only_def fit_def host_at_def changed_host_def object_changed_def set_host_at_def put_host_def)

text \<open>An acknowledgement by one operator reaches the next poll of another.\<close>

theorem conf_poll_complete_witness:
  "0 \<in> set (changed_objects 1 (d_graph (fold apply_event [Command small_env (client_at 2) wide_conn 100 ''ACK gw''] (gateway_only zero_host ''k1''))))"
proof -
  let ?h = "zero_host\<lparr>h_acked := True, h_change_seq := 2\<rparr>"
  let ?d = "gateway_only zero_host ''k1''" and ?e = "(gateway_only ?h ''k1'')\<lparr>d_change_seq := 2\<rparr>"
  have run: "fold apply_event [Command small_env (client_at 2) wide_conn 100 ''ACK gw''] ?d = ?e" by (simp add: ack_example)
  have hosts: "host_at (d_graph ?d) 0 = Some zero_host" "host_at (d_graph ?e) 0 = Some ?h" "d_change_seq ?d = 1"
    by (simp_all add: gateway_only_def host_at_def)
  have ps: "changed_objects 1 (d_graph ?e) = [0]" by (simp add: changed_objects_def gateway_only_def host_at_def)
  have "length (object_xml True ?e 0) < 1000"
    by (simp add: object_xml_def gateway_only_def host_at_def send_object_xml_def object_lines_def identity_part_def snmp_part_def secrets_part_def
        web_part_def counters_part_def limits_part_def extended_part_def positive_el_def opt_el_def zero_host_def)
  then have room: "length (concat (map (object_xml True ?e) (changed_objects (d_change_seq ?d) (d_graph ?e)))) < k_room wide_conn"
    unfolding hosts(3) ps by (simp add: wide_conn_def)
  have view: "client_view ?h \<noteq> client_view zero_host" by (simp add: client_view_def zero_host_def)
  have "c_authlvl (client_at 2) > 0" "unat (d_change_seq ?d) + 4 * length [Command small_env (client_at 2) wide_conn 100 ''ACK gw''] < 2 ^ 64"
    by (simp_all add: client_at_def hosts(3))
  from conf_poll_complete[OF this(1) run[symmetric] this(2) hosts(1,2) view room] show ?thesis
    unfolding run hosts(3) by (rule conjunct1)
qed

end
