(* ===== verification/Tcp_Line.thy ===== *)
theory Tcp_Line
  imports Lib_Names
begin

text \<open>
  The shared side of talktcp.c: reading a line byte by byte (\<open>getline_tcp\<close>) and asking a socket whether its connection stands (\<open>is_open\<close>).
  A socket is given by what it delivers: the rounds of the reading loop, its pending error and whether it can be written.
\<close>

section \<open>Reading a line\<close>

text \<open>
  One round of the loop: a byte, nothing (no data, or end of file, which are counted alike), a failed \<open>select\<close> or a failed read.
\<close>

datatype input = Byte char | Silence | Wait_error | Read_error

definition line_end :: "char \<Rightarrow> bool" where
  "line_end ch \<longleftrightarrow> ch = CHR 0x0A \<or> ch = CHR 0x0D"

text \<open>
  \<open>quiet\<close> counts the rounds with nothing and \<open>errs\<close> the failures of \<open>select\<close>; where the rounds end nothing ever comes, which
  is 21 rounds of nothing. The result is the value returned, the buffer and the rounds left.
\<close>

fun getline_loop :: "nat \<Rightarrow> nat \<Rightarrow> string \<Rightarrow> input list \<Rightarrow> int \<times> string \<times> input list" where
  "getline_loop quiet errs buffer [] = (- 1, buffer, [])"
| "getline_loop quiet errs buffer (Wait_error # is) =
     (if errs + 1 > 20 then (0, buffer, is) else getline_loop quiet (errs + 1) buffer is)"
| "getline_loop quiet errs buffer (Read_error # is) = (- 1, buffer, is)"
| "getline_loop quiet errs buffer (Silence # is) =
     (if quiet + 1 > 20 then (- 1, buffer, is) else getline_loop (quiet + 1) errs buffer is)"
| "getline_loop quiet errs buffer (Byte ch # is) =
     (if buffer = [] \<and> line_end ch then getline_loop quiet errs buffer is
      else if line_end ch then (0, buffer, is)
      else let b = (if ch = CHR 0x00 then buffer else buffer @ [ch])
           in if length b \<ge> 255 then (0, b, is) else getline_loop quiet errs b is)"

definition getline_tcp :: "input list \<Rightarrow> int \<times> string \<times> input list" where
  "getline_tcp is = getline_loop 0 0 [] is"

section \<open>Whether a connection stands\<close>

text \<open>
  \<open>is_open\<close>: \<open>err\<close> is the error of \<open>getsockopt\<close> and \<open>writable\<close> the answer of \<open>can_write\<close>. A connection that is still being made is not
  writable and gives -1, because the second \<open>getsockopt\<close> succeeds.
\<close>

abbreviation (input) EBADF :: errno_t where "EBADF \<equiv> EOTHER 9"

definition is_open :: "errno_t option \<Rightarrow> bool \<Rightarrow> int" where
  "is_open err writable =
     (case err of
        Some ECONNREFUSED \<Rightarrow> SYSM_CONNREF | Some EINTR \<Rightarrow> SYSM_CONNREF
      | Some ENETUNREACH \<Rightarrow> SYSM_NETUNRCH
      | Some EHOSTDOWN \<Rightarrow> SYSM_HOSTDOWN | Some EHOSTUNREACH \<Rightarrow> SYSM_HOSTDOWN
      | Some ETIMEDOUT \<Rightarrow> SYSM_TIMEDOUT
      | Some EINPROGRESS \<Rightarrow> SYSM_INPROG
      | e \<Rightarrow> if e = Some EBADF then - 1 else if writable then SYSM_OK else - 1)"

section \<open>Lines\<close>

definition plain_line :: "string \<Rightarrow> bool" where
  "plain_line l \<longleftrightarrow> l \<noteq> [] \<and> length l < 255 \<and> list_all (\<lambda>ch. \<not> line_end ch \<and> ch \<noteq> CHR 0x00) l"

lemma getline_text:
  assumes "list_all (\<lambda>ch. \<not> line_end ch \<and> ch \<noteq> CHR 0x00) s" "length buffer + length s < 255"
  shows "getline_loop quiet errs buffer (map Byte s @ is) = getline_loop quiet errs (buffer @ s) is"
  using assms by (induction s arbitrary: buffer) (simp_all add: Let_def)

lemma getline_line:
  assumes "plain_line l"
  shows "getline_loop quiet errs [] (map Byte l @ Byte CHR 0x0D # is) = (0, l, is)"
  using assms getline_text[of l "[]" quiet errs "Byte CHR 0x0D # is"] by (simp add: plain_line_def line_end_def)

lemma getline_loop_clean:
  assumes "list_all (\<lambda>ch. \<not> line_end ch \<and> ch \<noteq> CHR 0x00) buffer" "length buffer < 255" "getline_loop quiet errs buffer is = (r, b, is')"
  shows "list_all (\<lambda>ch. \<not> line_end ch \<and> ch \<noteq> CHR 0x00) b \<and> length b \<le> 255"
  using assms
  by (induction quiet errs buffer "is" rule: getline_loop.induct) (auto simp: Let_def split: if_splits)

end
