(* ===== verification/Client_Poll.thy ===== *)
theory Client_Poll
  imports Client_Service Tcp_Line
begin

text \<open>
  The client list: the poll of the list (srvclient.c) and the link this
  daemon opens by itself (aggregator.c). Sockets are given by what they deliver: the rounds of a reading loop, the
  connections waiting at the listening socket and the descriptors \<open>select\<close> reports.
\<close>

section \<open>The list\<close>

type_synonym client = "clientstatus \<times> conn \<times> input list"

definition service_one :: "service_env \<Rightarrow> int \<Rightarrow> (int \<Rightarrow> bool) \<Rightarrow> client \<Rightarrow> daemon \<Rightarrow> client \<times> daemon" where
  "service_one v now ready = (\<lambda>(c, k, is) d.
     if c_filedes c = - 1 \<or> \<not> ready (c_filedes c) then ((c, k, is), d)
     else case getline_tcp is of (_, buff, is') \<Rightarrow>
            (case do_service v now buff (c, k, d) of (c', k', d') \<Rightarrow> ((c'\<lparr>c_lastactivity := now\<rparr>, k', is'), d')))"

primrec service_clients :: "service_env \<Rightarrow> int \<Rightarrow> (int \<Rightarrow> bool) \<Rightarrow> client list \<Rightarrow> daemon \<Rightarrow> client list \<times> daemon" where
  "service_clients v now ready [] d = ([], d)"
| "service_clients v now ready (x # xs) d =
     (case service_one v now ready x d of (x', d') \<Rightarrow>
        (case service_clients v now ready xs d' of (xs', d'') \<Rightarrow> (x' # xs', d'')))"

definition timeout_client :: "int \<Rightarrow> int \<Rightarrow> client \<Rightarrow> client" where
  "timeout_client inactivetime now = (\<lambda>(c, k, is).
     if now - c_lastactivity c > inactivetime
     then (c\<lparr>c_filedes := - 1\<rparr>, if c_filedes c = - 1 then k else send_lines [''444 - Timed out''] k, is) else (c, k, is))"

definition timeout_clients :: "int \<Rightarrow> int \<Rightarrow> client list \<Rightarrow> client list" where
  "timeout_clients inactivetime now cs = map (timeout_client inactivetime now) cs"

primrec dead_client_cleanup :: "client list \<Rightarrow> client list" where
  "dead_client_cleanup [] = []"
| "dead_client_cleanup (x # xs) =
     (if c_filedes (fst x) = - 1 then dead_client_cleanup xs else x # dead_client_cleanup xs)"

text \<open>A connection taken from the listening socket: whether the wrapper library lets it in, and the socket.\<close>

datatype arrival = Accept_failed | Accepted bool int string conn "input list"

definition setup_client :: "int \<Rightarrow> arrival \<Rightarrow> client list \<Rightarrow> client list" where
  "setup_client now a cs =
     (case a of
        Accept_failed \<Rightarrow> cs
      | Accepted allowed fd ip k is \<Rightarrow>
          if \<not> allowed then cs
          else cs @ [(\<lparr>c_lastactivity = now, c_filedes = fd, c_ip = ip, c_authlvl = 0, c_clientver = 0, c_outage_log = False, c_xml = False\<rparr>,
                      send_lines [''111 - v1.0 Ready - Welcome''] k, is)])"

definition check_for_new_clients :: "int \<Rightarrow> arrival list \<Rightarrow> client list \<Rightarrow> client list" where
  "check_for_new_clients now as cs = fold (setup_client now) as cs"

text \<open>
  One call of \<open>client_poll\<close>. \<open>listening\<close> says whether there is a listening socket; \<open>first\<close> and \<open>second\<close> are the time, what waits at the
  socket and what \<open>select\<close> reports in the two rounds, the second being made only when \<open>again\<close>; \<open>later\<close> is the time at which the idle are looked for.
\<close>

type_synonym round = "int \<times> arrival list \<times> (int \<Rightarrow> bool)"

definition poll_round :: "service_env \<Rightarrow> bool \<Rightarrow> round \<Rightarrow> client list \<Rightarrow> daemon \<Rightarrow> client list \<times> daemon" where
  "poll_round v listening = (\<lambda>(now, as, ready) cs d.
     service_clients v now ready (if listening then check_for_new_clients now as cs else cs) d)"

definition client_poll ::
    "service_env \<Rightarrow> int \<Rightarrow> bool \<Rightarrow> round \<Rightarrow> int \<Rightarrow> bool \<Rightarrow> round \<Rightarrow> client list \<Rightarrow> daemon \<Rightarrow> client list \<times> daemon" where
  "client_poll v inactivetime listening first later again second cs d =
     (case poll_round v listening first cs d of (cs1, d1) \<Rightarrow>
        let cs2 = dead_client_cleanup (timeout_clients inactivetime later cs1)
        in if \<not> listening \<or> \<not> again then (cs2, d1) else poll_round v listening second cs2 d1)"

definition client_send_statechange :: "string \<Rightarrow> int \<Rightarrow> client list \<Rightarrow> client list" where
  "client_send_statechange obj_name new_state cs =
     map (\<lambda>(c, k, is). if c_outage_log c \<and> c_filedes c \<noteq> - 1
                       then (c, send_lines [fit 1020 (''state-change: '' @ int_string new_state @ '':'' @ obj_name)] k, is) else (c, k, is)) cs"

section \<open>The link to the aggregator\<close>

record aggregator =
  agg_host :: "string option"
  agg_port :: int
  agg_token :: "string option"
  agg_fd :: int
  agg_next_try :: int
  agg_backoff :: int

abbreviation (input) AGG_BACKOFF_MIN :: int where "AGG_BACKOFF_MIN \<equiv> 5"
abbreviation (input) AGG_BACKOFF_MAX :: int where "AGG_BACKOFF_MAX \<equiv> 300"
abbreviation (input) SYSMON_AGG_PORTNUM :: int where "SYSMON_AGG_PORTNUM \<equiv> 1347"

text \<open>The greeting: what is sent, whether it was taken, and the answer.\<close>

definition aggregator_announce :: "string option \<Rightarrow> string option \<Rightarrow> conn \<Rightarrow> input list \<Rightarrow> bool \<times> conn \<times> input list" where
  "aggregator_announce sitename token k is =
     (let line = fit TEMPBUF_SIZE (''HELLO '' @ (case sitename of None \<Rightarrow> ''local'' | Some s \<Rightarrow> s) @ '' '' @ (case token of None \<Rightarrow> [] | Some t \<Rightarrow> t))
      in if k_room k = 0 then (False, k, is)
         else case getline_tcp is of (r, answer, is') \<Rightarrow> (r = 0 \<and> has_prefix ''333'' answer, send_lines [line] k, is'))"

definition aggregator_adopt :: "int \<Rightarrow> string \<Rightarrow> int \<Rightarrow> conn \<Rightarrow> input list \<Rightarrow> client list \<Rightarrow> client list" where
  "aggregator_adopt now host fd k is cs =
     cs @ [(\<lparr>c_lastactivity = now, c_filedes = fd, c_ip = host, c_authlvl = 2, c_clientver = 0, c_outage_log = False, c_xml = False\<rparr>, k, is)]"

text \<open>\<open>clienthead\<close> is the listening socket and part of the walk.\<close>

definition aggregator_still_up :: "int \<Rightarrow> client list \<Rightarrow> aggregator \<Rightarrow> bool \<times> aggregator" where
  "aggregator_still_up listen_fd cs a =
     (if agg_fd a = - 1 then (False, a)
      else if listen_fd = agg_fd a \<or> list_ex (\<lambda>(c, _, _). c_filedes c = agg_fd a) cs then (True, a)
      else (False, a\<lparr>agg_fd := - 1\<rparr>))"

definition agg_failed :: "int \<Rightarrow> aggregator \<Rightarrow> aggregator" where
  "agg_failed now a =
     (let b = (if agg_backoff a = 0 then AGG_BACKOFF_MIN else agg_backoff a * 2);
          b = (if b > AGG_BACKOFF_MAX then AGG_BACKOFF_MAX else b)
      in a\<lparr>agg_backoff := b, agg_next_try := now + b\<rparr>)"

text \<open>\<open>dial\<close> is the outcome of \<open>tls_connect\<close>: the descriptor and the connection, or nothing.\<close>

definition aggregator_poll ::
    "int \<Rightarrow> string option \<Rightarrow> (int \<times> conn \<times> input list) option \<Rightarrow> int \<Rightarrow> client list \<Rightarrow> aggregator \<Rightarrow> client list \<times> aggregator" where
  "aggregator_poll listen_fd sitename dial now cs a =
     (case agg_host a of
        None \<Rightarrow> (cs, a)
      | Some host \<Rightarrow>
          (case aggregator_still_up listen_fd cs a of (up, a1) \<Rightarrow>
             if up \<or> now < agg_next_try a1 then (cs, a1)
             else (case dial of
                     None \<Rightarrow> (cs, agg_failed now a1)
                   | Some (fd, k, is) \<Rightarrow>
                       (case aggregator_announce sitename (agg_token a1) k is of (welcome, k', is') \<Rightarrow>
                          if welcome then (aggregator_adopt now host fd k' is' cs, a1\<lparr>agg_fd := fd, agg_backoff := 0\<rparr>)
                          else (cs, agg_failed now a1)))))"

text \<open>\<open>atoi\<close> of the text after the last colon.\<close>

definition aggregator_set_target :: "string option \<Rightarrow> aggregator \<Rightarrow> aggregator" where
  "aggregator_set_target spec a =
     (case spec of
        None \<Rightarrow> a\<lparr>agg_host := None, agg_port := SYSMON_AGG_PORTNUM\<rparr>
      | Some s \<Rightarrow>
          if s = [] then a\<lparr>agg_host := None, agg_port := SYSMON_AGG_PORTNUM\<rparr>
          else case split_at CHR '':'' (rev s) of
                 Some (tail, front) \<Rightarrow>
                   if tail \<noteq> []
                   then let port = to_int32 (strtol (rev tail))
                        in a\<lparr>agg_host := Some (rev front), agg_port := if port \<le> 0 \<or> port > 65535 then SYSMON_AGG_PORTNUM else port\<rparr>
                   else a\<lparr>agg_host := Some s, agg_port := SYSMON_AGG_PORTNUM\<rparr>
               | None \<Rightarrow> a\<lparr>agg_host := Some s, agg_port := SYSMON_AGG_PORTNUM\<rparr>)"

section \<open>Lines\<close>

primrec read_lines :: "nat \<Rightarrow> input list \<Rightarrow> string list" where
  "read_lines 0 is = []"
| "read_lines (Suc n) is = (case getline_tcp is of (_, l, is') \<Rightarrow> l # read_lines n is')"

lemma read_lines_wire:
  assumes "list_all plain_line ls" "is = map Byte (wire_text ls) @ rest \<or> is = Byte CHR 0x0A # map Byte (wire_text ls) @ rest"
  shows "read_lines (length ls) is = ls"
  using assms
proof (induction ls arbitrary: "is")
  case (Cons l ls)
  then have l: "plain_line l" by simp
  have w: "map Byte (wire_text (l # ls)) @ rest = map Byte l @ Byte CHR 0x0D # (Byte CHR 0x0A # map Byte (wire_text ls) @ rest)"
    by (simp add: wire_text_def)
  have "getline_tcp is = (0, l, Byte CHR 0x0A # map Byte (wire_text ls) @ rest)"
    using Cons.prems(2) getline_line[OF l] unfolding w getline_tcp_def by (auto simp: line_end_def)
  then show ?case using Cons by simp
qed simp

text \<open>
  Nothing a client sends in one segment is lost: commands sent one after the other, each ended as \<open>sendline\<close> ends a line, are read back one by one
  and whole, whatever follows them, as long as each is a line of at most 254 printable characters.
\<close>

theorem pipelined_lines_read:
  assumes "list_all plain_line ls"
  shows "read_lines (length ls) (map Byte (wire_text ls) @ rest) = ls"
  using read_lines_wire[OF assms] by blast

theorem pipelined_lines_read_witness: "read_lines 2 (map Byte (wire_text [''MODE xml'', ''SHOWOBJ gw'']) @ []) = [''MODE xml'', ''SHOWOBJ gw'']"
  using pipelined_lines_read[of "[''MODE xml'', ''SHOWOBJ gw'']" "[]"] by (simp add: plain_line_def line_end_def numeral_2_eq_2)

text \<open>
  A line that arrives in two pieces is taken for two commands: when the rest is late the loop gives up with -1, and the poll serves what has
  come so far, because it does not look at the value returned.
\<close>

lemma late_line_is_two_commands:
  assumes "plain_line (a @ b)" "a \<noteq> []" "b \<noteq> []"
  shows "getline_tcp (map Byte a @ replicate 21 Silence @ map Byte b @ [Byte CHR 0x0D]) = (- 1, a, map Byte b @ [Byte CHR 0x0D])"
    "getline_tcp (map Byte b @ [Byte CHR 0x0D]) = (0, b, [])"
proof -
  have ab: "list_all (\<lambda>ch. \<not> line_end ch \<and> ch \<noteq> CHR 0x00) a" "length a < 255" "plain_line b"
    using assms by (simp_all add: plain_line_def)
  show "getline_tcp (map Byte a @ replicate 21 Silence @ map Byte b @ [Byte CHR 0x0D]) = (- 1, a, map Byte b @ [Byte CHR 0x0D])"
    unfolding getline_tcp_def using getline_text[OF ab(1), of "[]"] ab(2) by (simp add: eval_nat_numeral)
  show "getline_tcp (map Byte b @ [Byte CHR 0x0D]) = (0, b, [])"
    unfolding getline_tcp_def by (rule getline_line[OF ab(3)])
qed

section \<open>The poll\<close>

lemma cleanup_filter: "dead_client_cleanup cs = filter (\<lambda>x. c_filedes (fst x) \<noteq> - 1) cs"
  by (induction cs) simp_all

lemma service_one_waits: "\<not> ready (c_filedes (fst x)) \<Longrightarrow> service_one v now ready x d = (x, d)"
  by (cases x) (simp add: service_one_def)

lemma service_clients_keeps:
  "x \<in> set cs \<Longrightarrow> \<not> ready (c_filedes (fst x)) \<Longrightarrow> x \<in> set (fst (service_clients v now ready cs d))"
proof (induction cs arbitrary: d)
  case (Cons y cs)
  obtain y' d' where y: "service_one v now ready y d = (y', d')" by (cases "service_one v now ready y d")
  obtain ys d'' where ys: "service_clients v now ready cs d' = (ys, d'')" by (cases "service_clients v now ready cs d'")
  show ?case
  proof (cases "x = y")
    case True
    then show ?thesis using y ys Cons.prems(2) by (simp add: service_one_waits)
  next
    case False
    then show ?thesis using Cons.IH[of d'] Cons.prems y ys by simp
  qed
qed simp

lemma new_clients_keep: "set cs \<subseteq> set (check_for_new_clients now as cs)"
proof (induction as arbitrary: cs)
  case (Cons a as)
  have "set cs \<subseteq> set (setup_client now a cs)" by (auto simp: setup_client_def split: arrival.split)
  then show ?case using Cons[of "setup_client now a cs"] by (auto simp: check_for_new_clients_def)
qed (simp add: check_for_new_clients_def)

definition waiting :: "round \<Rightarrow> client \<Rightarrow> bool" where
  "waiting r x \<longleftrightarrow> \<not> snd (snd r) (c_filedes (fst x))"

lemma poll_round_keeps: "x \<in> set cs \<Longrightarrow> waiting r x \<Longrightarrow> x \<in> set (fst (poll_round v listening r cs d))"
  using new_clients_keep[of cs "fst r" "fst (snd r)"]
  by (auto simp: poll_round_def waiting_def split_beta intro!: service_clients_keeps)

text \<open>
  The poll drops only who is gone or idle. Whoever has an open connection, has said nothing in this poll and has been heard of within the time allowed is in the
  list afterwards exactly as before; and when no second round is made, everybody in the list is open and was heard of within that time.
\<close>

theorem client_poll_keeps_active:
  assumes "x \<in> set cs" "c_filedes (fst x) \<noteq> - 1" "later - c_lastactivity (fst x) \<le> inactivetime" "waiting first x" "waiting second x"
  shows "x \<in> set (fst (client_poll v inactivetime listening first later again second cs d))
    \<and> list_all (\<lambda>y. c_filedes (fst y) \<noteq> - 1 \<and> later - c_lastactivity (fst y) \<le> inactivetime)
        (fst (client_poll v inactivetime listening first later False second cs d))"
proof
  obtain cs1 d1 where r: "poll_round v listening first cs d = (cs1, d1)" by (cases "poll_round v listening first cs d")
  have "x \<in> set cs1" using poll_round_keeps[OF assms(1,4), of v listening d] by (simp add: r)
  moreover have "timeout_client inactivetime later x = x" using assms(3) by (cases x) (simp add: timeout_client_def)
  ultimately have "x \<in> set (dead_client_cleanup (timeout_clients inactivetime later cs1))"
    using assms(2) by (force simp: cleanup_filter timeout_clients_def)
  then show "x \<in> set (fst (client_poll v inactivetime listening first later again second cs d))"
    using poll_round_keeps[OF _ assms(5)] by (simp add: client_poll_def r Let_def)
  show "list_all (\<lambda>y. c_filedes (fst y) \<noteq> - 1 \<and> later - c_lastactivity (fst y) \<le> inactivetime)
        (fst (client_poll v inactivetime listening first later False second cs d))"
    by (auto simp: client_poll_def r Let_def list_all_iff cleanup_filter timeout_clients_def timeout_client_def split: if_splits)
qed

theorem client_poll_keeps_active_witness:
  "(client_at 0, wide_conn, []) \<in> set (fst (client_poll small_env 300 True (10, [Accept_failed], (\<lambda>fd. False)) 11 True (11, [], (\<lambda>fd. False))
      [(client_at 0, wide_conn, [])] (gateway_only zero_host ''k1'')))"
  using client_poll_keeps_active[of "(client_at 0, wide_conn, [])" "[(client_at 0, wide_conn, [])]" 11 300 "(10, [Accept_failed], (\<lambda>fd. False))"
      "(11, [], (\<lambda>fd. False))" small_env True True "gateway_only zero_host ''k1''"]
  by (simp add: client_at_def waiting_def)

section \<open>The link\<close>

definition agg_ok :: "int \<Rightarrow> aggregator \<Rightarrow> bool" where
  "agg_ok now a \<longleftrightarrow> 0 \<le> agg_backoff a \<and> agg_backoff a \<le> AGG_BACKOFF_MAX \<and> agg_next_try a \<le> now + AGG_BACKOFF_MAX"

lemma agg_failed_ok: "agg_ok t a \<Longrightarrow> agg_ok now (agg_failed now a)"
  by (auto simp: agg_ok_def agg_failed_def Let_def)

lemma still_up_fields:
  "aggregator_still_up lf cs a = (up, a1) \<Longrightarrow>
   agg_host a1 = agg_host a \<and> agg_backoff a1 = agg_backoff a \<and> agg_next_try a1 = agg_next_try a \<and> agg_token a1 = agg_token a"
  by (auto simp: aggregator_still_up_def split: if_splits)

lemma aggregator_poll_ok:
  assumes "agg_ok t a" "t \<le> now"
  shows "agg_ok now (snd (aggregator_poll lf site dial now cs a))" "agg_host (snd (aggregator_poll lf site dial now cs a)) = agg_host a"
proof -
  obtain up a1 where u: "aggregator_still_up lf cs a = (up, a1)" by (cases "aggregator_still_up lf cs a")
  note f = still_up_fields[OF u]
  have ok: "agg_ok t a1" "agg_ok now a1" "agg_ok now a" using f assms by (auto simp: agg_ok_def)
  have host: "agg_host (agg_failed now a1) = agg_host a1" by (simp add: agg_failed_def Let_def)
  show "agg_ok now (snd (aggregator_poll lf site dial now cs a))"
    using ok agg_failed_ok[OF ok(1), of now]
    by (auto simp: aggregator_poll_def u split: option.split prod.split) (auto simp: agg_ok_def)
  show "agg_host (snd (aggregator_poll lf site dial now cs a)) = agg_host a"
    using f host by (auto simp: aggregator_poll_def u split: option.split prod.split)
qed

text \<open>A call of the main loop: the listening descriptor, the name, the outcome of dialling, the time and the clients there are.\<close>

type_synonym agg_call = "int \<times> string option \<times> (int \<times> conn \<times> input list) option \<times> int \<times> client list"

definition call_aggregator :: "agg_call \<Rightarrow> aggregator \<Rightarrow> aggregator" where
  "call_aggregator = (\<lambda>(lf, site, dial, now, cs) a. snd (aggregator_poll lf site dial now cs a))"

definition call_time :: "agg_call \<Rightarrow> int" where
  "call_time = (\<lambda>(lf, site, dial, now, cs). now)"

lemma calls_ok:
  "agg_ok t a \<Longrightarrow> sorted (t # map call_time calls) \<Longrightarrow>
   agg_ok (last (t # map call_time calls)) (fold call_aggregator calls a) \<and> agg_host (fold call_aggregator calls a) = agg_host a"
proof (induction calls arbitrary: t a)
  case (Cons c cs)
  obtain lf site dial now xs where c: "c = (lf, site, dial, now, xs)" by (cases c)
  have "t \<le> now" using Cons.prems(2) by (simp add: c call_time_def)
  from aggregator_poll_ok[OF Cons.prems(1) this, of lf site dial xs] Cons.IH[of now "call_aggregator c a"] Cons.prems(2)
  show ?case by (simp add: c call_aggregator_def call_time_def)
qed simp



text \<open>
  The link is recognised by its descriptor number alone. When the far end quits and a new connection gets the same number in the same poll, the daemon takes
  the newcomer for the link and does not dial.
\<close>

lemma link_number_reused:
  "map (\<lambda>(c, _, _). (c_filedes c, c_authlvl c)) (fst (client_poll small_env 300 True (10, [], (\<lambda>fd. fd = 4)) 10 True
      (10, [Accepted True 4 ''10.0.0.9'' wide_conn []], (\<lambda>fd. False))
      [(client_at 2, wide_conn, map Byte ''QUIT'' @ [Byte CHR 0x0D])] (gateway_only zero_host ''k1''))) = [(4, 0)]"
  by (simp add: client_poll_def poll_round_def check_for_new_clients_def service_one_def getline_tcp_def line_end_def Let_def
      do_service_def has_prefix_def send_quit_def client_at_def timeout_clients_def timeout_client_def setup_client_def)

lemma aggregator_link_mistaken:
  assumes "agg_host a = Some host" "agg_fd a = c_filedes c" "c_filedes c \<noteq> - 1" "c_authlvl c = 0"
  shows "aggregator_poll lf site dial now [(c, k, is)] a = ([(c, k, is)], a)"
  using assms by (simp add: aggregator_poll_def aggregator_still_up_def)

end
