(* ===== verification/Tcp_Correct.thy ===== *)
theory Tcp_Correct
  imports Tcp_Checks
begin

text \<open>
  What the TCP checks achieve. Every check gives its socket and its memory back when it has a result, except where a
  name does not resolve. The checks that wait for answers refine a dialogue: a table that says for every state what an answer leads to;
  the result of a run is the one the dialogue gives for the answers that came, whenever they came.
\<close>

section \<open>Runs\<close>

text \<open>
  Turns of one check until it has a result; before each of them anything may happen to the world, on the network and in other checks.
\<close>

fun tcp_run :: "tcp_op \<Rightarrow> (int \<times> (tcp_world \<Rightarrow> tcp_world)) list \<Rightarrow> monitorent \<times> hostinfo \<times> tcp_world \<Rightarrow> monitorent \<times> hostinfo \<times> tcp_world" where
  "tcp_run f [] x = x"
| "tcp_run f ((now, g) # rs) (m, h, w) = (if m_retval m \<noteq> - 1 then tcp_run f rs (m, h, g w) else tcp_run f rs (f now (m, h, g w)))"

text \<open>Others do not touch the socket of this check or its data.\<close>

definition leaves_alone :: "int \<Rightarrow> nat \<Rightarrow> (tcp_world \<Rightarrow> tcp_world) \<Rightarrow> bool" where
  "leaves_alone fd p g \<longleftrightarrow> (\<forall>w. (fd \<in> tw_open (g w) \<longleftrightarrow> fd \<in> tw_open w) \<and> tw_data (g w) p = tw_data w p)"

lemma balanced_alone: "leaves_alone (m_filedes m) (m_checkent m) g \<Longrightarrow> balanced m (g w) = balanced m w"
  by (simp add: leaves_alone_def balanced_def)

lemma tcp_run_balanced:
  assumes "\<And>now m h w. good_turn m h w (f now (m, h, w))"
  shows "list_all (\<lambda>(now, g). leaves_alone (m_filedes m) (m_checkent m) g) rs \<Longrightarrow> balanced m w \<Longrightarrow> tcp_run f rs (m, h, w) = (m', h', w') \<Longrightarrow>
    like m m' \<and> h' = h \<and> balanced m' w'"
proof (induction rs arbitrary: m w)
  case Nil
  then show ?case by (simp add: like_def)
next
  case (Cons r rs)
  obtain now g where r: "r = (now, g)" by fastforce
  from Cons.prems(1) have alone: "leaves_alone (m_filedes m) (m_checkent m) g"
    "list_all (\<lambda>(now, g). leaves_alone (m_filedes m) (m_checkent m) g) rs" by (simp_all add: r)
  have b: "balanced m (g w)" using Cons.prems(2) by (simp add: balanced_alone[OF alone(1)])
  show ?case
  proof (cases "m_retval m = - 1")
    case False
    with Cons.IH[OF alone(2) b] Cons.prems(3) show ?thesis by (simp add: r)
  next
    case True
    obtain m1 h1 w1 where f: "f now (m, h, g w) = (m1, h1, w1)" by (metis prod_cases3)
    with assms[of m h "g w" now] b have 1: "like m m1" "h1 = h" "balanced m1 w1" by (simp_all add: good_turn_def)
    have "list_all (\<lambda>(now, g). leaves_alone (m_filedes m1) (m_checkent m1) g) rs" using alone(2) 1(1) by (simp add: like_def)
    from Cons.IH[OF this 1(3)] Cons.prems(3) 1(1,2) True show ?thesis by (simp add: r f like_def)
  qed
qed

lemma start_balanced:
  assumes "m_retval m = - 1" "tw_socket w \<noteq> - 1" "tw_socket w \<notin> tw_open w" "tw_resolve w (h_hostname h) \<noteq> None"
    "start_socket nulls refused t now (m, h, w) = (m', h', w')"
  shows "m_filedes m' = tw_socket w \<and> m_checkent m' = m_checkent m \<and> h' = h \<and> balanced m' w'"
  using assms by (auto simp: start_socket_def Let_def balanced_def put_data_def tcp_close_def split: if_splits option.splits)

lemma balanced_done: "balanced m w \<Longrightarrow> m_retval m \<noteq> - 1 \<Longrightarrow> \<not> m_monitordata m \<and> tw_data w (m_checkent m) = None \<and> m_filedes m \<notin> tw_open w"
  by (auto simp: balanced_def)

lemma stop_ends:
  assumes "balanced m w" "stop_test (tcp_protocol ty) now (m, h, w) = (m', h', w')"
  shows "\<not> m_monitordata m' \<and> tw_data w' (m_checkent m') = None \<and> m_filedes m' \<notin> tw_open w'"
  using assms by (auto simp: tcp_protocol_def stop_tests stop_socket_def stop_check_sysmon_def finish_def balanced_def put_data_def tcp_close_def split: if_splits)

section \<open>Properties of every check\<close>


text \<open>
  A name that does not resolve costs a socket. Every one of these checks opens its socket before it looks the name up and returns
  without closing it; it has a result then, its data are gone, and neither its service nor its stop function closes the socket (the check of another
  daemon and the X.500 check leave a pointer to the freed data instead).
\<close>

theorem unresolved_name_leaks_socket:
  assumes "tw_socket w \<noteq> - 1" "tw_resolve w (h_hostname h) = None" "ty \<noteq> SYSM_TYPE_X500" "ty \<noteq> SYSM_TYPE_SYSM"
    "start_test (tcp_protocol ty) now (m, h, w) = (m', h', w')"
  shows "m_retval m' = SYSM_NODNS \<and> tw_socket w \<in> tw_open w' \<and> tw_data w' (m_checkent m') = None \<and>
    service_test (tcp_protocol ty) now' (m', h', w') = (m', h', w') \<and> stop_test (tcp_protocol ty) now' (m', h', w') = (m', h', w')"
proof -
  obtain refused t where "start_test (tcp_protocol ty) now = start_socket True refused t now" using tcp_start_socket[of ty now] assms(3,4) by auto
  with assms have x: "m' = m\<lparr>m_filedes := tw_socket w, m_monitordata := False, m_retval := SYSM_NODNS\<rparr>"
    "w' = put_data (m_checkent m) None (w\<lparr>tw_open := insert (tw_socket w) (tw_open w)\<rparr>)" by (auto simp: start_socket_def Let_def)
  have d: "\<not> m_monitordata m'" by (simp add: x)
  have "service_test (tcp_protocol ty) now' (m', h', w') = (m', h', w')"
    using d by (simp add: tcp_protocol_def service_test_tcp_def service_test_smtp_def service_test_pop3_def service_test_imap_def service_test_nntp_def
        service_test_sshd_def service_test_x500_def service_test_www_def service_check_sysmon_def Let_def on_data_def)
  moreover have "stop_test (tcp_protocol ty) now' (m', h', w') = (m', h', w')"
    using d assms(4) by (simp add: tcp_protocol_def stop_tests stop_socket_def)
  moreover have "m_retval m' = SYSM_NODNS" "tw_socket w \<in> tw_open w'" "tw_data w' (m_checkent m') = None" by (simp_all add: x put_data_def)
  ultimately show ?thesis by simp
qed

section \<open>Dialogues\<close>

text \<open>
  A dialogue says what an answer leads to in a state: a result, or the next state. \<open>closing\<close> gives the states that have a result
  without a further answer.
\<close>

type_synonym dialogue = "nat \<Rightarrow> read_result \<Rightarrow> int option"

fun verdict :: "(nat \<Rightarrow> int option) \<Rightarrow> dialogue \<Rightarrow> nat \<Rightarrow> read_result list \<Rightarrow> int" where
  "verdict closing answer k [] = (case closing k of Some r \<Rightarrow> r | None \<Rightarrow> - 1)"
| "verdict closing answer k (x # xs) =
     (case closing k of Some r \<Rightarrow> r
      | None \<Rightarrow> (case answer k x of Some r \<Rightarrow> r | None \<Rightarrow> verdict closing answer (Suc k) xs))"

text \<open>A check that waits for an answer in state \<open>k\<close>, answers that arrive, and answers of at most \<open>n\<close> bytes.\<close>

definition talking :: "nat \<Rightarrow> monitorent \<Rightarrow> tcp_world \<Rightarrow> bool" where
  "talking k m w \<longleftrightarrow> m_retval m = - 1 \<and> m_monitordata m \<and> (case tw_data w (m_checkent m) of None \<Rightarrow> False | Some t \<Rightarrow> t_state t = k)"

definition arrive :: "int \<Rightarrow> read_result list \<Rightarrow> tcp_world \<Rightarrow> tcp_world" where
  "arrive fd ys w = w\<lparr>tw_inbox := (tw_inbox w)(fd := tw_inbox w fd @ ys)\<rparr>"

definition arrivals :: "int \<Rightarrow> (int \<times> read_result list) list \<Rightarrow> (int \<times> (tcp_world \<Rightarrow> tcp_world)) list" where
  "arrivals fd rs = map (\<lambda>(now, ys). (now, arrive fd ys)) rs"

definition fits :: "nat \<Rightarrow> read_result \<Rightarrow> bool" where
  "fits n x \<longleftrightarrow> (case x of Data s \<Rightarrow> length s \<le> n | _ \<Rightarrow> True)"

lemma arrivals_simps [simp]: "arrivals fd [] = []" "arrivals fd ((now, ys) # rs) = (now, arrive fd ys) # arrivals fd rs"
  "arrivals fd (rs @ rs') = arrivals fd rs @ arrivals fd rs'"
  by (simp_all add: arrivals_def)

lemma arrive_simps [simp]: "tw_inbox (arrive fd ys w) fd = tw_inbox w fd @ ys" "talking k m (arrive fd ys w) = talking k m w" "arrive fd [] w = w"
  by (simp_all add: arrive_def talking_def)

lemma tcp_run_done: "m_retval m \<noteq> - 1 \<Longrightarrow> \<exists>w'. tcp_run f rs (m, h, w) = (m, h, w')"
  by (induction rs arbitrary: w) auto

lemma tcp_run_append: "tcp_run f (rs @ rs') x = tcp_run f rs' (tcp_run f rs x)"
  by (induction f rs x rule: tcp_run.induct) simp_all

locale dialogue_check =
  fixes service :: tcp_op
    and answer :: dialogue
    and closing :: "nat \<Rightarrow> int option"
    and live :: "nat \<Rightarrow> bool"
    and n :: nat
  assumes wait: "live k \<Longrightarrow> closing k = None \<Longrightarrow> talking k m w \<Longrightarrow> tw_inbox w (m_filedes m) = [] \<Longrightarrow>
      service now (m, h, w) = (m', h', w') \<Longrightarrow> talking k m' w' \<and> tw_inbox w' = tw_inbox w \<and> m_filedes m' = m_filedes m"
    and close: "closing k = Some r \<Longrightarrow> talking k m w \<Longrightarrow> service now (m, h, w) = (m', h', w') \<Longrightarrow> m_retval m' = r"
    and decides: "live k \<Longrightarrow> closing k = None \<Longrightarrow> talking k m w \<Longrightarrow> tw_inbox w (m_filedes m) = x # xs \<Longrightarrow> fits n x \<Longrightarrow>
      answer k x = Some r \<Longrightarrow> service now (m, h, w) = (m', h', w') \<Longrightarrow> m_retval m' = r"
    and goes_on: "live k \<Longrightarrow> closing k = None \<Longrightarrow> talking k m w \<Longrightarrow> tw_inbox w (m_filedes m) = x # xs \<Longrightarrow> fits n x \<Longrightarrow>
      answer k x = None \<Longrightarrow> service now (m, h, w) = (m', h', w') \<Longrightarrow>
      talking (Suc k) m' w' \<and> tw_inbox w' (m_filedes m) = xs \<and> m_filedes m' = m_filedes m"
    and live_next: "live k \<Longrightarrow> closing k = None \<Longrightarrow> answer k x = None \<Longrightarrow> live (Suc k)"
    and results: "answer k x = Some r \<Longrightarrow> r \<noteq> - 1" "closing k = Some r \<Longrightarrow> r \<noteq> - 1"
begin

text \<open>One turn leaves a result the verdict agrees with, or a state from which the rest of the answers has the same verdict.\<close>

lemma turn:
  assumes "live k" "talking k m w" "list_all (fits n) (tw_inbox w (m_filedes m))" "service now (m, h, w) = (m', h', w')"
  shows "(m_retval m' \<noteq> - 1 \<and> (\<forall>zs. verdict closing answer k (tw_inbox w (m_filedes m) @ zs) = m_retval m')) \<or>
    (\<exists>k'. live k' \<and> talking k' m' w' \<and> m_filedes m' = m_filedes m \<and> list_all (fits n) (tw_inbox w' (m_filedes m)) \<and>
      (\<forall>zs. verdict closing answer k' (tw_inbox w' (m_filedes m) @ zs) = verdict closing answer k (tw_inbox w (m_filedes m) @ zs)) \<and>
      (if tw_inbox w (m_filedes m) = [] then tw_inbox w' (m_filedes m) = [] \<and> closing k = None \<and> k' = k
       else length (tw_inbox w' (m_filedes m)) < length (tw_inbox w (m_filedes m))))"
proof (cases "closing k")
  case (Some r)
  have v: "verdict closing answer k zs = r" for zs using Some by (cases zs) simp_all
  with close[OF Some assms(2,4)] results(2)[OF Some] show ?thesis by simp
next
  case None
  show ?thesis
  proof (cases "tw_inbox w (m_filedes m)")
    case Nil
    from wait[OF assms(1) None assms(2) Nil assms(4)] assms(1) Nil None show ?thesis by (intro disjI2 exI[of _ k]) simp
  next
    case (Cons x xs)
    have f: "fits n x" "list_all (fits n) xs" using assms(3) by (simp_all add: Cons)
    show ?thesis
    proof (cases "answer k x")
      case (Some r)
      from decides[OF assms(1) None assms(2) Cons f(1) Some assms(4)] results(1)[OF Some] show ?thesis by (simp add: Cons None Some)
    next
      case go: None
      from goes_on[OF assms(1) None assms(2) Cons f(1) go assms(4)] live_next[OF assms(1) None go] f(2)
      show ?thesis by (intro disjI2 exI[of _ "Suc k"]) (simp add: Cons None go)
    qed
  qed
qed

lemma run:
  assumes "live k" "talking k m w" "list_all (fits n) (tw_inbox w (m_filedes m) @ concat (map snd rs))"
    "tcp_run service (arrivals (m_filedes m) rs) (m, h, w) = (m', h', w')"
  shows "(m_retval m' \<noteq> - 1 \<and> (\<forall>zs. verdict closing answer k (tw_inbox w (m_filedes m) @ concat (map snd rs) @ zs) = m_retval m')) \<or>
    (\<exists>k'. live k' \<and> talking k' m' w' \<and> m_filedes m' = m_filedes m \<and> list_all (fits n) (tw_inbox w' (m_filedes m)) \<and>
      length (tw_inbox w' (m_filedes m)) \<le> length (tw_inbox w (m_filedes m) @ concat (map snd rs)) \<and>
      (\<forall>zs. verdict closing answer k' (tw_inbox w' (m_filedes m) @ zs) =
            verdict closing answer k (tw_inbox w (m_filedes m) @ concat (map snd rs) @ zs)))"
  using assms
proof (induction rs arbitrary: k m h w)
  case Nil
  then show ?case by (intro disjI2 exI[of _ k]) simp
next
  case (Cons r rs)
  obtain now ys where r: "r = (now, ys)" by fastforce
  let ?fd = "m_filedes m" and ?w = "arrive (m_filedes m) ys w"
  obtain m1 h1 w1 where s: "service now (m, h, ?w) = (m1, h1, w1)" by (metis prod_cases3)
  have pend: "m_retval m = - 1" using Cons.prems(2) by (simp add: talking_def)
  have pre: "talking k m ?w" "list_all (fits n) (tw_inbox ?w ?fd)" using Cons.prems(2,3) by (simp_all add: r)
  from turn[OF Cons.prems(1) pre s] show ?case
  proof (elim disjE conjE exE)
    assume d: "m_retval m1 \<noteq> - 1" "\<forall>zs. verdict closing answer k (tw_inbox ?w ?fd @ zs) = m_retval m1"
    obtain w2 where "tcp_run service (arrivals ?fd rs) (m1, h1, w1) = (m1, h1, w2)" using tcp_run_done[OF d(1)] by blast
    with Cons.prems(4) pend s have "m' = m1" by (simp add: r)
    with d show ?thesis by (simp add: r)
  next
    fix k'
    assume k: "live k'" "talking k' m1 w1" "m_filedes m1 = ?fd" "list_all (fits n) (tw_inbox w1 ?fd)"
      "\<forall>zs. verdict closing answer k' (tw_inbox w1 ?fd @ zs) = verdict closing answer k (tw_inbox ?w ?fd @ zs)"
      "if tw_inbox ?w ?fd = [] then tw_inbox w1 ?fd = [] \<and> closing k = None \<and> k' = k else length (tw_inbox w1 ?fd) < length (tw_inbox ?w ?fd)"
    have len: "length (tw_inbox w1 ?fd) \<le> length (tw_inbox w ?fd @ ys)" using k(6) by (auto split: if_splits)
    have 1: "list_all (fits n) (tw_inbox w1 (m_filedes m1) @ concat (map snd rs))"
      "tcp_run service (arrivals (m_filedes m1) rs) (m1, h1, w1) = (m', h', w')"
      using Cons.prems(3,4) k(3,4) pend s by (simp_all add: r)
    from Cons.IH[OF k(1,2) 1] k(3,5) len show ?thesis by (auto simp: r intro: order.trans)
  qed
qed

text \<open>Enough turns with no further answer settle the matter.\<close>

lemma idle:
  assumes "live k" "talking k m w" "list_all (fits n) (tw_inbox w (m_filedes m))" "list_all (\<lambda>r. snd r = []) rs" "length (tw_inbox w (m_filedes m)) < length rs"
    "tcp_run service (arrivals (m_filedes m) rs) (m, h, w) = (m', h', w')"
  shows "m_retval m' = verdict closing answer k (tw_inbox w (m_filedes m))"
  using assms
proof (induction rs arbitrary: k m h w)
  case (Cons r rs)
  obtain now where r: "r = (now, [])" using Cons.prems(4) by (cases r) simp
  let ?fd = "m_filedes m"
  obtain m1 h1 w1 where s: "service now (m, h, w) = (m1, h1, w1)" by (metis prod_cases3)
  have pend: "m_retval m = - 1" using Cons.prems(2) by (simp add: talking_def)
  have run1: "tcp_run service (arrivals ?fd rs) (m1, h1, w1) = (m', h', w')" using Cons.prems(6) pend s by (simp add: r)
  from turn[OF Cons.prems(1-3) s] show ?case
  proof (elim disjE conjE exE)
    assume d: "m_retval m1 \<noteq> - 1" "\<forall>zs. verdict closing answer k (tw_inbox w ?fd @ zs) = m_retval m1"
    from tcp_run_done[OF d(1), of service "arrivals ?fd rs" h1 w1] run1 d(2)[rule_format, of "[]"] show ?thesis by simp
  next
    fix k'
    assume k: "live k'" "talking k' m1 w1" "m_filedes m1 = ?fd" "list_all (fits n) (tw_inbox w1 ?fd)"
      "\<forall>zs. verdict closing answer k' (tw_inbox w1 ?fd @ zs) = verdict closing answer k (tw_inbox w ?fd @ zs)"
      "if tw_inbox w ?fd = [] then tw_inbox w1 ?fd = [] \<and> closing k = None \<and> k' = k else length (tw_inbox w1 ?fd) < length (tw_inbox w ?fd)"
    from k(5)[rule_format, of "[]"] have v: "verdict closing answer k' (tw_inbox w1 ?fd) = verdict closing answer k (tw_inbox w ?fd)" by simp
    show ?thesis
    proof (cases "length (tw_inbox w1 ?fd) < length rs")
      case True
      with Cons.IH[OF k(1,2), of h1] k(3,4) Cons.prems(4) run1 v show ?thesis by simp
    next
      case False
      with k(6) Cons.prems(5) have "rs = []" "tw_inbox w1 ?fd = []" "closing k = None" "tw_inbox w ?fd = []" by (auto split: if_splits)
      moreover from this run1 have "m' = m1" by simp
      ultimately show ?thesis using k(2) by (simp add: talking_def)
    qed
  qed
qed simp

text \<open>The result of a run is the verdict on all answers, and it is there when enough turns at the end of the run bring nothing new.\<close>

lemma refined:
  assumes "live k" "talking k m w" "list_all (fits n) (tw_inbox w (m_filedes m) @ concat (map snd rs))"
    "tcp_run service (arrivals (m_filedes m) rs) (m, h, w) = (m', h', w')"
  shows "(m_retval m' = - 1 \<or> m_retval m' = verdict closing answer k (tw_inbox w (m_filedes m) @ concat (map snd rs))) \<and>
    (length (tw_inbox w (m_filedes m) @ concat (map snd rs)) < length (takeWhile (\<lambda>r. snd r = []) (rev rs)) \<longrightarrow>
     m_retval m' = verdict closing answer k (tw_inbox w (m_filedes m) @ concat (map snd rs)))"
proof -
  let ?fd = "m_filedes m" and ?all = "tw_inbox w (m_filedes m) @ concat (map snd rs)"
  have one: "m_retval m' = - 1 \<or> m_retval m' = verdict closing answer k ?all"
    using run[OF assms]
  proof (elim disjE conjE exE)
    assume "\<forall>zs. verdict closing answer k (tw_inbox w ?fd @ concat (map snd rs) @ zs) = m_retval m'"
    from this[rule_format, of "[]"] show ?thesis by simp
  qed (simp add: talking_def)
  let ?tail = "rev (takeWhile (\<lambda>r. snd r = []) (rev rs))"
  define init where "init = rev (dropWhile (\<lambda>r. snd r = []) (rev rs))"
  have split: "rs = init @ ?tail" unfolding init_def by (metis rev_append rev_rev_ident takeWhile_dropWhile_id)
  have idle_tail: "list_all (\<lambda>r. snd r = []) ?tail" using set_takeWhileD by (fastforce simp: list_all_iff)
  then have "concat (map snd ?tail) = []" by (auto simp: list_all_iff)
  with split have same: "concat (map snd rs) = concat (map snd init)" by (metis append_Nil2 concat_append map_append)
  have "m_retval m' = verdict closing answer k ?all" if len: "length ?all < length (takeWhile (\<lambda>r. snd r = []) (rev rs))"
  proof -
    obtain m1 h1 w1 where r1: "tcp_run service (arrivals ?fd init) (m, h, w) = (m1, h1, w1)" by (metis prod_cases3)
    have r2: "tcp_run service (arrivals ?fd ?tail) (m1, h1, w1) = (m', h', w')"
      using assms(4) r1 by (subst (asm) split) (simp add: tcp_run_append)
    have "list_all (fits n) (tw_inbox w ?fd @ concat (map snd init))" using assms(3) same by simp
    from run[OF assms(1,2) this r1] show ?thesis
    proof (elim disjE conjE exE)
      assume d: "m_retval m1 \<noteq> - 1" "\<forall>zs. verdict closing answer k (tw_inbox w ?fd @ concat (map snd init) @ zs) = m_retval m1"
      from tcp_run_done[OF d(1), of service "arrivals ?fd ?tail" h1 w1] r2 d(2)[rule_format, of "[]"] same show ?thesis by simp
    next
      fix k'
      assume k: "live k'" "talking k' m1 w1" "m_filedes m1 = ?fd" "list_all (fits n) (tw_inbox w1 ?fd)"
        "length (tw_inbox w1 ?fd) \<le> length (tw_inbox w ?fd @ concat (map snd init))"
        "\<forall>zs. verdict closing answer k' (tw_inbox w1 ?fd @ zs) = verdict closing answer k (tw_inbox w ?fd @ concat (map snd init) @ zs)"
      have l: "length (tw_inbox w1 (m_filedes m1)) < length ?tail" using k(3,5) len same by simp
      from idle[OF k(1,2) _ idle_tail l, of h1 m' h' w'] k(3,4) r2 k(6)[rule_format, of "[]"] same show ?thesis by simp
    qed
  qed
  with one show ?thesis by blast
qed

end

section \<open>The dialogues of the protocols\<close>

definition reply :: "(string \<Rightarrow> int option) \<Rightarrow> (bool \<Rightarrow> int option) \<Rightarrow> read_result \<Rightarrow> int option" where
  "reply seen dead x = (case x of Data s \<Rightarrow> if s = [] then dead True else seen (c_text s) | Eof \<Rightarrow> dead True | Failed \<Rightarrow> dead False)"

definition lost :: "bool \<Rightarrow> int option" where
  "lost eof = Some (if eof then SYSM_CONNREF else SYSM_BAD_RESP)"

definition proceed :: "string \<Rightarrow> string \<Rightarrow> int option" where
  "proceed ok b = (if has_prefix ok b then None else Some SYSM_BAD_RESP)"

definition pop3_dialogue :: dialogue where
  "pop3_dialogue k =
     (if k < 4 then reply (proceed ''+OK'') lost
      else reply (\<lambda>b. Some (if has_prefix ''+OK'' b then SYSM_OK else if has_prefix ''-ERR'' b then SYSM_BAD_AUTH else SYSM_BAD_RESP)) lost)"

definition imap_dialogue :: dialogue where
  "imap_dialogue k =
     (if k < 3 then reply (proceed ''* OK'') lost
      else reply (\<lambda>b. Some (case doover b of None \<Rightarrow> SYSM_BAD_RESP | Some s \<Rightarrow> imap_verdict s)) lost)"

definition smtp_dialogue :: dialogue where
  "smtp_dialogue k =
     (if k < 3 then reply (\<lambda>b. proceed ''220'' (chop b)) (\<lambda>eof. proceed ''220'' [])
      else reply (\<lambda>b. proceed ''221 '' (chop b)) (\<lambda>eof. proceed ''221 '' []))"

definition ssh_dialogue :: dialogue where
  "ssh_dialogue k =
     reply (\<lambda>b. Some (if has_prefix ''SSH'' (chop b) then SYSM_OK else SYSM_BAD_RESP)) (\<lambda>eof. Some SYSM_BAD_RESP)"

definition x500_dialogue :: dialogue where
  "x500_dialogue k = reply (\<lambda>b. Some (if has_prefix ''replication okay'' b then SYSM_OK else X500_WEDGED)) lost"

definition open_end :: "nat \<Rightarrow> int option" where "open_end k = None"

definition smtp_end :: "nat \<Rightarrow> int option" where
  "smtp_end k = (if k = 4 then Some SYSM_OK else None)"

lemma has_prefix_nil: "has_prefix (c # cs) [] = False"
  by (simp add: has_prefix_def)

lemma on_data_some: "m_monitordata m \<Longrightarrow> tw_data w (m_checkent m) = Some t \<Longrightarrow> on_data f (m, h, w) = f t m h w"
  by (simp add: on_data_def)

lemma talkingE:
  assumes "talking k m w"
  obtains t where "m_retval m = - 1" "m_monitordata m" "tw_data w (m_checkent m) = Some t" "t_state t = k"
  using assms by (auto simp: talking_def split: option.splits)

text \<open>What a turn does with one answer, and that it follows the dialogue.\<close>

definition read_turn :: "(string \<Rightarrow> turn) \<Rightarrow> (bool \<Rightarrow> turn) \<Rightarrow> read_result \<Rightarrow> turn" where
  "read_turn seen dead x t m w =
     (case x of Data s \<Rightarrow> if s = [] then dead True t m w else seen (c_text s) t m w | Eof \<Rightarrow> dead True t m w | Failed \<Rightarrow> dead False t m w)"

definition follows :: "int option \<Rightarrow> tcpdata \<Rightarrow> monitorent \<Rightarrow> tcp_world \<Rightarrow> tcpdata \<times> monitorent \<times> tcp_world \<Rightarrow> bool" where
  "follows step t m w x \<longleftrightarrow> (case x of (t', m', w') \<Rightarrow> case step of
       Some r \<Rightarrow> m_retval m' = r
     | None \<Rightarrow> m' = m \<and> t_state t' = Suc (t_state t) \<and> tw_inbox w' = tw_inbox w)"

lemma answered_none: "tw_inbox w (m_filedes m) = [] \<Longrightarrow> answered sz seen dead t m w = (t, m, w)"
  by (simp add: answered_def)

lemma answered_some:
  assumes "tw_inbox w (m_filedes m) = x # xs" "fits n x" "n \<le> sz"
  shows "answered sz seen dead t m w = read_turn seen dead x t m (w\<lparr>tw_inbox := (tw_inbox w)(m_filedes m := xs)\<rparr>)"
  using assms by (cases x) (simp_all add: answered_def read_turn_def fits_def Let_def)

lemma settle_stays: "m_retval m = - 1 \<Longrightarrow> m_monitordata m \<Longrightarrow> settled (t, m, w) h = (m', h', w') \<Longrightarrow>
  talking (t_state t) m' w' \<and> tw_inbox w' = tw_inbox w \<and> m_filedes m' = m_filedes m"
  by (auto simp: settled_def settle_def talking_def put_data_def)

lemma settle_result: "settled (t, m, w) h = (m', h', w') \<Longrightarrow> m_retval m' = m_retval m"
  by (auto simp: settled_def settle_def finish_def split: if_splits)

definition speaks :: "tcpdata \<Rightarrow> monitorent \<Rightarrow> tcp_world \<Rightarrow> hostinfo \<Rightarrow> dialogue \<Rightarrow> nat \<Rightarrow> monitorent \<times> hostinfo \<times> tcp_world \<Rightarrow> bool" where
  "speaks t m w h answer n y \<longleftrightarrow> (\<exists>sz seen dead. y = settled (answered sz seen dead t m w) h \<and> n \<le> sz \<and>
     (\<forall>m w x. fits n x \<longrightarrow> follows (answer (t_state t) x) t m w (read_turn seen dead x t m w)))"

lemma speaksI:
  assumes "y = settled (answered sz seen dead t m w) h" "n \<le> sz"
    "\<And>m w x. fits n x \<Longrightarrow> follows (answer (t_state t) x) t m w (read_turn seen dead x t m w)"
  shows "speaks t m w h answer n y"
  using assms unfolding speaks_def by blast

lemma dialogue_checkI:
  assumes service: "\<And>now t m h w. live (t_state t) \<Longrightarrow> closing (t_state t) = None \<Longrightarrow> m_monitordata m \<Longrightarrow> tw_data w (m_checkent m) = Some t \<Longrightarrow>
      speaks t m w h answer n (service now (m, h, w))"
    and close: "\<And>k r m w now h m' h' w'. closing k = Some r \<Longrightarrow> talking k m w \<Longrightarrow> service now (m, h, w) = (m', h', w') \<Longrightarrow> m_retval m' = r"
    and live_next: "\<And>k x. live k \<Longrightarrow> closing k = None \<Longrightarrow> answer k x = None \<Longrightarrow> live (Suc k)"
    and results: "\<And>k x. answer k x \<noteq> Some (- 1)" "\<And>k. closing k \<noteq> Some (- 1)"
  shows "dialogue_check service answer closing live n"
proof
  fix k m w now h m' h' w'
  assume a: "live k" "closing k = None" "talking k m w" "tw_inbox w (m_filedes m) = []" "service now (m, h, w) = (m', h', w')"
  from a(3) obtain t where t: "m_retval m = - 1" "m_monitordata m" "tw_data w (m_checkent m) = Some t" "t_state t = k" by (rule talkingE)
  with a service[of t m w h now] have "settled (t, m, w) h = (m', h', w')" by (auto simp: answered_none speaks_def)
  from settle_stays[OF t(1,2) this] t(4) show "talking k m' w' \<and> tw_inbox w' = tw_inbox w \<and> m_filedes m' = m_filedes m" by simp
next
  fix k m w x xs now h m' h' w'
  assume a: "live k" "closing k = None" "talking k m w" "tw_inbox w (m_filedes m) = x # xs" "fits n x" "service now (m, h, w) = (m', h', w')"
  from a(3) obtain t where t: "m_retval m = - 1" "m_monitordata m" "tw_data w (m_checkent m) = Some t" "t_state t = k" by (rule talkingE)
  let ?w = "w\<lparr>tw_inbox := (tw_inbox w)(m_filedes m := xs)\<rparr>"
  have "speaks t m w h answer n (service now (m, h, w))" using service[of t m w h now] a(1,2) t by simp
  then obtain sz seen dead where y: "service now (m, h, w) = settled (answered sz seen dead t m w) h" "n \<le> sz"
    "follows (answer (t_state t) x) t m ?w (read_turn seen dead x t m ?w)"
    unfolding speaks_def using a(5) by blast
  obtain t1 m1 w1 where r: "read_turn seen dead x t m ?w = (t1, m1, w1)" by (metis prod_cases3)
  have s: "settled (t1, m1, w1) h = (m', h', w')" using y(1) a(6) answered_some[OF a(4,5) y(2)] r by simp
  have f: "follows (answer k x) t m ?w (t1, m1, w1)" using y(3) t(4) r by simp
  {
    fix r assume "answer k x = Some r"
    with f settle_result[OF s] show "m_retval m' = r" by (simp add: follows_def)
  }
  {
    assume "answer k x = None"
    with f have "m1 = m" "t_state t1 = Suc k" "tw_inbox w1 = tw_inbox ?w" by (simp_all add: follows_def t(4))
    with settle_stays[of m t1 w1 h m' h' w'] s t(1,2)
    show "talking (Suc k) m' w' \<and> tw_inbox w' (m_filedes m) = xs \<and> m_filedes m' = m_filedes m" by simp
  }
qed (use close live_next results in \<open>auto\<close>)

lemmas turn_defs = follows_def read_turn_def result_def broken_def say_def expect_def and_send_def reply_def proceed_def lost_def has_prefix_nil tcp_send_def

lemma speaks_at:
  "(\<And>m w x. fits n x \<Longrightarrow> follows (answer (t_state t) x) t m w (read_turn seen dead x t m w)) \<Longrightarrow> n \<le> sz \<Longrightarrow>
   speaks t m w h answer n (settled (answered sz seen dead t m w) h)"
  by (rule speaksI) simp_all

lemma pop3_speaks:
  "t_state t \<in> {2, 3, 4} \<Longrightarrow> m_monitordata m \<Longrightarrow> tw_data w (m_checkent m) = Some t \<Longrightarrow>
   speaks t m w h pop3_dialogue 255 (service_test_pop3 now (m, h, w))"
  by (auto simp: service_test_pop3_def on_data_some pop3_dialogue_def turn_defs split: read_result.split intro!: speaks_at)

interpretation pop3_talk: dialogue_check service_test_pop3 pop3_dialogue open_end "\<lambda>k. k \<in> {2, 3, 4}" 255
  by (rule dialogue_checkI)
     (auto simp: pop3_speaks open_end_def pop3_dialogue_def reply_def proceed_def lost_def split: read_result.splits if_splits)

lemma ssh_speaks:
  "t_state t = 2 \<Longrightarrow> m_monitordata m \<Longrightarrow> tw_data w (m_checkent m) = Some t \<Longrightarrow>
   speaks t m w h ssh_dialogue 255 (service_test_sshd now (m, h, w))"
  by (auto simp: service_test_sshd_def Let_def on_data_some ssh_dialogue_def turn_defs split: read_result.split intro!: speaks_at)

interpretation ssh_talk: dialogue_check service_test_sshd ssh_dialogue open_end "\<lambda>k. k = 2" 255
  by (rule dialogue_checkI)
     (auto simp: ssh_speaks open_end_def ssh_dialogue_def reply_def split: read_result.splits if_splits)

lemma x500_speaks:
  "t_state t = 2 \<Longrightarrow> m_monitordata m \<Longrightarrow> tw_data w (m_checkent m) = Some t \<Longrightarrow>
   speaks t m w h x500_dialogue 254 (service_test_x500 now (m, h, w))"
  by (auto simp: service_test_x500_def on_data_some x500_dialogue_def turn_defs split: read_result.split intro!: speaks_at)

interpretation x500_talk: dialogue_check service_test_x500 x500_dialogue open_end "\<lambda>k. k = 2" 254
  by (rule dialogue_checkI)
     (auto simp: x500_speaks open_end_def x500_dialogue_def reply_def lost_def split: read_result.splits if_splits)

lemma smtp_speaks:
  "t_state t \<in> {2, 3} \<Longrightarrow> m_monitordata m \<Longrightarrow> tw_data w (m_checkent m) = Some t \<Longrightarrow>
   speaks t m w h smtp_dialogue 255 (service_test_smtp now (m, h, w))"
  by (auto simp: service_test_smtp_def on_data_some smtp_dialogue_def turn_defs split: read_result.split intro!: speaks_at)

lemma smtp_closes: "talking 4 m w \<Longrightarrow> service_test_smtp now (m, h, w) = (m', h', w') \<Longrightarrow> m_retval m' = SYSM_OK"
  by (erule talkingE) (auto simp: service_test_smtp_def on_data_some result_def dest: settle_result)

interpretation smtp_talk: dialogue_check service_test_smtp smtp_dialogue smtp_end "\<lambda>k. k \<in> {2, 3, 4}" 255
  by (rule dialogue_checkI)
     (auto simp: smtp_speaks smtp_end_def smtp_dialogue_def reply_def proceed_def dest: smtp_closes split: read_result.splits if_splits)

section \<open>The loop of the IMAP check\<close>

lemma doover_ends: "length s < 252 \<Longrightarrow> \<exists>r. doover s = Some r"
proof (induction "length s" arbitrary: s rule: less_induct)
  case less
  show ?case
  proof (cases "has_prefix ''*'' s \<and> NEWLINE \<in> set s")
    case True
    then obtain cs where s: "s = CHR ''*'' # cs" by (cases s) (auto simp: has_prefix_def)
    let ?rest = "tl (dropWhile (\<lambda>ch. ch \<noteq> NEWLINE) cs)"
    have "0 < length cs" using True s by auto
    with length_dropWhile_le[of "\<lambda>ch. ch \<noteq> NEWLINE" cs] have len: "length ?rest < length cs" unfolding length_tl by linarith
    have "drop_line s = ?rest" using len less.prems by (simp add: s drop_line_def)
    then have "doover s = doover ?rest" using True by (subst doover.simps) simp
    with less.hyps[of ?rest] len less.prems show ?thesis by (simp add: s)
  next
    case False
    then show ?thesis by (subst doover.simps) auto
  qed
qed

lemma doover_loops:
  assumes "has_prefix ''*'' s" "NEWLINE \<in> set s" "drop_line s = s"
  shows "doover s = None"
proof (rule ccontr)
  assume "doover s \<noteq> None"
  then obtain r where "doover s = Some r" by blast
  then have "s \<noteq> s"
  proof (rule doover.raw_induct[where P = "\<lambda>x y. x \<noteq> s", rotated])
    fix f x y
    assume IH: "\<And>x y. f x = Some y \<Longrightarrow> x \<noteq> s" and b: "(if has_prefix ''*'' x \<and> NEWLINE \<in> set x then f (drop_line x) else Some x) = Some y"
    show "x \<noteq> s"
    proof
      assume "x = s"
      with b assms have "f s = Some y" by simp
      then show False using IH by blast
    qed
  qed
  then show False by simp
qed

definition star_lines :: string where
  "star_lines = concat (replicate 127 [CHR ''*'', NEWLINE])"

lemma star_lines_loop: "doover star_lines = None"
  by (rule doover_loops) (code_simp+)

lemma imap_speaks:
  "t_state t \<in> {2, 3} \<Longrightarrow> m_monitordata m \<Longrightarrow> tw_data w (m_checkent m) = Some t \<Longrightarrow>
   speaks t m w h imap_dialogue 251 (service_test_imap now (m, h, w))"
proof -
  have c: "length s \<le> 251 \<Longrightarrow> \<exists>r. doover (c_text s) = Some r" for s
    using doover_ends[of "c_text s"] length_takeWhile_le[of "\<lambda>ch. ch \<noteq> CHR 0x00" s] by (simp add: c_text_def)
  show "t_state t \<in> {2, 3} \<Longrightarrow> m_monitordata m \<Longrightarrow> tw_data w (m_checkent m) = Some t \<Longrightarrow> ?thesis"
    by (auto simp: service_test_imap_def on_data_some imap_dialogue_def turn_defs fits_def split: read_result.split option.split
        intro!: speaks_at dest!: c)
qed

interpretation imap_talk: dialogue_check service_test_imap imap_dialogue open_end "\<lambda>k. k \<in> {2, 3}" 251
  by (rule dialogue_checkI)
     (auto simp: imap_speaks open_end_def imap_dialogue_def reply_def proceed_def lost_def imap_verdict_def split: read_result.splits if_splits option.splits)

section \<open>Properties of the dialogues\<close>

definition dialogues :: "(tcp_op \<times> dialogue \<times> (nat \<Rightarrow> int option) \<times> nat) list" where
  "dialogues =
     [(service_test_pop3, pop3_dialogue, open_end, 255), (service_test_imap, imap_dialogue, open_end, 251),
      (service_test_smtp, smtp_dialogue, smtp_end, 255), (service_test_sshd, ssh_dialogue, open_end, 255),
      (service_test_x500, x500_dialogue, open_end, 254)]"

text \<open>When the verdict of a dialogue is good.\<close>

lemma reply_none: "reply seen lost x = None \<longleftrightarrow> (\<exists>s. x = Data s \<and> s \<noteq> [] \<and> seen (c_text s) = None)"
  by (auto simp: reply_def lost_def split: read_result.split)

lemma reply_ok: "reply seen lost x = Some SYSM_OK \<longleftrightarrow> (\<exists>s. x = Data s \<and> s \<noteq> [] \<and> seen (c_text s) = Some SYSM_OK)"
  by (auto simp: reply_def lost_def split: read_result.split)

lemma verdict_openE:
  assumes "verdict open_end answer k xs = SYSM_OK"
  obtains (decided) y ys where "xs = y # ys" "answer k y = Some SYSM_OK"
    | (later) y ys where "xs = y # ys" "answer k y = None" "verdict open_end answer (Suc k) ys = SYSM_OK"
  using assms by (cases xs) (auto simp: open_end_def split: option.splits)

lemma proceed_simps: "proceed ok b = None \<longleftrightarrow> has_prefix ok b" "proceed ok b \<noteq> Some SYSM_OK"
  by (simp_all add: proceed_def)

lemma pop3_steps:
  "k < 4 \<Longrightarrow> pop3_dialogue k x \<noteq> Some SYSM_OK" "pop3_dialogue 4 x \<noteq> None"
  "k < 4 \<Longrightarrow> pop3_dialogue k x = None \<Longrightarrow> \<exists>s. x = Data s \<and> has_prefix ''+OK'' (c_text s)"
  "pop3_dialogue 4 x = Some SYSM_OK \<Longrightarrow> \<exists>s. x = Data s \<and> has_prefix ''+OK'' (c_text s)"
  by (auto simp: pop3_dialogue_def reply_none reply_ok proceed_simps split: if_splits)

lemma pop3_good_verdict:
  assumes "verdict open_end pop3_dialogue 2 xs = SYSM_OK"
  shows "\<exists>a b c rest. xs = Data a # Data b # Data c # rest \<and>
     has_prefix ''+OK'' (c_text a) \<and> has_prefix ''+OK'' (c_text b) \<and> has_prefix ''+OK'' (c_text c)"
proof -
  from assms obtain y ys where 2: "xs = y # ys" "pop3_dialogue 2 y = None" "verdict open_end pop3_dialogue 3 ys = SYSM_OK"
    by (rule verdict_openE) (simp_all add: pop3_steps(1) numeral_eq_Suc)
  from 2(3) obtain z zs where 3: "ys = z # zs" "pop3_dialogue 3 z = None" "verdict open_end pop3_dialogue 4 zs = SYSM_OK"
    by (rule verdict_openE) (simp_all add: pop3_steps(1) numeral_eq_Suc)
  from 3(3) obtain u us where 4: "zs = u # us" "pop3_dialogue 4 u = Some SYSM_OK"
    by (rule verdict_openE) (simp_all add: pop3_steps(2))
  from pop3_steps(3)[OF _ 2(2)] pop3_steps(3)[OF _ 3(2)] pop3_steps(4)[OF 4(2)] 2(1) 3(1) 4(1) show ?thesis by auto
qed

lemma imap_good_verdict:
  assumes "verdict open_end imap_dialogue 2 xs = SYSM_OK"
  shows "\<exists>a b rest s. xs = Data a # Data b # rest \<and> has_prefix ''* OK'' (c_text a) \<and> doover (c_text b) = Some s \<and> has_prefix ''A100 OK'' s"
proof -
  have steps: "imap_dialogue 2 x \<noteq> Some SYSM_OK" "imap_dialogue 2 x = None \<Longrightarrow> \<exists>s. x = Data s \<and> has_prefix ''* OK'' (c_text s)"
    "imap_dialogue 3 x \<noteq> None"
    "imap_dialogue 3 x = Some SYSM_OK \<Longrightarrow> \<exists>s d. x = Data s \<and> doover (c_text s) = Some d \<and> has_prefix ''A100 OK'' d" for x
    by (auto simp: imap_dialogue_def reply_none reply_ok proceed_simps imap_verdict_def split: if_splits option.splits)
  from assms obtain y ys where 2: "xs = y # ys" "imap_dialogue 2 y = None" "verdict open_end imap_dialogue 3 ys = SYSM_OK"
    by (rule verdict_openE) (simp_all add: steps(1))
  from 2(3) obtain u us where 3: "ys = u # us" "imap_dialogue 3 u = Some SYSM_OK"
    by (rule verdict_openE) (simp_all add: steps(3))
  from steps(2)[OF 2(2)] steps(4)[OF 3(2)] 2(1) 3(1) show ?thesis by auto
qed

lemma has_prefix_chop: "has_prefix p (chop s) \<Longrightarrow> has_prefix p s"
  by (auto simp: has_prefix_def chop_def butlast_conv_take min_def split: if_splits)

lemma smtp_good_verdict:
  assumes "verdict smtp_end smtp_dialogue 2 xs = SYSM_OK"
  shows "\<exists>a b rest. xs = Data a # Data b # rest \<and> has_prefix ''220'' (c_text a) \<and> has_prefix ''221 '' (c_text b)"
proof -
  have steps: "smtp_dialogue k x \<noteq> Some SYSM_OK" "smtp_dialogue 2 x = None \<Longrightarrow> \<exists>s. x = Data s \<and> has_prefix ''220'' (c_text s)"
    "smtp_dialogue 3 x = None \<Longrightarrow> \<exists>s. x = Data s \<and> has_prefix ''221 '' (c_text s)" for k x
    by (auto simp: smtp_dialogue_def reply_def proceed_def has_prefix_nil split: if_splits read_result.splits dest: has_prefix_chop)
  obtain y ys where 2: "xs = y # ys" "smtp_dialogue 2 y = None" "verdict smtp_end smtp_dialogue 3 ys = SYSM_OK"
    using assms steps(1) by (cases xs) (auto simp: smtp_end_def numeral_eq_Suc split: option.splits)
  obtain z zs where 3: "ys = z # zs" "smtp_dialogue 3 z = None"
    using 2(3) steps(1) by (cases ys) (auto simp: smtp_end_def numeral_eq_Suc split: option.splits)
  from steps(2)[OF 2(2)] steps(3)[OF 3(2)] 2(1) 3(1) show ?thesis by auto
qed

lemma dialogues_sound:
  assumes "(service, answer, closing, n) \<in> set dialogues"
  shows "\<exists>live. dialogue_check service answer closing live n \<and> live 2"
  using assms unfolding dialogues_def list.set insert_iff prod.inject empty_iff simp_thms
  by (elim disjE conjE; hypsubst)
     (rule exI, rule conjI, rule pop3_talk.dialogue_check_axioms imap_talk.dialogue_check_axioms smtp_talk.dialogue_check_axioms
        ssh_talk.dialogue_check_axioms x500_talk.dialogue_check_axioms, simp)+


text \<open>
  A silent server is never given up on by the check itself. Once the connection stands, a POP3, IMAP, SMTP, SSH or X.500 check whose
  server says nothing has no result, however much time passes between its turns: the global timeout is tested while connecting only.
\<close>

theorem silent_server_waits:
  assumes "(service, answer, closing, n) \<in> set dialogues" "talking 2 m w" "tw_inbox w (m_filedes m) = []"
  shows "m_retval (fst (tcp_run service (map (\<lambda>now. (now, \<lambda>w. w)) clocks) (m, h, w))) = - 1"
proof -
  have eq: "map (\<lambda>now. (now, \<lambda>w. w)) clocks = arrivals (m_filedes m) (map (\<lambda>now. (now, [])) clocks)"
    by (simp add: arrivals_def fun_eq_iff)
  have empty: "concat (map snd (map (\<lambda>now. (now, [])) clocks)) = []" by simp
  obtain live where d: "dialogue_check service answer closing live n" "live 2" using dialogues_sound[OF assms(1)] by blast
  obtain m' h' w' where r: "tcp_run service (arrivals (m_filedes m) (map (\<lambda>now. (now, [])) clocks)) (m, h, w) = (m', h', w')" by (metis prod_cases3)
  have c: "closing 2 = None" using assms(1) by (auto simp: dialogues_def open_end_def smtp_end_def)
  have "m_retval m' = - 1 \<or> m_retval m' = verdict closing answer 2 []"
    using dialogue_check.refined[OF d assms(2) _ r] unfolding empty assms(3) by simp
  with c show ?thesis by (simp add: eq r)
qed

text \<open>
  A good result needs the whole dialogue. A POP3 check reports success only after three answers that begin with \<open>+OK\<close> (the greeting, the user name and the
  password), an IMAP check only after a greeting \<open>* OK\<close> and a login answered by \<open>A100 OK\<close> once untagged lines are dropped, and an SMTP check only
  after a greeting \<open>220\<close> and a goodbye \<open>221\<close>.
\<close>

theorem good_result_needs_dialogue:
  assumes "talking 2 m w" "all = tw_inbox w (m_filedes m) @ concat (map snd rs)" "list_all (fits 251) all"
  shows "(m_retval (fst (tcp_run service_test_pop3 (arrivals (m_filedes m) rs) (m, h, w))) = SYSM_OK \<longrightarrow>
      (\<exists>a b c rest. all = Data a # Data b # Data c # rest \<and> has_prefix ''+OK'' (c_text a) \<and> has_prefix ''+OK'' (c_text b) \<and> has_prefix ''+OK'' (c_text c))) \<and>
    (m_retval (fst (tcp_run service_test_imap (arrivals (m_filedes m) rs) (m, h, w))) = SYSM_OK \<longrightarrow>
      (\<exists>a b rest s. all = Data a # Data b # rest \<and> has_prefix ''* OK'' (c_text a) \<and> doover (c_text b) = Some s \<and> has_prefix ''A100 OK'' s)) \<and>
    (m_retval (fst (tcp_run service_test_smtp (arrivals (m_filedes m) rs) (m, h, w))) = SYSM_OK \<longrightarrow>
      (\<exists>a b rest. all = Data a # Data b # rest \<and> has_prefix ''220'' (c_text a) \<and> has_prefix ''221 '' (c_text b)))"
proof -
  let ?run = "\<lambda>f. tcp_run f (arrivals (m_filedes m) rs) (m, h, w)"
  have big: "list_all (fits 255) all" using assms(3) by (auto simp: list_all_iff fits_def split: read_result.splits)
  obtain m1 h1 w1 where 1: "?run service_test_pop3 = (m1, h1, w1)" by (metis prod_cases3)
  obtain m2 h2 w2 where 2: "?run service_test_imap = (m2, h2, w2)" by (metis prod_cases3)
  obtain m3 h3 w3 where 3: "?run service_test_smtp = (m3, h3, w3)" by (metis prod_cases3)
  have "m_retval m1 = SYSM_OK \<Longrightarrow> verdict open_end pop3_dialogue 2 all = SYSM_OK"
    using pop3_talk.refined[OF _ assms(1) _ 1] big by (auto simp: assms(2)[symmetric])
  moreover have "m_retval m2 = SYSM_OK \<Longrightarrow> verdict open_end imap_dialogue 2 all = SYSM_OK"
    using imap_talk.refined[OF _ assms(1) _ 2] assms(3) by (auto simp: assms(2)[symmetric])
  moreover have "m_retval m3 = SYSM_OK \<Longrightarrow> verdict smtp_end smtp_dialogue 2 all = SYSM_OK"
    using smtp_talk.refined[OF _ assms(1) _ 3] big by (auto simp: assms(2)[symmetric])
  ultimately show ?thesis unfolding 1 2 3 fst_conv using pop3_good_verdict imap_good_verdict smtp_good_verdict by blast
qed

text \<open>
  A mail server can stop the daemon. An answer to the IMAP login that consists of 127 lines with nothing but an asterisk makes the loop
  that drops untagged lines copy the buffer onto itself for ever.
\<close>

theorem imap_login_reply_hangs:
  assumes "talking 3 m w" "tw_inbox w (m_filedes m) = Data star_lines # xs"
  shows "tw_stuck (snd (snd (service_test_imap now (m, h, w))))"
proof -
  obtain t where t: "m_retval m = - 1" "m_monitordata m" "tw_data w (m_checkent m) = Some t" "t_state t = 3"
    using assms(1) by (rule talkingE)
  have s: "star_lines \<noteq> []" "fits 255 (Data star_lines)" "c_text star_lines = star_lines" by code_simp+
  have "service_test_imap now (m, h, w) = settled (t, m, w\<lparr>tw_inbox := (tw_inbox w)(m_filedes m := xs), tw_stuck := True\<rparr>) h"
    using t answered_some[OF assms(2) s(2), of 255] s star_lines_loop
    by (simp add: service_test_imap_def on_data_some read_turn_def)
  with t(1) show ?thesis by (simp add: settled_def settle_def put_data_def)
qed

text \<open>The plain TCP check always ends: the first turn at or after the global timeout gives it a result.\<close>

lemma tcp_check_ends:
  assumes "m_monitordata m" "tw_data w (m_checkent m) = Some t" "now - t_start t \<ge> tw_globtimeout w"
  shows "m_retval (fst (service_test_tcp now (m, h, w))) \<noteq> - 1"
  using assms by (simp add: service_test_tcp_def on_data_some Let_def finish_def)

section \<open>Witnesses\<close>

definition mail_host :: my_hostent where
  "mail_host = \<lparr>h_name = ''mail'', h_addrtype_v4 = 2, h_length_v4 = 4, my_h_addr_v4 = [10, 0, 0, 1]\<rparr>"

definition net :: "(string \<Rightarrow> my_hostent option) \<Rightarrow> read_result list \<Rightarrow> tcp_world" where
  "net resolver answers =
     \<lparr>tw_data = \<lambda>_. None, tw_open = {}, tw_socket = 7, tw_resolve = resolver, tw_connect = Some EINPROGRESS, tw_error = \<lambda>_. None,
      tw_writable = \<lambda>_. True, tw_inbox = (\<lambda>_. [])(7 := answers), tw_input = \<lambda>_. [], tw_sent = \<lambda>_. [], tw_tv = (0, 0), tw_globtimeout = 30, tw_stuck = False\<rparr>"

definition waiting_in :: "nat \<Rightarrow> read_result list \<Rightarrow> tcp_world" where
  "waiting_in k answers = put_data 0 (Some (fresh_data 5 k)) (net (\<lambda>_. Some mail_host) answers)"

definition mail_entry :: monitorent where
  "mail_entry = (new_entry 0 ''mail'' (0, 0))\<lparr>m_filedes := 7, m_monitordata := True\<rparr>"

lemma waiting_talks: "talking k mail_entry (waiting_in k answers)" "tw_inbox (waiting_in k answers) (m_filedes mail_entry) = answers"
  by (simp_all add: talking_def mail_entry_def new_entry_def waiting_in_def put_data_def fresh_data_def net_def)


theorem unresolved_name_leaks_socket_witness:
  "7 \<in> tw_open (snd (snd (start_test (tcp_protocol SYSM_TYPE_SMTP) 5 (new_entry 0 ''mail'' (0, 0), zero_host, net (\<lambda>_. None) []))))"
proof -
  obtain m' h' w' where x: "start_test (tcp_protocol SYSM_TYPE_SMTP) 5 (new_entry 0 ''mail'' (0, 0), zero_host, net (\<lambda>_. None) []) = (m', h', w')"
    by (metis prod_cases3)
  from unresolved_name_leaks_socket[OF _ _ _ _ x, of 6] x show ?thesis by (simp add: net_def)
qed


theorem silent_server_waits_witness:
  "m_retval (fst (tcp_run service_test_imap (map (\<lambda>now. (now, \<lambda>w. w)) [100, 100000, 99999999]) (mail_entry, zero_host, waiting_in 2 []))) = - 1"
proof (rule silent_server_waits)
  show "(service_test_imap, imap_dialogue, open_end, 251) \<in> set dialogues" by (simp add: dialogues_def)
qed (rule waiting_talks)+

theorem good_result_needs_dialogue_witness:
  "m_retval (fst (tcp_run service_test_smtp (arrivals (m_filedes mail_entry) [(6, []), (7, []), (8, [])]) (mail_entry, zero_host, waiting_in 2 [Data ''554 no'']))) \<noteq> SYSM_OK"
proof -
  have "\<not> has_prefix ''220'' (c_text ''554 no'')" by code_simp
  with good_result_needs_dialogue[of mail_entry "waiting_in 2 [Data ''554 no'']" "[Data ''554 no'']" "[(6, []), (7, []), (8, [])]" zero_host]
  show ?thesis by (auto simp: waiting_talks fits_def)
qed

theorem imap_login_reply_hangs_witness:
  "tw_stuck (snd (snd (service_test_imap 6 (mail_entry, zero_host, waiting_in 3 [Data star_lines]))))"
  by (rule imap_login_reply_hangs[OF waiting_talks])

end
