(* ===== verification/Ping6_Check.thy ===== *)
theory Ping6_Check
  imports Icmp_Check
begin

text \<open>
  The IPv6 ping of pingv6.c. It shares the flag for the setuid helper and the counter of identities with icmp.c, so an operation works on
  the state of both; its data, its socket and its memory of a failed helper are its own.
\<close>

section \<open>State\<close>

record ping6data =
  v_ident :: u16
  v_target :: "byte list"
  v_ntransmitted :: u32
  v_nreceived :: u32
  v_outpack :: "byte list"
  v_lastsentat :: timeval

text \<open>\<open>vw_resolve\<close> is \<open>gethostbyname2\<close> for IPv6 addresses, and \<open>vw_sent\<close> the packets handed to the socket or to the helper.\<close>

record ping6_world =
  vw_fd :: int
  vw_data :: "nat \<Rightarrow> ping6data option"
  vw_helper_failed_once :: bool
  vw_resolve :: "string \<Rightarrow> byte list option"
  vw_sendto :: "errno_t option"
  vw_helper :: helper_result
  vw_sent :: "(byte list \<times> byte list) list"

type_synonym ping6_op = "(icmp_world \<times> ping6_world) check_op"

abbreviation (input) ICMP6_ECHO_REQUEST :: byte where "ICMP6_ECHO_REQUEST \<equiv> 128"
abbreviation (input) ICMP6_ECHO_REPLY :: byte where "ICMP6_ECHO_REPLY \<equiv> 129"
abbreviation (input) SEND_OCTETS :: nat where "SEND_OCTETS \<equiv> 24"
abbreviation (input) ping6_packet_delay :: int where "ping6_packet_delay \<equiv> 1000000"

definition put_ping6 :: "nat \<Rightarrow> ping6data option \<Rightarrow> ping6_world \<Rightarrow> ping6_world" where
  "put_ping6 k p w = w\<lparr>vw_data := (vw_data w)(k := p)\<rparr>"

section \<open>Sending\<close>

definition echo_request6 :: "u16 \<Rightarrow> u16 \<Rightarrow> byte list \<Rightarrow> byte list" where
  "echo_request6 ident seq outpack =
     (let rest = le16 ident @ le16 seq @ drop 8 outpack;
          ck = in_cksum (take SEND_OCTETS ([ICMP6_ECHO_REQUEST, 0, 0, 0] @ rest))
      in [ICMP6_ECHO_REQUEST, 0] @ le16 ck @ rest)"

text \<open>The sequence number is the count before this packet. Both sending functions build the packet.\<close>

definition counted6 :: "ping6data \<Rightarrow> ping6data" where
  "counted6 p = p\<lparr>v_outpack := echo_request6 (v_ident p) (ucast (v_ntransmitted p)) (v_outpack p), v_ntransmitted := v_ntransmitted p + 1\<rparr>"

definition handed_out :: "ping6data \<Rightarrow> ping6_world \<Rightarrow> ping6_world" where
  "handed_out p w = w\<lparr>vw_sent := vw_sent w @ [(v_target p, take SEND_OCTETS (v_outpack p))]\<rparr>"

definition pinger_v6_via_helper ::
    "ping6data \<times> monitorent \<times> icmp_world \<times> ping6_world \<Rightarrow> bool \<times> ping6data \<times> monitorent \<times> icmp_world \<times> ping6_world" where
  "pinger_v6_via_helper = (\<lambda>(p, m, iw, w).
     if vw_helper_failed_once w then (False, p, m\<lparr>m_retval := SYSM_ERR\<rparr>, iw, w)
     else let p1 = counted6 p
          in case vw_helper w of
               Helper_ok \<Rightarrow> (True, p1, m, iw, handed_out p1 w)
             | Helper_call_failed \<Rightarrow> (False, p1, m\<lparr>m_retval := SYSM_ERR\<rparr>, iw, w)
             | Helper_bad_status \<Rightarrow>
                 (False, p1, m\<lparr>m_retval := SYSM_ERR\<rparr>, iw\<lparr>iw_use_helper := False\<rparr>, w\<lparr>vw_helper_failed_once := True\<rparr>))"

definition via_helper6 :: "ping6data \<times> monitorent \<times> icmp_world \<times> ping6_world \<Rightarrow> ping6data \<times> monitorent \<times> icmp_world \<times> ping6_world" where
  "via_helper6 = (\<lambda>(p, m, iw, w).
     if iw_use_helper iw
     then (case pinger_v6_via_helper (p, m, iw, w) of (ok, p', m', iw', w') \<Rightarrow>
             ((if ok then p'\<lparr>v_lastsentat := iw_tv iw\<rparr> else p'), m', iw', w'))
     else (p, m, iw, w))"

definition pinger_v6 :: "ping6data \<times> monitorent \<times> icmp_world \<times> ping6_world \<Rightarrow> ping6data \<times> monitorent \<times> icmp_world \<times> ping6_world" where
  "pinger_v6 = (\<lambda>(p, m, iw, w).
     let p1 = counted6 p
     in if vw_fd w \<noteq> - 1 then
          (case vw_sendto w of
             None \<Rightarrow> (p1\<lparr>v_lastsentat := iw_tv iw\<rparr>, m, iw, handed_out p1 w)
           | Some e \<Rightarrow>
               if e = ENETUNREACH then (p1, m\<lparr>m_retval := SYSM_NETUNRCH\<rparr>, iw, w)
               else if e = EHOSTDOWN \<or> e = EHOSTUNREACH then (p1, m\<lparr>m_retval := SYSM_HOSTDOWN\<rparr>, iw, w)
               else if e = EPERM \<or> e = EACCES then via_helper6 (p1, m, iw, w)
               else (p1, m, iw, w))
        else via_helper6 (p1, m, iw, w))"

section \<open>The check\<close>

definition start_test_pingv6 :: ping6_op where
  "start_test_pingv6 now = (\<lambda>(m, h, iw, w).
     if vw_fd w = - 1 then (m\<lparr>m_retval := SYSM_OK\<rparr>, h, iw, w)
     else let m1 = m\<lparr>m_lastserv := iw_tv iw\<rparr> in
       (case vw_resolve w (h_hostname h) of
          None \<Rightarrow> (m1\<lparr>m_retval := SYSM_NODNS, m_monitordata := False\<rparr>, h, iw, w)
        | Some addr \<Rightarrow>
            let ident = generate_ident (iw_ident iw);
                p = \<lparr>v_ident = ident, v_target = addr, v_ntransmitted = 0, v_nreceived = 0, v_outpack = fresh_outpack, v_lastsentat = (0, 0)\<rparr>;
                (p1, m2, iw1, w1) = pinger_v6 (p, m1\<lparr>m_monitordata := True\<rparr>, iw\<lparr>iw_ident := ident\<rparr>, w)
            in (m2, h, iw1, put_ping6 (m_checkent m) (Some (p1\<lparr>v_lastsentat := iw_tv iw1\<rparr>)) w1)))"

definition service_test_pingv6 :: ping6_op where
  "service_test_pingv6 now = (\<lambda>(m, h, iw, w).
     case (if m_monitordata m then vw_data w (m_checkent m) else None) of
       None \<Rightarrow> (m, h, iw, w)
     | Some p \<Rightarrow>
         let m = m\<lparr>m_lastserv := iw_tv iw\<rparr>; passed = mydifftime (v_lastsentat p) (iw_tv iw) in
         if passed \<le> ping6_packet_delay then (m, h, iw, w)
         else if v_ntransmitted p \<ge> h_send_pings h \<and> passed \<ge> ping6_packet_delay * 2
         then (m\<lparr>m_retval := SYSM_UNPINGABLE, m_monitordata := False\<rparr>, h, iw, put_ping6 (m_checkent m) None w)
         else
           let (p1, m1, iw1, w1) = (if v_nreceived p < h_min_pings h \<and> passed \<ge> 2000000 then pinger_v6 (p, m, iw, w) else (p, m, iw, w))
           in if h_min_pings h \<le> v_nreceived p1
              then (m1\<lparr>m_retval := SYSM_OK, m_monitordata := False\<rparr>, h, iw1, put_ping6 (m_checkent m) None w1)
              else (m1, h, iw1, put_ping6 (m_checkent m) (Some p1) w1))"

definition stop_test_pingv6 :: ping6_op where
  "stop_test_pingv6 now = (\<lambda>(m, h, iw, w).
     (m\<lparr>m_monitordata := False\<rparr>, h, iw, if m_monitordata m then put_ping6 (m_checkent m) None w else w))"

section \<open>The reader of the socket\<close>

definition matches6 :: "u16 \<Rightarrow> byte list \<Rightarrow> ping6data \<Rightarrow> bool" where
  "matches6 ident from p \<longleftrightarrow> ident = v_ident p \<and> from = v_target p"

primrec give_reply6 :: "(nat \<Rightarrow> int) \<Rightarrow> u16 \<Rightarrow> byte list \<Rightarrow> monitorent list \<Rightarrow> ping6_world \<Rightarrow> ping6_world" where
  "give_reply6 types ident from [] w = w"
| "give_reply6 types ident from (m # ms) w =
     (let k = m_checkent m in
      if types k \<noteq> SYSM_TYPE_PINGv6 then give_reply6 types ident from ms w
      else case (if m_monitordata m then vw_data w k else None) of
             None \<Rightarrow> give_reply6 types ident from ms w
           | Some p \<Rightarrow> if matches6 ident from p then put_ping6 k (Some (p\<lparr>v_nreceived := v_nreceived p + 1\<rparr>)) w
                       else give_reply6 types ident from ms w)"

text \<open>
  The datagrams waiting on the socket with their sources. Their length is not looked at: a short one leaves the rest of the 64 bytes of
  \<open>rcvd_pkt\<close> as the one before left it.
\<close>

fun response_loop6 :: "(nat \<Rightarrow> int) \<Rightarrow> byte list \<Rightarrow> (byte list \<times> byte list) list \<Rightarrow> monitorent list \<Rightarrow> ping6_world \<Rightarrow> ping6_world" where
  "response_loop6 types buf [] q w = w"
| "response_loop6 types buf ((d, from) # ds) q w =
     (let b = received buf d
      in response_loop6 types b ds q
           (if b ! 0 \<noteq> ICMP6_ECHO_REPLY then w else give_reply6 types (of_le16 (b ! 4) (b ! 5)) from q w))"

definition handle_pingv6_responses :: "(nat \<Rightarrow> int) \<Rightarrow> byte list \<Rightarrow> (byte list \<times> byte list) list \<Rightarrow> monitorent list \<Rightarrow> ping6_world \<Rightarrow> ping6_world" where
  "handle_pingv6_responses types buf ds q w = (if vw_fd w = - 1 then w else response_loop6 types buf ds q w)"

section \<open>The contract of the scheduler\<close>

lemma pinger_v6_frame:
  assumes "pinger_v6 (p, m, iw, w) = (p', m', iw', w')"
  shows "same_entry m m' \<and> v_nreceived p' = v_nreceived p \<and> v_target p' = v_target p \<and> v_ident p' = v_ident p \<and> vw_data w' = vw_data w"
  using assms
  by (auto simp: pinger_v6_def via_helper6_def pinger_v6_via_helper_def counted6_def handed_out_def Let_def
      split: if_splits option.splits helper_result.splits)

lemma start_test_pingv6_keeps: "keeps_entry start_test_pingv6"
  by (rule keeps_entryI)
     (auto simp: start_test_pingv6_def Let_def same_entry_def split: if_splits option.splits prod.splits dest!: pinger_v6_frame)

lemma service_test_pingv6_keeps: "keeps_entry service_test_pingv6"
  by (rule keeps_entryI)
     (auto simp: service_test_pingv6_def Let_def same_entry_def split: if_splits option.splits prod.splits dest!: pinger_v6_frame)

lemma stop_test_pingv6_keeps: "keeps_entry stop_test_pingv6"
  by (rule keeps_entryI) (auto simp: stop_test_pingv6_def)

interpretation ping6: check_protocol start_test_pingv6 service_test_pingv6 stop_test_pingv6
  by unfold_locales (fact start_test_pingv6_keeps service_test_pingv6_keeps stop_test_pingv6_keeps)+

section \<open>Properties\<close>

text \<open>Datagrams from other addresses never change the data of a check, whatever they say.\<close>

lemma give_reply6_stranger:
  assumes "vw_data w k = Some p" "from \<noteq> v_target p"
  shows "vw_data (give_reply6 types ident from q w) k = Some p"
  using assms(1)
proof (induction q)
  case (Cons m ms)
  show ?case
  proof (cases "m_monitordata m \<and> types (m_checkent m) = SYSM_TYPE_PINGv6")
    case True
    show ?thesis
    proof (cases "vw_data w (m_checkent m)")
      case None
      with True Cons show ?thesis by (simp add: Let_def)
    next
      case (Some p')
      have "k \<noteq> m_checkent m" if "matches6 ident from p'" using that Some assms by (auto simp: matches6_def)
      with True Some Cons show ?thesis by (auto simp: Let_def put_ping6_def)
    qed
  qed (use Cons in \<open>auto simp: Let_def\<close>)
qed simp

theorem ping6_strangers_not_credited:
  assumes "vw_data w k = Some p" "list_all (\<lambda>(d, from). from \<noteq> v_target p) ds"
  shows "vw_data (handle_pingv6_responses types buf ds q w) k = Some p"
proof -
  have "vw_data (response_loop6 types buf ds q w) k = Some p"
    using assms by (induction types buf ds q w rule: response_loop6.induct) (auto simp: Let_def give_reply6_stranger)
  with assms(1) show ?thesis by (simp add: handle_pingv6_responses_def)
qed

text \<open>
  A packet that goes out through the helper is counted twice: both sending functions build it and count, so that a check gives up after half the
  packets it was told to send, and every second sequence number is left out.
\<close>

theorem helper_counts_twice:
  assumes "vw_sendto w = Some EPERM" "iw_use_helper iw" "\<not> vw_helper_failed_once w" "vw_helper w = Helper_ok"
    "pinger_v6 (p, m, iw, w) = (p', m', iw', w')"
  shows "v_ntransmitted p' = v_ntransmitted p + 2 \<and> length (vw_sent w') = length (vw_sent w) + 1"
proof -
  have "pinger_v6 (p, m, iw, w) =
      ((counted6 (counted6 p))\<lparr>v_lastsentat := iw_tv iw\<rparr>, m, iw, handed_out (counted6 (counted6 p)) w)"
    using assms(1-4) by (simp add: pinger_v6_def via_helper6_def pinger_v6_via_helper_def Let_def)
  with assms(5) show ?thesis by (auto simp: counted6_def handed_out_def)
qed

text \<open>
  A host that answered is reported as unreachable. Once the packets are sent and two seconds have passed since the last of them, the check gives up
  without looking at the replies.
\<close>

theorem ping6_ignores_replies:
  assumes "m_monitordata m" "vw_data w (m_checkent m) = Some p" "h_send_pings h \<le> v_ntransmitted p"
    "2000000 \<le> mydifftime (v_lastsentat p) (iw_tv iw)" "service_test_pingv6 now (m, h, iw, w) = (m', h', iw', w')"
  shows "m_retval m' = SYSM_UNPINGABLE \<and> \<not> m_monitordata m' \<and> vw_data w' (m_checkent m) = None"
proof -
  have "\<not> mydifftime (v_lastsentat p) (iw_tv iw) \<le> 1000000" using assms(4) by simp
  with assms show ?thesis by (auto simp: service_test_pingv6_def Let_def put_ping6_def)
qed

section \<open>Witnesses\<close>

definition ping6_probe :: ping6data where
  "ping6_probe = \<lparr>v_ident = 3, v_target = [0xfe, 0x80], v_ntransmitted = 4, v_nreceived = 4, v_outpack = fresh_outpack, v_lastsentat = (0, 0)\<rparr>"

definition ping6_net :: "errno_t option \<Rightarrow> ping6_world" where
  "ping6_net e = \<lparr>vw_fd = 5, vw_data = (\<lambda>_. None)(0 := Some ping6_probe), vw_helper_failed_once = False, vw_resolve = \<lambda>_. None, vw_sendto = e, vw_helper = Helper_ok, vw_sent = []\<rparr>"

theorem ping6_strangers_not_credited_witness:
  "vw_data (handle_pingv6_responses (\<lambda>_. SYSM_TYPE_PINGv6) (replicate 64 0) [([129, 0, 0, 0, 3, 0, 0, 0], [0x20, 0x01])]
     [(new_entry 0 ''core'' (0, 0))\<lparr>m_monitordata := True\<rparr>] (ping6_net None)) 0 = Some ping6_probe"
  by (rule ping6_strangers_not_credited) (simp_all add: ping6_net_def ping6_probe_def)

end
