(* ===== verification/Snmp_Wire.thy ===== *)
theory Snmp_Wire
  imports Ber_Reader "HOL-Library.Monad_Syntax"
begin

text \<open>
  The wire half of snmp.c: the BER writer that builds a GetRequest in a fixed buffer and the
  parser of the GetResponse. The writer's buffer is the list of the bytes written so far; its
  capacity and overflow flag are kept. The lemmas relate the writer to the element form
  the shared reader accepts, so that what is written is what is read back.
\<close>

section \<open>The writer\<close>

abbreviation (input) SNMP_TAG_INTEGER :: byte where "SNMP_TAG_INTEGER \<equiv> 0x02"
abbreviation (input) SNMP_TAG_OCTETSTR :: byte where "SNMP_TAG_OCTETSTR \<equiv> 0x04"
abbreviation (input) SNMP_TAG_NULL :: byte where "SNMP_TAG_NULL \<equiv> 0x05"
abbreviation (input) SNMP_TAG_OID :: byte where "SNMP_TAG_OID \<equiv> 0x06"
abbreviation (input) SNMP_TAG_SEQUENCE :: byte where "SNMP_TAG_SEQUENCE \<equiv> 0x30"
abbreviation (input) SNMP_PDU_GET :: byte where "SNMP_PDU_GET \<equiv> 0xa0"
abbreviation (input) SNMP_PDU_RESPONSE :: byte where "SNMP_PDU_RESPONSE \<equiv> 0xa2"
abbreviation (input) SNMP_MAX_SUBIDS :: nat where "SNMP_MAX_SUBIDS \<equiv> 128"
abbreviation (input) SNMP_VERSION_1 :: int where "SNMP_VERSION_1 \<equiv> 0"
abbreviation (input) SNMP_VERSION_2C :: int where "SNMP_VERSION_2C \<equiv> 1"

record ber_writer =
  wbuf :: "byte list"
  wcap :: nat
  woverflow :: bool

definition bw_init :: "nat \<Rightarrow> ber_writer" where
  "bw_init cap = \<lparr>wbuf = [], wcap = cap, woverflow = False\<rparr>"

definition bw_byte :: "byte \<Rightarrow> ber_writer \<Rightarrow> ber_writer" where
  "bw_byte b w =
     (if length (wbuf w) \<ge> wcap w then w\<lparr>woverflow := True\<rparr> else w\<lparr>wbuf := wbuf w @ [b]\<rparr>)"

definition bw_bytes :: "byte list \<Rightarrow> ber_writer \<Rightarrow> ber_writer" where
  "bw_bytes bs w = fold bw_byte bs w"

definition bw_open :: "byte \<Rightarrow> ber_writer \<Rightarrow> nat \<times> ber_writer" where
  "bw_open tag w = (let w1 = bw_byte 0 (bw_byte 0 (bw_byte 0 (bw_byte tag w))) in (length (wbuf w1), w1))"

text \<open>The short form moves the content down over the two spare length bytes.\<close>

definition bw_close :: "nat \<Rightarrow> ber_writer \<Rightarrow> ber_writer" where
  "bw_close start w =
     (if woverflow w \<or> start > length (wbuf w) then w
      else
        let content = length (wbuf w) - start in
        if content < 128 then
          w\<lparr>wbuf := take (start - 2) ((wbuf w)[start - 3 := of_nat content]) @ drop start (wbuf w)\<rparr>
        else if content < 0x10000 then
          w\<lparr>wbuf := (wbuf w)[start - 3 := 0x82, start - 2 := of_nat ((content div 256) mod 256),
                            start - 1 := of_nat (content mod 256)]\<rparr>
        else w\<lparr>woverflow := True\<rparr>)"

definition long_bytes :: "int \<Rightarrow> byte list" where
  "long_bytes v = map (\<lambda>i. ucast (drop_bit ((7 - i) * 8) (word_of_int v :: u64))) [0..<8]"

fun int_trim :: "byte list \<Rightarrow> byte list" where
  "int_trim (a # b # bs) =
     (if a = 0x00 \<and> b AND 0x80 = 0 then int_trim (b # bs)
      else if a = 0xff \<and> b AND 0x80 \<noteq> 0 then int_trim (b # bs)
      else a # b # bs)"
| "int_trim bs = bs"

definition bw_int :: "byte \<Rightarrow> int \<Rightarrow> ber_writer \<Rightarrow> ber_writer" where
  "bw_int tag v w =
     (let (start, w1) = bw_open tag w in bw_close start (bw_bytes (int_trim (long_bytes v)) w1))"

definition bw_string :: "byte \<Rightarrow> byte list \<Rightarrow> ber_writer \<Rightarrow> ber_writer" where
  "bw_string tag s w = (let (start, w1) = bw_open tag w in bw_close start (bw_bytes s w1))"

definition bw_null :: "ber_writer \<Rightarrow> ber_writer" where
  "bw_null w = (let (start, w1) = bw_open SNMP_TAG_NULL w in bw_close start w1)"

text \<open>
  The loop that reads the sub-identifiers: \<open>strtoul\<close> stops at the first character that is not
  a digit. \<open>None\<close> is the early \<open>return FALSE\<close>; the loop ends at the end of the text or when the
  table is full.
\<close>

function oid_subs :: "nat \<Rightarrow> string \<Rightarrow> nat list option" where
  "oid_subs n c =
     (if c = [] \<or> n \<ge> SNMP_MAX_SUBIDS then Some []
      else if \<not> is_digit (hd c) then None
      else
        let v = strtoul c; rest = dropWhile is_digit c in
        case rest of
          [] \<Rightarrow> Some [v]
        | d # r \<Rightarrow> if d = CHR ''.'' then map_option (Cons v) (oid_subs (n + 1) r) else None)"
  by pat_completeness auto
termination by (relation "measure (\<lambda>(n, c). SNMP_MAX_SUBIDS - n)") auto

declare oid_subs.simps [simp del]

text \<open>The base-128 digits, least significant first, as the \<open>do\<close> loop stores them.\<close>

fun base128 :: "nat \<Rightarrow> u64 \<Rightarrow> byte list" where
  "base128 0 v = []"
| "base128 (Suc fuel) v =
     ucast (v AND 0x7f) # (if drop_bit 7 v > 0 then base128 fuel (drop_bit 7 v) else [])"

definition sub_bytes :: "nat \<Rightarrow> byte list" where
  "sub_bytes v =
     (let ds = base128 10 (of_nat v) in map (\<lambda>d. d OR 0x80) (rev (tl ds)) @ [hd ds])"

definition bw_oid :: "string option \<Rightarrow> ber_writer \<Rightarrow> bool \<times> ber_writer" where
  "bw_oid dotted w =
     (case dotted of None \<Rightarrow> (False, w)
      | Some s \<Rightarrow>
         (case oid_subs 0 (case s of c # r \<Rightarrow> if c = CHR ''.'' then r else s | [] \<Rightarrow> s) of
            None \<Rightarrow> (False, w)
          | Some subs \<Rightarrow>
              if length subs < 2 \<or> subs ! 0 > 6 \<or> subs ! 1 > 39 then (False, w)
              else
                let (start, w1) = bw_open SNMP_TAG_OID w;
                    w2 = bw_byte (of_nat (subs ! 0 * 40 + subs ! 1)) w1;
                    w3 = bw_bytes (concat (map sub_bytes (drop 2 subs))) w2
                in (True, bw_close start w3)))"

definition snmp_build_get ::
    "nat \<Rightarrow> int \<Rightarrow> byte list option \<Rightarrow> u64 \<Rightarrow> string option \<Rightarrow> byte list option" where
  "snmp_build_get outlen version community reqid oid =
     (case community of None \<Rightarrow> None
      | Some com \<Rightarrow>
         if oid = None then None
         else if version \<noteq> SNMP_VERSION_1 \<and> version \<noteq> SNMP_VERSION_2C then None
         else
           let w0 = bw_init outlen;
               (msg, w1) = bw_open SNMP_TAG_SEQUENCE w0;
               w2 = bw_int SNMP_TAG_INTEGER version w1;
               w3 = bw_string SNMP_TAG_OCTETSTR com w2;
               (pdu, w4) = bw_open SNMP_PDU_GET w3;
               w5 = bw_int SNMP_TAG_INTEGER (uint (reqid AND 0x7fffffff)) w4;
               w6 = bw_int SNMP_TAG_INTEGER 0 w5;
               w7 = bw_int SNMP_TAG_INTEGER 0 w6;
               (vblist, w8) = bw_open SNMP_TAG_SEQUENCE w7;
               (vb, w9) = bw_open SNMP_TAG_SEQUENCE w8;
               (okay, w10) = bw_oid oid w9
           in if \<not> okay then None
              else
                let w11 = bw_close vb (bw_null w10);
                    w12 = bw_close vblist w11;
                    w13 = bw_close msg (bw_close pdu w12)
                in if woverflow w13 then None else Some (wbuf w13))"

section \<open>The response\<close>

record snmp_value =
  have_value :: bool
  sv_value :: u64
  sv_type :: string
  sv_oid :: string
  error_status :: int
  sv_exception :: string

definition zero_value :: snmp_value where
  "zero_value = \<lparr>have_value = False, sv_value = 0, sv_type = [], sv_oid = [], error_status = 0, sv_exception = []\<rparr>"

definition snmp_value_from_tag :: "byte \<Rightarrow> byte list \<Rightarrow> snmp_value \<Rightarrow> snmp_value" where
  "snmp_value_from_tag tag v out =
     (if tag = SNMP_TAG_INTEGER then
        out\<lparr>sv_type := ''INTEGER'', sv_value := word_of_int (snmp_ber_int v), have_value := True\<rparr>
      else if tag = 0x41 then out\<lparr>sv_type := ''Counter32'', sv_value := snmp_ber_uint v, have_value := True\<rparr>
      else if tag = 0x42 then out\<lparr>sv_type := ''Gauge32'', sv_value := snmp_ber_uint v, have_value := True\<rparr>
      else if tag = 0x43 then out\<lparr>sv_type := ''TimeTicks'', sv_value := snmp_ber_uint v, have_value := True\<rparr>
      else if tag = 0x46 then out\<lparr>sv_type := ''Counter64'', sv_value := snmp_ber_uint v, have_value := True\<rparr>
      else if tag = 0x80 then out\<lparr>sv_type := ''exception'', sv_exception := ''noSuchObject''\<rparr>
      else if tag = 0x81 then out\<lparr>sv_type := ''exception'', sv_exception := ''noSuchInstance''\<rparr>
      else if tag = 0x82 then out\<lparr>sv_type := ''exception'', sv_exception := ''endOfMibView''\<rparr>
      else if tag = SNMP_TAG_OCTETSTR then out\<lparr>sv_type := ''STRING''\<rparr>
      else if tag = 0x40 then out\<lparr>sv_type := ''IpAddress''\<rparr>
      else out\<lparr>sv_type := fit 16 (''tag 0x'' @ hex2 tag)\<rparr>)"

text \<open>
  One guarded read of the parser. \<open>fail\<close> is what the function returns when there is no element
  or it has another tag; \<open>out\<close> keeps what was stored before.
\<close>

definition need_tlv ::
    "ber_cursor \<Rightarrow> (byte \<Rightarrow> bool) \<Rightarrow> bool \<times> snmp_value \<Rightarrow>
     (byte \<Rightarrow> byte list \<Rightarrow> ber_cursor \<Rightarrow> (bool \<times> snmp_value) outcome) \<Rightarrow> (bool \<times> snmp_value) outcome" where
  "need_tlv c ok fail k =
     (case snmp_ber_next c of
        Fault \<Rightarrow> Fault
      | Reject \<Rightarrow> Got fail
      | Got (t, v, c') \<Rightarrow> if ok t then k t v c' else Got fail)"

definition parse_varbind :: "byte list \<Rightarrow> snmp_value \<Rightarrow> (bool \<times> snmp_value) outcome" where
  "parse_varbind val out =
     need_tlv (snmp_ber_open val) (\<lambda>t. t = SNMP_TAG_SEQUENCE) (error_status out \<noteq> 0, out) (\<lambda>_ val _.
     need_tlv (snmp_ber_open val) (\<lambda>t. t = SNMP_TAG_OID) (False, out) (\<lambda>_ val vb.
     let out = out\<lparr>sv_oid := snmp_ber_oid_str val 192\<rparr> in
     need_tlv vb (\<lambda>_. True) (False, out) (\<lambda>tag val _.
     Got (True, snmp_value_from_tag tag val out))))"

definition parse_pdu :: "u64 \<Rightarrow> byte list \<Rightarrow> (bool \<times> snmp_value) outcome" where
  "parse_pdu reqid val =
     need_tlv (snmp_ber_open val) (\<lambda>t. t = SNMP_TAG_INTEGER) (False, zero_value) (\<lambda>_ val pdu.
     if word_of_int (snmp_ber_int val) \<noteq> reqid AND 0x7fffffff then Got (False, zero_value)
     else
       need_tlv pdu (\<lambda>t. t = SNMP_TAG_INTEGER) (False, zero_value) (\<lambda>_ val pdu.
       let out = zero_value\<lparr>error_status := to_int32 (snmp_ber_int val)\<rparr> in
       need_tlv pdu (\<lambda>t. t = SNMP_TAG_INTEGER) (False, out) (\<lambda>_ _ pdu.
       need_tlv pdu (\<lambda>t. t = SNMP_TAG_SEQUENCE) (False, out) (\<lambda>_ val _.
       parse_varbind val out))))"

definition snmp_parse_response :: "byte list \<Rightarrow> u64 \<Rightarrow> (bool \<times> snmp_value) outcome" where
  "snmp_parse_response pkt reqid =
     (if pkt = [] then Got (False, zero_value)
      else
        need_tlv (snmp_ber_open pkt) (\<lambda>t. t = SNMP_TAG_SEQUENCE) (False, zero_value) (\<lambda>_ val _.
        need_tlv (snmp_ber_open val) (\<lambda>t. t = SNMP_TAG_INTEGER) (False, zero_value) (\<lambda>_ val seq.
        let version = to_int32 (snmp_ber_int val) in
        if version \<noteq> SNMP_VERSION_1 \<and> version \<noteq> SNMP_VERSION_2C then Got (False, zero_value)
        else
          need_tlv seq (\<lambda>t. t = SNMP_TAG_OCTETSTR) (False, zero_value) (\<lambda>_ _ seq.
          need_tlv seq (\<lambda>t. t = SNMP_PDU_RESPONSE) (False, zero_value) (\<lambda>_ val _.
          parse_pdu reqid val)))))"

text \<open>The counter of \<open>next_snmp_reqid\<close>: its static variable in, the new identifier (and value) out.\<close>

definition next_snmp_reqid :: "u64 \<Rightarrow> u64" where
  "next_snmp_reqid reqid = (if reqid + 1 > 0x7ffffffe then 1 else reqid + 1)"

section \<open>What the writer leaves behind\<close>

text \<open>
  \<open>emits f bs n\<close>: with room for \<open>n\<close> more bytes the operation \<open>f\<close> appends exactly \<open>bs\<close>. The room may
  exceed the result, since an open element takes two bytes more than a short one in the end.
\<close>

definition emits :: "(ber_writer \<Rightarrow> ber_writer) \<Rightarrow> byte list \<Rightarrow> nat \<Rightarrow> bool" where
  "emits f bs n =
     (length bs \<le> n \<and>
      (\<forall>w. \<not> woverflow w \<longrightarrow> length (wbuf w) + n \<le> wcap w \<longrightarrow> f w = w\<lparr>wbuf := wbuf w @ bs\<rparr>))"

lemma emits_byte: "emits (bw_byte b) [b] 1"
  by (simp add: emits_def bw_byte_def)

lemma emits_seq: "emits f a n \<Longrightarrow> emits g b m \<Longrightarrow> emits (\<lambda>w. g (f w)) (a @ b) (n + m)"
  unfolding emits_def by simp

lemma emits_bytes: "emits (bw_bytes bs) bs (length bs)"
proof (induction bs)
  case Nil
  then show ?case by (simp add: emits_def bw_bytes_def)
next
  case (Cons b bs)
  have "emits (\<lambda>w. bw_bytes bs (bw_byte b w)) ([b] @ bs) (1 + length bs)"
    by (rule emits_seq [OF emits_byte Cons.IH])
  then show ?case by (simp add: bw_bytes_def)
qed

lemma bw_open_room:
  "\<not> woverflow w \<Longrightarrow> length (wbuf w) + 4 \<le> wcap w \<Longrightarrow>
   bw_open t w = (length (wbuf w) + 4, w\<lparr>wbuf := wbuf w @ [t, 0, 0, 0]\<rparr>)"
  by (simp add: bw_open_def bw_byte_def Let_def)

lemma header_updates:
  "(pre @ t # x0 # y0 # z0 # v)[length pre + 4 - 3 := x] = pre @ t # x # y0 # z0 # v"
  "(pre @ t # x0 # y0 # z0 # v)[length pre + 4 - 2 := x] = pre @ t # x0 # x # z0 # v"
  "(pre @ t # x0 # y0 # z0 # v)[length pre + 4 - 1 := x] = pre @ t # x0 # y0 # x # v"
  "take (length pre + 4 - 2) (pre @ t # x0 # y0 # z0 # v) = pre @ [t, x0]"
  "drop (length pre + 4) (pre @ t # x0 # y0 # z0 # v) = v"
proof -
  have e: "length pre + 4 - 3 = length pre + 1" "length pre + 4 - 2 = length pre + 2" "length pre + 4 - 1 = length pre + 3"
    by simp_all
  show "(pre @ t # x0 # y0 # z0 # v)[length pre + 4 - 3 := x] = pre @ t # x # y0 # z0 # v"
    "(pre @ t # x0 # y0 # z0 # v)[length pre + 4 - 2 := x] = pre @ t # x0 # x # z0 # v"
    "(pre @ t # x0 # y0 # z0 # v)[length pre + 4 - 1 := x] = pre @ t # x0 # y0 # x # v"
    "take (length pre + 4 - 2) (pre @ t # x0 # y0 # z0 # v) = pre @ [t, x0]"
    "drop (length pre + 4) (pre @ t # x0 # y0 # z0 # v) = v"
    by (simp_all only: e list_update_append1 list_update_append) (simp_all add: numeral_3_eq_3 numeral_2_eq_2)
qed

lemma bw_close_room:
  assumes "\<not> woverflow w" "wbuf w = pre @ t # 0 # 0 # 0 # v" "length v < 65536"
  shows "bw_close (length pre + 4) w = w\<lparr>wbuf := pre @ tlv t v\<rparr>"
proof (cases "length v < 128")
  case True
  have "bw_close (length pre + 4) w =
      w\<lparr>wbuf := take (length pre + 4 - 2) ((pre @ t # 0 # 0 # 0 # v)[length pre + 4 - 3 := of_nat (length v)]) @
               drop (length pre + 4) (pre @ t # 0 # 0 # 0 # v)\<rparr>"
    using assms True by (simp add: bw_close_def Let_def)
  then show ?thesis using True by (simp only: header_updates tlv_def tlv_header_def) simp
next
  case False
  have "length v div 256 mod 256 = length v div 256" using assms(3) by (intro mod_less) auto
  then have "bw_close (length pre + 4) w =
      w\<lparr>wbuf := (pre @ t # 0 # 0 # 0 # v)[length pre + 4 - 3 := 0x82, length pre + 4 - 2 := of_nat (length v div 256),
         length pre + 4 - 1 := of_nat (length v mod 256)]\<rparr>"
    using assms False by (simp add: bw_close_def Let_def)
  then show ?thesis using False by (simp only: header_updates tlv_def tlv_header_def) simp
qed

lemma emits_element:
  assumes "emits f v n" "length v < 65536"
  shows "emits (\<lambda>w. let (start, w1) = bw_open t w in bw_close start (f w1)) (tlv t v) (n + 4)"
  unfolding emits_def
proof (intro conjI allI impI)
  show "length (tlv t v) \<le> n + 4" using assms(1) by (simp add: emits_def tlv_def tlv_header_def)
next
  fix w :: ber_writer assume w: "\<not> woverflow w" "length (wbuf w) + (n + 4) \<le> wcap w"
  let ?w1 = "w\<lparr>wbuf := wbuf w @ [t, 0, 0, 0]\<rparr>"
  have "f ?w1 = ?w1\<lparr>wbuf := wbuf ?w1 @ v\<rparr>" using assms(1) w by (simp add: emits_def)
  moreover have "bw_close (length (wbuf w) + 4) (w\<lparr>wbuf := wbuf w @ [t, 0, 0, 0] @ v\<rparr>) = w\<lparr>wbuf := wbuf w @ tlv t v\<rparr>"
    using bw_close_room [of "w\<lparr>wbuf := wbuf w @ [t, 0, 0, 0] @ v\<rparr>" "wbuf w" t v] w assms(2) by simp
  ultimately show "(let (start, w1) = bw_open t w in bw_close start (f w1)) = w\<lparr>wbuf := wbuf w @ tlv t v\<rparr>"
    using w by (simp add: bw_open_room)
qed

section \<open>Integers are written so that they read back\<close>

lemma be_signed_pair:
  "b AND 0x80 = 0 \<Longrightarrow> be_signed (0 # b # bs) = be_signed (b # bs)"
  "b AND 0x80 \<noteq> 0 \<Longrightarrow> be_signed (0xff # b # bs) = be_signed (b # bs)"
  by (simp_all add: be_signed_def be_nat_Cons byte_high_bit)

lemma int_trim_value:
  "bs \<noteq> [] \<Longrightarrow> int_trim bs \<noteq> [] \<and> length (int_trim bs) \<le> length bs \<and> be_signed (int_trim bs) = be_signed bs"
  by (induction bs rule: int_trim.induct) (auto simp: be_signed_pair split: if_splits)

fun be_bytes :: "nat \<Rightarrow> nat \<Rightarrow> byte list" where
  "be_bytes 0 x = []"
| "be_bytes (Suc n) x = be_bytes n (x div 256) @ [of_nat (x mod 256)]"

lemma be_nat_snoc: "be_nat (bs @ [b]) = be_nat bs * 256 + unat b"
  by (simp add: be_nat_def)

lemma be_nat_bytes: "x < 256 ^ n \<Longrightarrow> be_nat (be_bytes n x) = x"
proof (induction n arbitrary: x)
  case (Suc n)
  then have "x div 256 < 256 ^ n" by (intro less_mult_imp_div_less) (simp add: mult.commute)
  then show ?case using Suc.IH [of "x div 256"] by (simp add: be_nat_snoc unat_of_nat_byte)
qed simp

lemma length_be_bytes [simp]: "length (be_bytes n x) = n"
  by (induction n arbitrary: x) simp_all

lemma u64_less: "unat (w :: u64) < 18446744073709551616"
  using unsigned_less [of w, where 'a = nat] by simp

lemma ucast_drop_byte: "(ucast (drop_bit k (w :: u64)) :: byte) = of_nat (unat w div 2 ^ k mod 256)"
proof -
  have "unat (ucast (drop_bit k w) :: byte) = unat w div 2 ^ k mod 256"
    using u64_less [of w]
    by (simp add: unsigned_ucast_eq unsigned_drop_bit_eq take_bit_eq_mod) (simp add: drop_bit_eq_div)
  then show ?thesis by (metis of_nat_unat ucast_id)
qed

lemma be_bytes_map: "be_bytes n x = map (\<lambda>i. of_nat (x div 256 ^ (n - Suc i) mod 256)) [0..<n]"
proof (induction n arbitrary: x)
  case (Suc n)
  have "x div 256 div 256 ^ (n - Suc i) = x div 256 ^ (n - i)" if "i < n" for i
  proof -
    have "n - i = Suc (n - Suc i)" using that by simp
    then show ?thesis by (simp only: power_Suc div_mult2_eq)
  qed
  then show ?case using Suc.IH by simp
qed simp

lemma long_bytes_eq: "long_bytes v = be_bytes 8 (unat (word_of_int v :: u64))"
proof -
  have "(2 :: nat) ^ ((7 - i) * 8) = 256 ^ (8 - Suc i)" for i
    by (simp add: power_mult mult.commute [of _ 8])
  then show ?thesis by (simp add: long_bytes_def ucast_drop_byte be_bytes_map del: upt_Suc)
qed

lemma be_signed_long:
  assumes "LONG_MIN \<le> v" "v \<le> LONG_MAX"
  shows "be_signed (long_bytes v) = v"
proof -
  define U where "U = unat (word_of_int v :: u64)"
  have U: "int U = v mod 2 ^ 64" unfolding U_def by (simp add: unsigned_of_int take_bit_eq_mod)
  have lt: "U < 2 ^ 64" unfolding U_def using u64_less by simp
  have nat: "be_nat (long_bytes v) = U" using lt by (simp add: long_bytes_eq U_def [symmetric] be_nat_bytes)
  have "length (long_bytes v) = 8" by (simp add: long_bytes_eq)
  then obtain b bs where lb: "long_bytes v = b # bs" "length bs = 7" by (cases "long_bytes v") auto
  have "U = unat b * 256 ^ 7 + be_nat bs" using nat lb by (simp add: be_nat_Cons)
  moreover have "be_nat bs < 256 ^ 7" using be_nat_bound [of bs] lb(2) by simp
  ultimately have hi: "128 \<le> unat b \<longleftrightarrow> 2 ^ 63 \<le> U" by (cases "128 \<le> unat b") auto
  show ?thesis
  proof (cases "0 \<le> v")
    case True
    then have "int U = v" using U assms by simp
    then show ?thesis using hi assms(2) nat lb by (simp add: be_signed_def)
  next
    case False
    then have "int U = v + 2 ^ 64" using U assms(1) mod_neg_pos [of v "2 ^ 64"] by simp
    then show ?thesis using hi assms(1) nat lb False by (simp add: be_signed_def)
  qed
qed

lemma snmp_ber_int_written:
  assumes "LONG_MIN \<le> v" "v \<le> LONG_MAX"
  shows "snmp_ber_int (int_trim (long_bytes v)) = v"
proof -
  have l: "length (long_bytes v) = 8" by (simp add: long_bytes_eq)
  then have "long_bytes v \<noteq> []" by auto
  from int_trim_value [OF this] snmp_ber_int_eq [of "int_trim (long_bytes v)"] l
  show ?thesis by (simp add: be_signed_long [OF assms])
qed

section \<open>Object identifiers\<close>

text \<open>The text of an object identifier, and the bytes the writer emits for it.\<close>

definition dotted :: "nat list \<Rightarrow> string" where
  "dotted subs = concat (map (\<lambda>v. CHR ''.'' # dec_string v) subs)"

definition oid_content :: "nat list \<Rightarrow> byte list" where
  "oid_content subs = of_nat (subs ! 0 * 40 + subs ! 1) # concat (map sub_bytes (drop 2 subs))"

lemma strtoul_front:
  assumes "v \<le> ULONG_MAX" "r = [] \<or> \<not> is_digit (hd r)"
  shows "strtoul (dec_string v @ r) = v" "dropWhile is_digit (dec_string v @ r) = r" "is_digit (hd (dec_string v @ r))"
proof -
  obtain c cs where c: "dec_string v = c # cs" "is_digit c" using dec_string_Cons by blast
  have all: "\<And>d. d \<in> set (dec_string v) \<Longrightarrow> is_digit d" by (rule dec_string_digits)
  have r: "takeWhile is_digit r = []" "dropWhile is_digit r = r" using assms(2) by (cases r; simp)+
  have tw: "takeWhile is_digit (dec_string v @ r) = dec_string v" "dropWhile is_digit (dec_string v @ r) = r"
    using all r by simp_all
  show "dropWhile is_digit (dec_string v @ r) = r" by (rule tw)
  show "is_digit (hd (dec_string v @ r))" using c by simp
  have "scan_number (dec_string v @ r) = (False, dec_string v, r)"
    using c tw digit_not_sign [of c] digit_not_space [of c] by (simp add: scan_number_def Let_def)
  then show "strtoul (dec_string v @ r) = v" using assms(1) by (simp add: strtoul_def digits_val_dec_string)
qed

lemma dropWhile_dec: "dropWhile is_digit (dec_string v) = []"
  by (rule dropWhile_digits) (rule dec_string_digits)

lemma not_digit_dot: "\<not> is_digit CHR ''.''"
  by (simp add: is_digit_def)

lemma oid_subs_dotted:
  "subs \<noteq> [] \<Longrightarrow> \<forall>v \<in> set subs. v \<le> ULONG_MAX \<Longrightarrow> n + length subs \<le> 128 \<Longrightarrow>
   oid_subs n (tl (dotted subs)) = Some subs"
proof (induction subs arbitrary: n)
  case (Cons v vs)
  have v: "v \<le> ULONG_MAX" using Cons.prems(2) by simp
  have n: "\<not> 128 \<le> n" using Cons.prems(3) by simp
  show ?case
  proof (cases vs)
    case Nil
    then show ?thesis using strtoul_front [OF v, of "[]"] n
      by (subst oid_subs.simps) (simp add: dotted_def dropWhile_dec)
  next
    case (Cons u us)
    have d: "tl (dotted (v # vs)) = dec_string v @ dotted vs" by (simp add: dotted_def)
    obtain T where T: "dotted vs = CHR ''.'' # T" using Cons by (simp add: dotted_def)
    have f: "strtoul (dec_string v @ CHR ''.'' # T) = v" "dropWhile is_digit (dec_string v @ CHR ''.'' # T) = CHR ''.'' # T"
      "is_digit (hd (dec_string v @ CHR ''.'' # T))"
      by (rule strtoul_front [OF v]; simp add: not_digit_dot)+
    have "oid_subs (Suc n) T = Some vs"
      using Cons.IH [of "Suc n"] Cons.prems Cons T by simp
    then show ?thesis unfolding d T using f n
      by (subst oid_subs.simps) (simp add: Let_def)
  qed
qed simp

text \<open>The continuation bytes of a sub-identifier, most significant first.\<close>

fun hi128 :: "nat \<Rightarrow> byte list" where
  "hi128 u = (if u = 0 then [] else hi128 (u div 128) @ [of_nat (u mod 128) OR 0x80])"

declare hi128.simps [simp del]

lemma base128_nat:
  "v < 2 ^ 64 \<Longrightarrow> 0 < fuel \<Longrightarrow>
   base128 fuel (of_nat v) = of_nat (v mod 128) #
     (if v div 128 > 0 then base128 (fuel - 1) (of_nat (v div 128)) else [])"
proof -
  assume "v < 2 ^ 64" "0 < fuel"
  then obtain f where f: "fuel = Suc f" by (cases fuel) auto
  have u: "unat (of_nat v :: u64) = v" using \<open>v < 2 ^ 64\<close> by (intro unat_of_nat_len) simp
  have d: "drop_bit 7 (of_nat v :: u64) = of_nat (v div 128)"
  proof -
    have "unat (drop_bit 7 (of_nat v :: u64)) = v div 128"
      using u \<open>v < 2 ^ 64\<close> by (simp add: unsigned_drop_bit_eq drop_bit_eq_div [where 'a = nat] take_bit_eq_mod)
    then show ?thesis by (metis of_nat_unat ucast_id)
  qed
  have lo: "(ucast ((of_nat v :: u64) AND 0x7f) :: byte) = of_nat (v mod 128)"
  proof -
    have "(of_nat v :: u64) AND 0x7f = take_bit 7 (of_nat v)" by (simp add: take_bit_eq_mask mask_eq_exp_minus_1)
    then have "unat ((of_nat v :: u64) AND 0x7f) = v mod 128"
      using u by (simp add: take_bit_eq_mod unat_mod)
    then show ?thesis by (metis of_nat_unat)
  qed
  have "v div 128 < 2 ^ 64" using \<open>v < 2 ^ 64\<close> by simp
  then have "(of_nat (v div 128) :: u64) > 0 \<longleftrightarrow> v div 128 > 0"
    using unat_of_nat_len [of "v div 128", where 'a = 64] by (simp only: word_less_nat_alt) simp
  then show ?thesis using f d lo by simp
qed

lemma base128_hi:
  "v < 128 ^ fuel \<Longrightarrow> v < 2 ^ 64 \<Longrightarrow> 0 < v \<Longrightarrow>
   map (\<lambda>d. d OR 0x80) (rev (base128 fuel (of_nat v))) = hi128 v"
proof (induction fuel arbitrary: v)
  case (Suc fuel)
  have "v div 128 < 128 ^ fuel" using Suc.prems(1) by (intro less_mult_imp_div_less) (simp add: mult.commute)
  moreover have "v div 128 < 2 ^ 64" using Suc.prems(2) by simp
  ultimately show ?case using Suc.IH [of "v div 128"] base128_nat [OF Suc.prems(2), of "Suc fuel"] Suc.prems(3)
    by (subst hi128.simps) (simp add: hi128.simps [of 0])
qed simp

lemma sub_bytes_eq:
  assumes "v < 2 ^ 64"
  shows "sub_bytes v = hi128 (v div 128) @ [of_nat (v mod 128)]"
proof -
  have "v div 128 < 128 ^ 9" "v div 128 < 2 ^ 64" using assms by (auto intro: less_mult_imp_div_less)
  then show ?thesis using base128_nat [OF assms, of 10] base128_hi [of "v div 128" 9]
    by (simp add: sub_bytes_def Let_def hi128.simps [of 0])
qed

lemma hi128_length: "u < 128 ^ k \<Longrightarrow> length (hi128 u) \<le> k"
proof (induction k arbitrary: u)
  case 0
  then show ?case by (simp add: hi128.simps)
next
  case (Suc k)
  have "u div 128 < 128 ^ k" using Suc.prems by (intro less_mult_imp_div_less) (simp add: mult.commute)
  then show ?case using Suc.IH by (subst hi128.simps) simp
qed

lemma small_bits: "n < 128 \<Longrightarrow> take_bit 7 (of_nat n :: 'a::len word) = of_nat n"
  by (simp only: take_bit_of_nat) (simp add: take_bit_eq_mod)

lemma ucast_low: "n < 128 \<Longrightarrow> (ucast (of_nat n :: byte) :: u64) AND 0x7f = of_nat n"
proof -
  assume n: "n < 128"
  have "(0x7f :: u64) = mask 7" by (simp add: mask_eq_exp_minus_1)
  then have "(ucast (of_nat n :: byte) :: u64) AND 0x7f = take_bit 7 (of_nat n)"
    using n ucast_of_nat_byte [of n] by (simp add: take_bit_eq_mask)
  then show ?thesis using small_bits [OF n, where 'a = 64] by simp
qed

lemma push_or_low: "n < 128 \<Longrightarrow> push_bit 7 (of_nat u :: u64) OR of_nat n = of_nat (u * 128 + n)"
proof -
  assume n: "n < 128"
  have "push_bit 7 (of_nat u :: u64) AND take_bit 7 (of_nat n) = 0"
    by (rule bit_eqI) (auto simp: bit_simps)
  then have "push_bit 7 (of_nat u :: u64) OR of_nat n = push_bit 7 (of_nat u) + of_nat n"
    using small_bits [OF n, where 'a = 64] by (simp add: disjunctive_add_eq_or)
  then show ?thesis by (simp add: push_bit_eq_mult)
qed

lemma low7:
  assumes "n < 128"
  shows "push_bit 7 (of_nat u :: u64) OR (ucast (of_nat n :: byte) AND 0x7f) = of_nat (u * 128 + n)"
    and "push_bit 7 (of_nat u :: u64) OR (ucast (of_nat n OR 0x80 :: byte) AND 0x7f) = of_nat (u * 128 + n)"
proof -
  have "(ucast (of_nat n OR 0x80 :: byte) :: u64) AND 0x7f = (ucast (of_nat n :: byte) AND 0x7f) OR (ucast (0x80 :: byte) AND 0x7f)"
    by (simp only: unsigned_or_eq bit.conj_disj_distrib2)
  then have "(ucast (of_nat n OR 0x80 :: byte) :: u64) AND 0x7f = of_nat n"
    using ucast_low [OF assms] by simp
  then show "push_bit 7 (of_nat u :: u64) OR (ucast (of_nat n OR 0x80 :: byte) AND 0x7f) = of_nat (u * 128 + n)"
    using push_or_low [OF assms] by simp
  show "push_bit 7 (of_nat u :: u64) OR (ucast (of_nat n :: byte) AND 0x7f) = of_nat (u * 128 + n)"
    using push_or_low [OF assms] ucast_low [OF assms] by simp
qed

lemma high_flag: "n < 128 \<Longrightarrow> (of_nat n OR 0x80 :: byte) AND 0x80 \<noteq> 0" "n < 128 \<Longrightarrow> (of_nat n :: byte) AND 0x80 = 0"
proof -
  have "(x OR 0x80 :: byte) AND 0x80 = 0x80" for x by (rule bit_eqI) (auto simp: bit_simps)
  then show "(of_nat n OR 0x80 :: byte) AND 0x80 \<noteq> 0" by simp
qed (simp add: byte_high_bit unat_of_nat_byte)

lemma oid_loop_hi:
  "u < 128 ^ 5 \<Longrightarrow> oid_loop L (hi128 u @ rest) 0 0 ids out = oid_loop L rest (of_nat u) (length (hi128 u)) ids out"
proof (induction u arbitrary: rest rule: hi128.induct)
  case (1 u)
  show ?case
  proof (cases "u = 0")
    case True
    then show ?thesis by (simp add: hi128.simps)
  next
    case False
    let ?b = "of_nat (u mod 128) OR 0x80 :: byte"
    have h: "hi128 u = hi128 (u div 128) @ [?b]" using False by (subst hi128.simps) simp
    have "u div 128 < 128 ^ 4" using "1.prems" by auto
    then have len: "length (hi128 (u div 128)) \<le> 4" by (rule hi128_length)
    have "oid_loop L (hi128 u @ rest) 0 0 ids out =
        oid_loop L (?b # rest) (of_nat (u div 128)) (length (hi128 (u div 128))) ids out"
      using "1.IH" [OF False, of "?b # rest"] "1.prems" by (simp add: h)
    also have "\<dots> = oid_loop L rest (of_nat (u div 128 * 128 + u mod 128)) (length (hi128 (u div 128)) + 1) ids out"
      using len low7(2) [of "u mod 128" "u div 128"] high_flag(1) [of "u mod 128"] by (simp add: Let_def)
    finally show ?thesis by (simp add: h)
  qed
qed

lemma oid_loop_sub:
  assumes "v < 128 ^ 5" "ids < 64" "length out + length (dec_string v) + 2 < L"
  shows "oid_loop L (sub_bytes v @ rest) 0 0 ids out = oid_loop L rest 0 0 (ids + 1) (out @ CHR ''.'' # dec_string v)"
proof -
  have len: "length (hi128 (v div 128)) \<le> 4"
    using assms(1) by (intro hi128_length less_mult_imp_div_less) simp
  have part: "fit 24 (CHR ''.'' # dec_string v) = CHR ''.'' # dec_string v"
    using dec_string_length [of v 10] assms(1) by (intro fit_id) simp
  have "unat (of_nat v :: u64) = v" using assms(1) by (intro unat_of_nat_len) simp
  moreover have "oid_loop L (sub_bytes v @ rest) 0 0 ids out =
      oid_loop L (of_nat (v mod 128) # rest) (of_nat (v div 128)) (length (hi128 (v div 128))) ids out"
    using assms(1) oid_loop_hi [of "v div 128" L "of_nat (v mod 128) # rest" ids out] by (simp add: sub_bytes_eq)
  ultimately show ?thesis
    using len low7(1) [of "v mod 128" "v div 128"] high_flag(2) [of "v mod 128"] assms(2,3) part
    by (simp add: Let_def)
qed

lemma oid_loop_subs:
  "\<forall>v \<in> set vs. v < 128 ^ 5 \<Longrightarrow> ids + length vs \<le> 64 \<Longrightarrow> length out + length (dotted vs) + 1 < L \<Longrightarrow>
   oid_loop L (concat (map sub_bytes vs)) 0 0 ids out = out @ dotted vs"
proof (induction vs arbitrary: ids out)
  case (Cons v vs)
  have "length (dotted (v # vs)) = length (dec_string v) + 1 + length (dotted vs)" by (simp add: dotted_def)
  then show ?case using Cons.prems Cons.IH [of "ids + 1" "out @ CHR ''.'' # dec_string v"]
      oid_loop_sub [of v ids out L "concat (map sub_bytes vs)"] by (simp add: dotted_def)
qed (simp add: dotted_def)

definition plain_oid :: "nat list \<Rightarrow> bool" where
  "plain_oid subs = (2 \<le> length subs \<and> length subs \<le> 66 \<and> subs ! 0 \<le> 2 \<and> subs ! 1 \<le> 39
     \<and> list_all (\<lambda>v. v < 128 ^ 5) subs)"

lemma plain_oid_cases:
  assumes "plain_oid subs"
  obtains a b vs where "subs = a # b # vs" "a \<le> 2" "b \<le> 39" "length vs \<le> 64" "\<forall>v \<in> set vs. v < 128 ^ 5"
proof -
  obtain a b vs where "subs = a # b # vs"
    using assms unfolding plain_oid_def by (cases subs; cases "tl subs") auto
  then show ?thesis using that assms by (auto simp: plain_oid_def list_all_iff)
qed

lemma dec_string_012: "dec_string 0 = ''0''" "dec_string 1 = ''1''" "dec_string (Suc 0) = ''1''" "dec_string 2 = ''2''"
  by code_simp+

lemma oid_head_eq: "a \<le> 2 \<Longrightarrow> b \<le> 39 \<Longrightarrow> oid_head (of_nat (a * 40 + b)) = dotted [a, b]"
proof -
  assume ab: "a \<le> 2" "b \<le> 39"
  then have u: "unat (of_nat (a * 40 + b) :: byte) = a * 40 + b" by (intro unat_of_nat_byte) simp
  have q: "(40 + b) div 40 = 1" "(40 + b) mod 40 = b" using ab by (simp_all add: div_add_self1)
  consider "a = 0" | "a = 1" | "a = 2" using ab by linarith
  then show ?thesis using ab u q by cases (simp_all add: oid_head_def dotted_def dec_string_012)
qed

lemma oid_read_back:
  assumes "plain_oid subs" "length (dotted subs) + 1 < L"
  shows "snmp_ber_oid_str (oid_content subs) L = dotted subs"
proof -
  obtain a b vs where s: "subs = a # b # vs" "a \<le> 2" "b \<le> 39" "length vs \<le> 64" "\<forall>v \<in> set vs. v < 128 ^ 5"
    using plain_oid_cases [OF assms(1)] by metis
  have d: "dotted subs = dotted [a, b] @ dotted vs" by (simp add: s dotted_def)
  then have "length (dotted [a, b]) < L" using assms(2) by simp
  then have "fit L (oid_head (of_nat (a * 40 + b))) = dotted [a, b]" using s oid_head_eq by (simp add: fit_id)
  then show ?thesis
    using oid_loop_subs [OF s(5), of 0 "dotted [a, b]" L] s assms(2) d
    by (simp add: snmp_ber_oid_str_def oid_content_def)
qed

section \<open>The request on the wire\<close>

lemma emits_mono: "emits f bs n \<Longrightarrow> n \<le> m \<Longrightarrow> emits f bs m"
  by (auto simp: emits_def)

definition int_tlv :: "int \<Rightarrow> byte list" where
  "int_tlv v = tlv SNMP_TAG_INTEGER (int_trim (long_bytes v))"

lemma int_trim_long: "int_trim (long_bytes v) \<noteq> []" "length (int_trim (long_bytes v)) \<le> 8"
proof -
  have l: "length (long_bytes v) = 8" by (simp add: long_bytes_eq)
  then have "long_bytes v \<noteq> []" by auto
  from int_trim_value [OF this] l show "int_trim (long_bytes v) \<noteq> []" "length (int_trim (long_bytes v)) \<le> 8"
    by simp_all
qed

lemma emits_int: "emits (bw_int SNMP_TAG_INTEGER v) (int_tlv v) 12"
proof -
  have "emits (bw_int SNMP_TAG_INTEGER v) (int_tlv v) (length (int_trim (long_bytes v)) + 4)"
    unfolding bw_int_def int_tlv_def using int_trim_long(2) [of v]
    by (intro emits_element [OF emits_bytes]) simp
  then show ?thesis by (rule emits_mono) (use int_trim_long(2) [of v] in linarith)
qed

lemma emits_string: "length s < 65536 \<Longrightarrow> emits (bw_string t s) (tlv t s) (length s + 4)"
  unfolding bw_string_def by (rule emits_element [OF emits_bytes])

lemma emits_null: "emits bw_null (tlv SNMP_TAG_NULL []) 4"
proof -
  have "emits (\<lambda>w. w) [] 0" by (simp add: emits_def)
  from emits_element [OF this, of SNMP_TAG_NULL] show ?thesis by (simp add: bw_null_def [abs_def])
qed

lemma bw_oid_dotted:
  assumes "plain_oid subs"
  shows "fst (bw_oid (Some (dotted subs)) w)"
    and "length (oid_content subs) < 65536 \<Longrightarrow>
         emits (\<lambda>w. snd (bw_oid (Some (dotted subs)) w)) (tlv SNMP_TAG_OID (oid_content subs)) (length (oid_content subs) + 4)"
proof -
  obtain a b vs where s: "subs = a # b # vs" "a \<le> 2" "b \<le> 39" "length vs \<le> 64" "\<forall>v \<in> set vs. v < 128 ^ 5"
    using plain_oid_cases [OF assms] by metis
  have sub: "oid_subs 0 (tl (dotted subs)) = Some subs"
  proof (rule oid_subs_dotted)
    have "(128 :: nat) ^ 5 \<le> ULONG_MAX" by simp
    then show "\<forall>v \<in> set subs. v \<le> ULONG_MAX" using s by fastforce
  qed (use s in simp_all)
  obtain T where T: "dotted subs = CHR ''.'' # T" by (simp add: s dotted_def)
  have c: "\<not> (length subs < 2 \<or> subs ! 0 > 6 \<or> subs ! 1 > 39)" using s by simp
  have eq: "bw_oid (Some (dotted subs)) w = (True, let (start, w1) = bw_open SNMP_TAG_OID w in
      bw_close start (bw_bytes (concat (map sub_bytes (drop 2 subs))) (bw_byte (of_nat (subs ! 0 * 40 + subs ! 1)) w1)))" for w
    using sub c unfolding T bw_oid_def by (simp add: split_beta Let_def del: One_nat_def)
  show "fst (bw_oid (Some (dotted subs)) w)" by (simp add: eq)
  assume len: "length (oid_content subs) < 65536"
  have "emits (\<lambda>w. bw_bytes (concat (map sub_bytes (drop 2 subs))) (bw_byte (of_nat (subs ! 0 * 40 + subs ! 1)) w))
      ([of_nat (subs ! 0 * 40 + subs ! 1)] @ concat (map sub_bytes (drop 2 subs))) (1 + length (concat (map sub_bytes (drop 2 subs))))"
    by (rule emits_seq [OF emits_byte emits_bytes])
  then have "emits (\<lambda>w. bw_bytes (concat (map sub_bytes (drop 2 subs))) (bw_byte (of_nat (subs ! 0 * 40 + subs ! 1)) w))
      (oid_content subs) (length (oid_content subs))" by (simp add: oid_content_def)
  from emits_element [OF this len, of SNMP_TAG_OID]
  show "emits (\<lambda>w. snd (bw_oid (Some (dotted subs)) w)) (tlv SNMP_TAG_OID (oid_content subs)) (length (oid_content subs) + 4)"
    by (simp add: eq)
qed

definition get_pdu :: "u64 \<Rightarrow> nat list \<Rightarrow> byte list" where
  "get_pdu reqid subs =
     int_tlv (uint (reqid AND 0x7fffffff)) @ int_tlv 0 @ int_tlv 0 @
     tlv SNMP_TAG_SEQUENCE (tlv SNMP_TAG_SEQUENCE
       (tlv SNMP_TAG_OID (oid_content subs) @ tlv SNMP_TAG_NULL []))"

definition get_message :: "int \<Rightarrow> byte list \<Rightarrow> u64 \<Rightarrow> nat list \<Rightarrow> byte list" where
  "get_message version com reqid subs =
     tlv SNMP_TAG_SEQUENCE (int_tlv version @ tlv SNMP_TAG_OCTETSTR com @ tlv SNMP_PDU_GET (get_pdu reqid subs))"

lemma length_tlv_le: "length (tlv t v) \<le> length v + 4"
  by (simp add: tlv_def tlv_header_def)

lemma length_int_tlv: "length (int_tlv v) \<le> 12"
  using length_tlv_le [of SNMP_TAG_INTEGER "int_trim (long_bytes v)"] int_trim_long(2) [of v]
  by (simp add: int_tlv_def)

lemma get_pdu_length: "length (get_pdu reqid subs) \<le> length (oid_content subs) + 52"
  using length_int_tlv [of "uint (reqid AND 0x7fffffff)"] length_int_tlv [of 0]
    length_tlv_le [of SNMP_TAG_OID "oid_content subs"] length_tlv_le [of SNMP_TAG_NULL "[]"]
    length_tlv_le [of SNMP_TAG_SEQUENCE "tlv SNMP_TAG_OID (oid_content subs) @ tlv SNMP_TAG_NULL []"]
    length_tlv_le [of SNMP_TAG_SEQUENCE "tlv SNMP_TAG_SEQUENCE (tlv SNMP_TAG_OID (oid_content subs) @ tlv SNMP_TAG_NULL [])"]
  by (simp add: get_pdu_def)

definition element :: "byte \<Rightarrow> (ber_writer \<Rightarrow> ber_writer) \<Rightarrow> ber_writer \<Rightarrow> ber_writer" where
  "element t f w = (let (start, w1) = bw_open t w in bw_close start (f w1))"

lemma emits_pdu:
  assumes "plain_oid subs" "length (oid_content subs) < 65000"
  shows "emits (element SNMP_PDU_GET (\<lambda>w.
      element SNMP_TAG_SEQUENCE (element SNMP_TAG_SEQUENCE (\<lambda>w. bw_null (snd (bw_oid (Some (dotted subs)) w))))
        (bw_int SNMP_TAG_INTEGER 0 (bw_int SNMP_TAG_INTEGER 0
          (bw_int SNMP_TAG_INTEGER (uint (reqid AND 0x7fffffff)) w)))))
    (tlv SNMP_PDU_GET (get_pdu reqid subs)) (length (oid_content subs) + 56)"
proof -
  let ?c = "length (oid_content subs)"
  have vb: "emits (\<lambda>w. bw_null (snd (bw_oid (Some (dotted subs)) w)))
      (tlv SNMP_TAG_OID (oid_content subs) @ tlv SNMP_TAG_NULL []) (?c + 4 + 4)"
    using assms by (intro emits_seq [OF bw_oid_dotted(2) emits_null]) auto
  have l: "length (tlv SNMP_TAG_OID (oid_content subs) @ tlv SNMP_TAG_NULL []) \<le> ?c + 8"
    using length_tlv_le [of SNMP_TAG_OID "oid_content subs"] length_tlv_le [of SNMP_TAG_NULL "[]"] by simp
  have e1: "emits (element SNMP_TAG_SEQUENCE (\<lambda>w. bw_null (snd (bw_oid (Some (dotted subs)) w))))
      (tlv SNMP_TAG_SEQUENCE (tlv SNMP_TAG_OID (oid_content subs) @ tlv SNMP_TAG_NULL [])) (?c + 4 + 4 + 4)"
    unfolding element_def using l assms(2) by (intro emits_element [OF vb]) linarith
  have e2: "emits (element SNMP_TAG_SEQUENCE (element SNMP_TAG_SEQUENCE (\<lambda>w. bw_null (snd (bw_oid (Some (dotted subs)) w)))))
      (tlv SNMP_TAG_SEQUENCE (tlv SNMP_TAG_SEQUENCE (tlv SNMP_TAG_OID (oid_content subs) @ tlv SNMP_TAG_NULL [])))
      (?c + 4 + 4 + 4 + 4)"
    unfolding element_def [of _ "element _ _"]
    using l assms(2) length_tlv_le [of SNMP_TAG_SEQUENCE "tlv SNMP_TAG_OID (oid_content subs) @ tlv SNMP_TAG_NULL []"]
    by (intro emits_element [OF e1]) linarith
  have e3: "emits (\<lambda>w. element SNMP_TAG_SEQUENCE (element SNMP_TAG_SEQUENCE (\<lambda>w. bw_null (snd (bw_oid (Some (dotted subs)) w))))
        (bw_int SNMP_TAG_INTEGER 0 (bw_int SNMP_TAG_INTEGER 0
          (bw_int SNMP_TAG_INTEGER (uint (reqid AND 0x7fffffff)) w)))) (get_pdu reqid subs) (?c + 52)"
    using emits_seq [OF emits_seq [OF emits_seq [OF emits_int emits_int] emits_int] e2,
        of 0 0 "uint (reqid AND 0x7fffffff)"]
    unfolding get_pdu_def by (simp add: add.commute)
  have "length (get_pdu reqid subs) < 65536" using get_pdu_length [of reqid subs] assms(2) by simp
  from emits_element [OF e3 this, of SNMP_PDU_GET] show ?thesis
    unfolding element_def [of SNMP_PDU_GET] by (rule emits_mono) simp
qed

lemma snmp_build_get_elements:
  assumes "\<And>w. fst (bw_oid (Some oid) w)" "version = SNMP_VERSION_1 \<or> version = SNMP_VERSION_2C"
  shows "snmp_build_get outlen version (Some com) reqid (Some oid) =
     (let w = element SNMP_TAG_SEQUENCE (\<lambda>w. element SNMP_PDU_GET (\<lambda>w.
              element SNMP_TAG_SEQUENCE (element SNMP_TAG_SEQUENCE (\<lambda>w. bw_null (snd (bw_oid (Some oid) w))))
                (bw_int SNMP_TAG_INTEGER 0 (bw_int SNMP_TAG_INTEGER 0
                  (bw_int SNMP_TAG_INTEGER (uint (reqid AND 0x7fffffff)) w))))
              (bw_string SNMP_TAG_OCTETSTR com (bw_int SNMP_TAG_INTEGER version w))) (bw_init outlen)
      in if woverflow w then None else Some (wbuf w))"
  using assms(2) by (elim disjE) (simp_all add: snmp_build_get_def element_def split_beta Let_def assms(1))

lemma snmp_build_get_message:
  assumes "version = SNMP_VERSION_1 \<or> version = SNMP_VERSION_2C" "plain_oid subs"
    and "length com + length (oid_content subs) + 76 \<le> outlen" "length com + length (oid_content subs) < 65000"
  shows "snmp_build_get outlen version (Some com) reqid (Some (dotted subs)) = Some (get_message version com reqid subs)"
proof -
  let ?body = "\<lambda>w. element SNMP_PDU_GET (\<lambda>w.
              element SNMP_TAG_SEQUENCE (element SNMP_TAG_SEQUENCE (\<lambda>w. bw_null (snd (bw_oid (Some (dotted subs)) w))))
                (bw_int SNMP_TAG_INTEGER 0 (bw_int SNMP_TAG_INTEGER 0
                  (bw_int SNMP_TAG_INTEGER (uint (reqid AND 0x7fffffff)) w))))
              (bw_string SNMP_TAG_OCTETSTR com (bw_int SNMP_TAG_INTEGER version w))"
  let ?c = "length (oid_content subs)"
  have "emits ?body ((int_tlv version @ tlv SNMP_TAG_OCTETSTR com) @ tlv SNMP_PDU_GET (get_pdu reqid subs))
      (12 + (length com + 4) + (?c + 56))"
    using assms(2,4) by (intro emits_seq emits_int emits_string emits_pdu) simp_all
  then have body: "emits ?body (int_tlv version @ tlv SNMP_TAG_OCTETSTR com @ tlv SNMP_PDU_GET (get_pdu reqid subs))
      (length com + ?c + 72)" unfolding append_assoc by (rule emits_mono) simp
  have "length (int_tlv version @ tlv SNMP_TAG_OCTETSTR com @ tlv SNMP_PDU_GET (get_pdu reqid subs)) < 65536"
    using body assms(4) by (simp add: emits_def)
  from emits_element [OF body this, of SNMP_TAG_SEQUENCE]
  have "element SNMP_TAG_SEQUENCE ?body (bw_init outlen) = (bw_init outlen)\<lparr>wbuf := get_message version com reqid subs\<rparr>"
    using assms(3) unfolding element_def [of SNMP_TAG_SEQUENCE ?body] get_message_def emits_def by (simp add: bw_init_def)
  then show ?thesis
    using snmp_build_get_elements [OF bw_oid_dotted(1) [OF assms(2)] assms(1), of outlen com reqid]
    by (simp add: bw_init_def Let_def)
qed

section \<open>Reading a request\<close>

text \<open>What an agent that reads the message in the order the standard gives makes of it.\<close>

definition tlv_step :: "byte \<Rightarrow> ber_cursor \<Rightarrow> (byte list \<times> ber_cursor) option" where
  "tlv_step t c =
     (case snmp_ber_next c of Got (t', v, c') \<Rightarrow> if t' = t then Some (v, c') else None | _ \<Rightarrow> None)"

definition agent_reads_pdu :: "byte list \<Rightarrow> (int \<times> string) option" where
  "agent_reads_pdu pdu = do {
     (rid, p) \<leftarrow> tlv_step SNMP_TAG_INTEGER (snmp_ber_open pdu);
     (_, p) \<leftarrow> tlv_step SNMP_TAG_INTEGER p;
     (_, p) \<leftarrow> tlv_step SNMP_TAG_INTEGER p;
     (vbl, _) \<leftarrow> tlv_step SNMP_TAG_SEQUENCE p;
     (vb, _) \<leftarrow> tlv_step SNMP_TAG_SEQUENCE (snmp_ber_open vbl);
     (oid, q) \<leftarrow> tlv_step SNMP_TAG_OID (snmp_ber_open vb);
     (_, _) \<leftarrow> tlv_step SNMP_TAG_NULL q;
     Some (snmp_ber_int rid, snmp_ber_oid_str oid 1024) }"

definition agent_reads :: "byte list \<Rightarrow> (int \<times> byte list \<times> int \<times> string) option" where
  "agent_reads pkt = do {
     (msg, _) \<leftarrow> tlv_step SNMP_TAG_SEQUENCE (snmp_ber_open pkt);
     (ver, c) \<leftarrow> tlv_step SNMP_TAG_INTEGER (snmp_ber_open msg);
     (com, c) \<leftarrow> tlv_step SNMP_TAG_OCTETSTR c;
     (pdu, _) \<leftarrow> tlv_step SNMP_PDU_GET c;
     (rid, oid) \<leftarrow> agent_reads_pdu pdu;
     Some (snmp_ber_int ver, com, rid, oid) }"

lemma tlv_step_tlv:
  assumes "ctail c = tlv t v @ rest" "t AND 0x1f \<noteq> 0x1f" "length v < 65536"
  obtains c' where "tlv_step t c = Some (v, c')" "ctail c' = rest"
  using snmp_ber_next_tlv [OF assms] ctail_after_tlv [OF assms(1)] by (simp add: tlv_step_def)

lemma tlv_step_int:
  assumes "ctail c = int_tlv n @ rest" "LONG_MIN \<le> n" "n \<le> LONG_MAX"
  obtains v c' where "tlv_step SNMP_TAG_INTEGER c = Some (v, c')" "snmp_ber_int v = n" "ctail c' = rest"
proof -
  have l: "length (int_trim (long_bytes n)) < 65536" using int_trim_long(2) [of n] by simp
  obtain c' where "tlv_step SNMP_TAG_INTEGER c = Some (int_trim (long_bytes n), c')" "ctail c' = rest"
    by (rule tlv_step_tlv [OF assms(1) [unfolded int_tlv_def] _ l]) simp
  then show ?thesis using that snmp_ber_int_written [OF assms(2,3)] by blast
qed

lemma reqid_range: "0 \<le> uint (reqid AND 0x7fffffff :: u64) \<and> uint (reqid AND 0x7fffffff) < 2147483648"
proof -
  have "reqid AND 0x7fffffff \<le> (0x7fffffff :: u64)" by (rule word_and_le1)
  then have "uint (reqid AND 0x7fffffff) \<le> 0x7fffffff" by (simp add: word_le_def)
  then show ?thesis by simp
qed

lemma agent_reads_pdu_get:
  assumes "plain_oid subs" "length (oid_content subs) < 65000" "length (dotted subs) < 1023"
  shows "agent_reads_pdu (get_pdu reqid subs) = Some (uint (reqid AND 0x7fffffff), dotted subs)"
proof -
  let ?vb = "tlv SNMP_TAG_OID (oid_content subs) @ tlv SNMP_TAG_NULL []"
  let ?vbl = "tlv SNMP_TAG_SEQUENCE ?vb"
  have len: "length ?vb < 65100" "length ?vbl < 65200"
    using assms(2) length_tlv_le [of SNMP_TAG_OID "oid_content subs"] length_tlv_le [of SNMP_TAG_NULL "[]"]
      length_tlv_le [of SNMP_TAG_SEQUENCE ?vb] by simp_all
  have "ctail (snmp_ber_open (get_pdu reqid subs)) =
      int_tlv (uint (reqid AND 0x7fffffff)) @ int_tlv 0 @ int_tlv 0 @ tlv SNMP_TAG_SEQUENCE ?vbl @ []"
    by (simp add: get_pdu_def)
  then obtain rid p1 where 1: "tlv_step SNMP_TAG_INTEGER (snmp_ber_open (get_pdu reqid subs)) = Some (rid, p1)"
      "snmp_ber_int rid = uint (reqid AND 0x7fffffff)" "ctail p1 = int_tlv 0 @ int_tlv 0 @ tlv SNMP_TAG_SEQUENCE ?vbl @ []"
    by (rule tlv_step_int) (use reqid_range [of reqid] in linarith)+
  obtain v2 p2 where 2: "tlv_step SNMP_TAG_INTEGER p1 = Some (v2, p2)" "ctail p2 = int_tlv 0 @ tlv SNMP_TAG_SEQUENCE ?vbl @ []"
    by (rule tlv_step_int [OF 1(3)]) simp_all
  obtain v3 p3 where 3: "tlv_step SNMP_TAG_INTEGER p2 = Some (v3, p3)" "ctail p3 = tlv SNMP_TAG_SEQUENCE ?vbl @ []"
    by (rule tlv_step_int [OF 2(2)]) simp_all
  obtain p4 where 4: "tlv_step SNMP_TAG_SEQUENCE p3 = Some (?vbl, p4)"
    by (rule tlv_step_tlv [OF 3(2)]) (use len in simp_all)
  have "ctail (snmp_ber_open ?vbl) = tlv SNMP_TAG_SEQUENCE ?vb @ []" by simp
  then obtain p5 where 5: "tlv_step SNMP_TAG_SEQUENCE (snmp_ber_open ?vbl) = Some (?vb, p5)"
    by (rule tlv_step_tlv) (use len in simp_all)
  have "ctail (snmp_ber_open ?vb) = tlv SNMP_TAG_OID (oid_content subs) @ tlv SNMP_TAG_NULL []" by simp
  then obtain p6 where 6: "tlv_step SNMP_TAG_OID (snmp_ber_open ?vb) = Some (oid_content subs, p6)"
      "ctail p6 = tlv SNMP_TAG_NULL []" by (rule tlv_step_tlv) (use assms(2) in simp_all)
  have "ctail p6 = tlv SNMP_TAG_NULL [] @ []" using 6(2) by simp
  then obtain p7 where 7: "tlv_step SNMP_TAG_NULL p6 = Some ([], p7)" by (rule tlv_step_tlv) simp_all
  show ?thesis using oid_read_back [OF assms(1), of 1024] assms(3)
    by (simp add: agent_reads_pdu_def 1(1,2) 2(1) 3(1) 4 5 6(1) 7)
qed


text \<open>The request for the system up-time of a device, with the community \<open>public\<close>.\<close>

lemma uptime_oid:
  "plain_oid [1, 3, 6, 1, 2, 1, 1, 3, 0]" "length (oid_content [1, 3, 6, 1, 2, 1, 1, 3, 0]) = 8"
  "dotted [1, 3, 6, 1, 2, 1, 1, 3, 0] = ''.1.3.6.1.2.1.1.3.0''"
proof -
  show "plain_oid [1, 3, 6, 1, 2, 1, 1, 3, 0]" by (simp add: plain_oid_def)
  show "length (oid_content [1, 3, 6, 1, 2, 1, 1, 3, 0]) = 8"
    by (simp add: oid_content_def sub_bytes_eq hi128.simps)
  show "dotted [1, 3, 6, 1, 2, 1, 1, 3, 0] = ''.1.3.6.1.2.1.1.3.0''" by code_simp
qed


section \<open>Reading a response\<close>

definition response_pdu :: "int \<Rightarrow> int \<Rightarrow> int \<Rightarrow> byte list \<Rightarrow> byte list" where
  "response_pdu rid status idx vbs =
     int_tlv rid @ int_tlv status @ int_tlv idx @ tlv SNMP_TAG_SEQUENCE vbs"

definition response_message :: "int \<Rightarrow> byte list \<Rightarrow> byte list \<Rightarrow> byte list" where
  "response_message version com pdu =
     tlv SNMP_TAG_SEQUENCE (int_tlv version @ tlv SNMP_TAG_OCTETSTR com @ tlv SNMP_PDU_RESPONSE pdu)"

definition response_varbind :: "nat list \<Rightarrow> byte \<Rightarrow> byte list \<Rightarrow> byte list" where
  "response_varbind subs t v = tlv SNMP_TAG_SEQUENCE (tlv SNMP_TAG_OID (oid_content subs) @ tlv t v)"

lemma need_tlv_step:
  assumes "ctail c = tlv t v @ rest" "t AND 0x1f \<noteq> 0x1f" "length v < 65536"
  obtains c' where "\<And>fail k. need_tlv c (\<lambda>t'. t' = t) fail k = k t v c'"
    "\<And>fail k. need_tlv c (\<lambda>_. True) fail k = k t v c'" "ctail c' = rest"
  using snmp_ber_next_tlv [OF assms] ctail_after_tlv [OF assms(1)] by (simp add: need_tlv_def)

lemma need_tlv_int:
  assumes "ctail c = int_tlv n @ rest" "LONG_MIN \<le> n" "n \<le> LONG_MAX"
  obtains v c' where "\<And>fail k. need_tlv c (\<lambda>t. t = SNMP_TAG_INTEGER) fail k = k SNMP_TAG_INTEGER v c'"
    "snmp_ber_int v = n" "ctail c' = rest"
proof -
  have l: "length (int_trim (long_bytes n)) < 65536" using int_trim_long(2) [of n] by simp
  obtain c' where "\<And>fail k. need_tlv c (\<lambda>t. t = SNMP_TAG_INTEGER) fail k = k SNMP_TAG_INTEGER (int_trim (long_bytes n)) c'"
      "ctail c' = rest"
    by (rule need_tlv_step [OF assms(1) [unfolded int_tlv_def] _ l]) simp_all
  then show ?thesis using that snmp_ber_int_written [OF assms(2,3)] by blast
qed

lemma parse_varbind_read:
  assumes "plain_oid subs" "length (dotted subs) < 191" "t AND 0x1f \<noteq> 0x1f"
    and "length (oid_content subs) + length v < 65000"
  shows "parse_varbind (response_varbind subs t v @ etc) out =
         Got (True, snmp_value_from_tag t v (out\<lparr>sv_oid := dotted subs\<rparr>))"
proof -
  let ?vb = "tlv SNMP_TAG_OID (oid_content subs) @ tlv t v"
  have lv: "length ?vb < 65536"
    using assms(4) length_tlv_le [of SNMP_TAG_OID "oid_content subs"] length_tlv_le [of t v] by simp
  have "ctail (snmp_ber_open (response_varbind subs t v @ etc)) = tlv SNMP_TAG_SEQUENCE ?vb @ etc"
    by (simp add: response_varbind_def)
  then obtain c1 where 1: "\<And>fail k. need_tlv (snmp_ber_open (response_varbind subs t v @ etc)) (\<lambda>t. t = SNMP_TAG_SEQUENCE) fail k
      = k SNMP_TAG_SEQUENCE ?vb c1" by (rule need_tlv_step) (use lv in simp_all)
  have "ctail (snmp_ber_open ?vb) = tlv SNMP_TAG_OID (oid_content subs) @ tlv t v" by simp
  then obtain c2 where 2: "\<And>fail k. need_tlv (snmp_ber_open ?vb) (\<lambda>t. t = SNMP_TAG_OID) fail k
      = k SNMP_TAG_OID (oid_content subs) c2" "ctail c2 = tlv t v" by (rule need_tlv_step) (use assms(4) in simp_all)
  have "ctail c2 = tlv t v @ []" using 2(2) by simp
  then obtain c3 where 3: "\<And>fail k. need_tlv c2 (\<lambda>_. True) fail k = k t v c3"
    by (rule need_tlv_step) (use assms(3,4) in simp_all)
  show ?thesis using oid_read_back [OF assms(1), of 192] assms(2) by (simp add: parse_varbind_def 1 2(1) 3 Let_def)
qed

lemma word_of_int_id_iff:
  assumes "LONG_MIN \<le> rid" "rid \<le> LONG_MAX" "uint (w :: u64) \<le> LONG_MAX"
  shows "word_of_int rid = w \<longleftrightarrow> rid = uint w"
proof
  assume "word_of_int rid = w"
  then have u: "uint w = rid mod 2 ^ 64" by (auto simp: unsigned_of_int take_bit_eq_mod)
  show "rid = uint w"
  proof (cases "0 \<le> rid")
    case True
    then show ?thesis using u assms(2) by simp
  next
    case False
    then have "rid mod 2 ^ 64 = rid + 2 ^ 64" using assms(1) by (intro mod_neg_pos) simp_all
    then show ?thesis using u assms(1,3) by simp
  qed
qed simp

lemma response_read:
  assumes "version = SNMP_VERSION_1 \<or> version = SNMP_VERSION_2C" "plain_oid subs" "length (dotted subs) < 191"
    and "t AND 0x1f \<noteq> 0x1f" "length com + length (oid_content subs) + length v + length etc < 60000"
    and "LONG_MIN \<le> rid \<and> rid \<le> LONG_MAX" "- 2147483648 \<le> status \<and> status < 2147483648"
    and "LONG_MIN \<le> idx \<and> idx \<le> LONG_MAX"
  shows "snmp_parse_response
           (response_message version com (response_pdu rid status idx (response_varbind subs t v @ etc))) reqid =
         (if rid = uint (reqid AND 0x7fffffff)
          then Got (True, snmp_value_from_tag t v (zero_value\<lparr>error_status := status, sv_oid := dotted subs\<rparr>))
          else Got (False, zero_value))"
proof -
  let ?vbs = "response_varbind subs t v @ etc"
  let ?pdu = "response_pdu rid status idx ?vbs"
  let ?msg = "int_tlv version @ tlv SNMP_TAG_OCTETSTR com @ tlv SNMP_PDU_RESPONSE ?pdu"
  have lv: "length ?vbs < 60100"
    using assms(5) length_tlv_le [of SNMP_TAG_OID "oid_content subs"] length_tlv_le [of t v]
      length_tlv_le [of SNMP_TAG_SEQUENCE "tlv SNMP_TAG_OID (oid_content subs) @ tlv t v"]
    by (simp add: response_varbind_def)
  have lp: "length ?pdu + length com < 60200"
    using assms(5) length_tlv_le [of SNMP_TAG_OID "oid_content subs"] length_tlv_le [of t v]
      length_tlv_le [of SNMP_TAG_SEQUENCE "tlv SNMP_TAG_OID (oid_content subs) @ tlv t v"]
      length_int_tlv [of rid] length_int_tlv [of status] length_int_tlv [of idx] length_tlv_le [of SNMP_TAG_SEQUENCE ?vbs]
    by (simp add: response_pdu_def response_varbind_def)
  have lm: "length ?msg < 65536"
    using lp length_int_tlv [of version] length_tlv_le [of SNMP_TAG_OCTETSTR com] length_tlv_le [of SNMP_PDU_RESPONSE ?pdu]
    by simp
  have ne: "response_message version com ?pdu \<noteq> []" by (simp add: response_message_def tlv_def tlv_header_def)
  have "ctail (snmp_ber_open (response_message version com ?pdu)) = tlv SNMP_TAG_SEQUENCE ?msg @ []"
    by (simp add: response_message_def)
  then obtain c0 where 0: "\<And>fail k. need_tlv (snmp_ber_open (response_message version com ?pdu)) (\<lambda>t. t = SNMP_TAG_SEQUENCE) fail k
      = k SNMP_TAG_SEQUENCE ?msg c0" by (rule need_tlv_step) (use lm in simp_all)
  have "ctail (snmp_ber_open ?msg) = int_tlv version @ tlv SNMP_TAG_OCTETSTR com @ tlv SNMP_PDU_RESPONSE ?pdu" by simp
  then obtain ver c1 where 1: "\<And>fail k. need_tlv (snmp_ber_open ?msg) (\<lambda>t. t = SNMP_TAG_INTEGER) fail k = k SNMP_TAG_INTEGER ver c1"
      "snmp_ber_int ver = version" "ctail c1 = tlv SNMP_TAG_OCTETSTR com @ tlv SNMP_PDU_RESPONSE ?pdu"
    by (rule need_tlv_int) (use assms(1) in auto)
  obtain c2 where 2: "\<And>fail k. need_tlv c1 (\<lambda>t. t = SNMP_TAG_OCTETSTR) fail k = k SNMP_TAG_OCTETSTR com c2"
      "ctail c2 = tlv SNMP_PDU_RESPONSE ?pdu" by (rule need_tlv_step [OF 1(3)]) (use lp in simp_all)
  have "ctail c2 = tlv SNMP_PDU_RESPONSE ?pdu @ []" using 2(2) by simp
  then obtain c3 where 3: "\<And>fail k. need_tlv c2 (\<lambda>t. t = SNMP_PDU_RESPONSE) fail k = k SNMP_PDU_RESPONSE ?pdu c3"
    by (rule need_tlv_step) (use lp in simp_all)
  have "ctail (snmp_ber_open ?pdu) = int_tlv rid @ int_tlv status @ int_tlv idx @ tlv SNMP_TAG_SEQUENCE ?vbs @ []"
    by (simp add: response_pdu_def)
  then obtain vr p1 where 4: "\<And>fail k. need_tlv (snmp_ber_open ?pdu) (\<lambda>t. t = SNMP_TAG_INTEGER) fail k = k SNMP_TAG_INTEGER vr p1"
      "snmp_ber_int vr = rid" "ctail p1 = int_tlv status @ int_tlv idx @ tlv SNMP_TAG_SEQUENCE ?vbs @ []"
    by (rule need_tlv_int) (use assms(6) in simp_all)
  obtain vs p2 where 5: "\<And>fail k. need_tlv p1 (\<lambda>t. t = SNMP_TAG_INTEGER) fail k = k SNMP_TAG_INTEGER vs p2"
      "snmp_ber_int vs = status" "ctail p2 = int_tlv idx @ tlv SNMP_TAG_SEQUENCE ?vbs @ []"
    by (rule need_tlv_int [OF 4(3)]) (use assms(7) in simp_all)
  obtain vi p3 where 6: "\<And>fail k. need_tlv p2 (\<lambda>t. t = SNMP_TAG_INTEGER) fail k = k SNMP_TAG_INTEGER vi p3"
      "ctail p3 = tlv SNMP_TAG_SEQUENCE ?vbs @ []"
    by (rule need_tlv_int [OF 5(3)]) (use assms(8) in simp_all)
  obtain p4 where 7: "\<And>fail k. need_tlv p3 (\<lambda>t. t = SNMP_TAG_SEQUENCE) fail k = k SNMP_TAG_SEQUENCE ?vbs p4"
    by (rule need_tlv_step [OF 6(2)]) (use lv in simp_all)
  have vb: "parse_varbind ?vbs out = Got (True, snmp_value_from_tag t v (out\<lparr>sv_oid := dotted subs\<rparr>))" for out
    using assms(5) by (intro parse_varbind_read assms(2-4)) simp
  have "uint (reqid AND 0x7fffffff) \<le> LONG_MAX" using reqid_range [of reqid] by linarith
  then have rid: "word_of_int rid = reqid AND 0x7fffffff \<longleftrightarrow> rid = uint (reqid AND 0x7fffffff)"
    using assms(6) by (intro word_of_int_id_iff) simp_all
  have "\<not> (to_int32 version \<noteq> 0 \<and> to_int32 version \<noteq> 1)" using assms(1) by (auto simp: to_int32_def)
  then have "snmp_parse_response (response_message version com ?pdu) reqid = parse_pdu reqid ?pdu"
    using ne by (simp add: snmp_parse_response_def 0 1(1,2) 2(1) 3 Let_def) blast
  also have "\<dots> = (if rid = uint (reqid AND 0x7fffffff)
          then Got (True, snmp_value_from_tag t v (zero_value\<lparr>error_status := status, sv_oid := dotted subs\<rparr>))
          else Got (False, zero_value))"
    using rid assms(7) by (simp add: parse_pdu_def 4(1,2) 5(1,2) 6(1) 7 vb Let_def to_int32_id)
  finally show ?thesis .
qed

text \<open>
  An answer is taken exactly when it carries our request number. For every well-formed
  GetResponse (either version, any community, any error status and index, any first varbind,
  whatever follows it) the parser reports its value, its exception or its error status when
  the number is the one asked under, and reports nothing (keep waiting) when it is not.
\<close>

theorem snmp_response_read:
  assumes "version = SNMP_VERSION_1 \<or> version = SNMP_VERSION_2C" "plain_oid subs" "length (dotted subs) < 191"
    and "t AND 0x1f \<noteq> 0x1f" "length com + length (oid_content subs) + length v + length etc < 60000"
    and "LONG_MIN \<le> rid \<and> rid \<le> LONG_MAX" "- 2147483648 \<le> status \<and> status < 2147483648"
    and "LONG_MIN \<le> idx \<and> idx \<le> LONG_MAX"
  shows "snmp_parse_response
           (response_message version com (response_pdu rid status idx (response_varbind subs t v @ etc))) reqid =
         (if rid = uint (reqid AND 0x7fffffff)
          then Got (True, snmp_value_from_tag t v (zero_value\<lparr>error_status := status, sv_oid := dotted subs\<rparr>))
          else Got (False, zero_value))"
  by (rule response_read[OF assms])

theorem snmp_response_read_witness:
  "snmp_parse_response (response_message 1 [] (response_pdu 7 0 0
      (response_varbind [1, 3, 6, 1, 2, 1, 1, 3, 0] 0x43 [1, 0] @ []))) 7 =
     Got (True, zero_value\<lparr>sv_oid := ''.1.3.6.1.2.1.1.3.0'', sv_type := ''TimeTicks'', sv_value := 256, have_value := True\<rparr>)"
proof -
  have u: "uint ((7 :: u64) AND 0x7fffffff) = 7" by simp
  have "snmp_parse_response (response_message 1 [] (response_pdu 7 0 0
      (response_varbind [1, 3, 6, 1, 2, 1, 1, 3, 0] 0x43 [1, 0] @ []))) 7 =
    (if 7 = uint ((7 :: u64) AND 0x7fffffff)
     then Got (True, snmp_value_from_tag 0x43 [1, 0]
            (zero_value\<lparr>error_status := 0, sv_oid := dotted [1, 3, 6, 1, 2, 1, 1, 3, 0]\<rparr>))
     else Got (False, zero_value))"
  proof (rule snmp_response_read)
    show "plain_oid [1, 3, 6, 1, 2, 1, 1, 3, 0]" by (rule uptime_oid)
  qed (simp_all only: uptime_oid, simp_all)
  then show ?thesis
    by (simp only: uptime_oid u) (simp add: snmp_value_from_tag_def snmp_ber_uint_def zero_value_def)
qed

section \<open>Hostile input\<close>

definition value_fits :: "(bool \<times> snmp_value) outcome \<Rightarrow> bool" where
  "value_fits r =
     (case r of Got (_, v) \<Rightarrow> length (sv_type v) < 16 \<and> length (sv_oid v) < 192 \<and> length (sv_exception v) < 24
      | _ \<Rightarrow> False)"

lemma need_tlv_fits:
  assumes "\<And>t v c'. value_fits (k t v c')" "value_fits (Got fail)"
  shows "value_fits (need_tlv c ok fail k)"
  using assms snmp_ber_next_no_Fault [of c] by (auto simp: need_tlv_def split: outcome.split)

lemma value_from_tag_fits:
  "length (sv_oid out) < 192 \<Longrightarrow> length (sv_exception out) < 24 \<Longrightarrow> value_fits (Got (b, snmp_value_from_tag t v out))"
  using length_fit [of 16 "''tag 0x'' @ hex2 t"] by (simp add: value_fits_def snmp_value_from_tag_def)

lemma parse_varbind_fits:
  assumes "sv_type out = []" "sv_oid out = []" "sv_exception out = []"
  shows "value_fits (parse_varbind val out)"
proof -
  have "value_fits (Got (b, out))" "value_fits (Got (b, out\<lparr>sv_oid := snmp_ber_oid_str v 192\<rparr>))" for b v
    using assms by (simp_all add: value_fits_def snmp_ber_oid_str_length)
  moreover have "value_fits (Got (True, snmp_value_from_tag t x (out\<lparr>sv_oid := snmp_ber_oid_str v 192\<rparr>)))" for t x v
    using assms by (intro value_from_tag_fits) (simp_all add: snmp_ber_oid_str_length)
  ultimately show ?thesis unfolding parse_varbind_def Let_def by (intro need_tlv_fits)
qed

lemma zero_value_fits: "value_fits (Got (False, zero_value))" "value_fits (Got (False, zero_value\<lparr>error_status := n\<rparr>))"
  by (simp_all add: value_fits_def zero_value_def)

lemma if_fits: "value_fits a \<Longrightarrow> value_fits b \<Longrightarrow> value_fits (if c then a else b)"
  by simp

lemma parse_pdu_fits: "value_fits (parse_pdu reqid val)"
proof -
  have "value_fits (parse_varbind v (zero_value\<lparr>error_status := n\<rparr>))" for v n
    by (rule parse_varbind_fits) (simp_all add: zero_value_def)
  then show ?thesis unfolding parse_pdu_def Let_def by (intro need_tlv_fits if_fits zero_value_fits)
qed

text \<open>
  Whatever arrives on the socket, the parser of responses returns without reading outside
  the packet, and the type, identifier and exception texts it stores fit their buffers.
\<close>

theorem snmp_parse_response_safe: "value_fits (snmp_parse_response pkt reqid)"
  unfolding snmp_parse_response_def Let_def
  by (intro if_fits need_tlv_fits zero_value_fits parse_pdu_fits)

section \<open>The buffer bound\<close>

definition in_cap :: "nat \<Rightarrow> ber_writer \<Rightarrow> bool" where
  "in_cap n w = (wcap w = n \<and> length (wbuf w) \<le> n)"

lemma in_cap_byte: "in_cap n w \<Longrightarrow> in_cap n (bw_byte b w)"
  by (simp add: in_cap_def bw_byte_def)

lemma in_cap_bytes: "in_cap n w \<Longrightarrow> in_cap n (bw_bytes bs w)"
  unfolding bw_bytes_def by (induction bs arbitrary: w) (simp_all add: in_cap_byte)

lemma in_cap_open: "in_cap n w \<Longrightarrow> in_cap n (snd (bw_open t w))"
  by (simp add: bw_open_def Let_def in_cap_byte)

lemma in_cap_close: "in_cap n w \<Longrightarrow> in_cap n (bw_close start w)"
  by (auto simp: in_cap_def bw_close_def Let_def min_def)

lemmas in_cap_ops = in_cap_byte in_cap_bytes in_cap_open in_cap_close

lemma in_cap_elements:
  "in_cap n w \<Longrightarrow> in_cap n (bw_int t v w)"
  "in_cap n w \<Longrightarrow> in_cap n (bw_string t s w)"
  "in_cap n w \<Longrightarrow> in_cap n (bw_null w)"
  "in_cap n w \<Longrightarrow> in_cap n (snd (bw_oid txt w))"
  by (auto simp: bw_int_def bw_string_def bw_null_def bw_oid_def split_beta Let_def in_cap_ops split: option.split)

text \<open>
  The writer never passes the end of the caller's buffer: for any identifier text,
  community and request number, however large, the packet \<open>snmp_build_get\<close> returns has at most
  \<open>outlen\<close> bytes; what does not fit gives an error instead.
\<close>

theorem snmp_build_get_bounded:
  "case snmp_build_get outlen version com reqid oid of None \<Rightarrow> True | Some pkt \<Rightarrow> length pkt \<le> outlen"
proof -
  have init: "in_cap outlen (bw_init outlen)" by (simp add: in_cap_def bw_init_def)
  have len: "in_cap outlen w \<Longrightarrow> case (if b then None else if woverflow w then None else Some (wbuf w)) of
      None \<Rightarrow> True | Some pkt \<Rightarrow> length pkt \<le> outlen" for w b by (simp add: in_cap_def)
  show ?thesis
  proof (cases "com = None \<or> oid = None \<or> (version \<noteq> SNMP_VERSION_1 \<and> version \<noteq> SNMP_VERSION_2C)")
    case True
    then show ?thesis by (auto simp: snmp_build_get_def split: option.split)
  next
    case False
    then obtain c where c: "com = Some c" "\<not> oid = None" "\<not> (version \<noteq> SNMP_VERSION_1 \<and> version \<noteq> SNMP_VERSION_2C)"
      by auto
    show ?thesis
      unfolding snmp_build_get_def c(1) option.case if_not_P [OF c(2)] if_not_P [OF c(3)] split_beta Let_def
      by (rule len) (intro in_cap_ops in_cap_elements init)
  qed
qed

section \<open>Identifiers that ask for another object\<close>

lemma bw_oid_text:
  assumes "subs \<noteq> []" "\<forall>v \<in> set subs. v \<le> ULONG_MAX" "length subs \<le> 128"
  shows "bw_oid (Some (dotted subs)) w =
     (if length subs < 2 \<or> subs ! 0 > 6 \<or> subs ! 1 > 39 then (False, w)
      else (True, element SNMP_TAG_OID (bw_bytes (oid_content subs)) w))"
proof -
  have sub: "oid_subs 0 (tl (dotted subs)) = Some subs" using assms by (intro oid_subs_dotted) simp_all
  obtain v vs where "subs = v # vs" using assms(1) by (cases subs) auto
  then obtain T where T: "dotted subs = CHR ''.'' # T" by (simp add: dotted_def)
  show ?thesis using sub unfolding T bw_oid_def
    by (simp add: split_beta Let_def element_def oid_content_def bw_bytes_def)
qed

text \<open>
  The first two sub-identifiers are packed into one byte after a check that admits values up
  to 6 and 39, so the packed number can reach 279 and wraps: an identifier that starts with
  6.16 up to 6.39 is accepted and the request sent is, byte for byte, the one for an identifier
  that starts with 0.0 up to 0.23.
\<close>

theorem oid_first_byte_wraps:
  assumes "16 \<le> b" "b \<le> 39" "\<forall>v \<in> set vs. v \<le> ULONG_MAX" "length vs \<le> 126"
  shows "bw_oid (Some (dotted (6 # b # vs))) w = bw_oid (Some (dotted (0 # (b - 16) # vs))) w
    \<and> fst (bw_oid (Some (dotted (6 # b # vs))) w)"
proof -
  have "(of_nat (240 + b) :: byte) = of_nat (b - 16)"
  proof -
    have "240 + b = b - 16 + 256" using assms(1) by simp
    then have "(of_nat (240 + b) :: byte) = of_nat (b - 16) + of_nat 256" by (simp only: of_nat_add)
    then show ?thesis by simp
  qed
  then have c: "oid_content (6 # b # vs) = oid_content (0 # (b - 16) # vs)" by (simp add: oid_content_def)
  have big: "\<forall>v \<in> set (6 # b # vs). v \<le> ULONG_MAX" "\<forall>v \<in> set (0 # (b - 16) # vs). v \<le> ULONG_MAX"
    using assms(2,3) by auto
  have "bw_oid (Some (dotted (6 # b # vs))) w = (True, element SNMP_TAG_OID (bw_bytes (oid_content (6 # b # vs))) w)"
    using bw_oid_text [OF _ big(1), of w] assms(2,4) by simp
  moreover have "bw_oid (Some (dotted (0 # (b - 16) # vs))) w =
      (True, element SNMP_TAG_OID (bw_bytes (oid_content (0 # (b - 16) # vs))) w)"
    using bw_oid_text [OF _ big(2), of w] assms(2,4) by simp
  ultimately show ?thesis by (simp add: c)
qed

theorem oid_first_byte_wraps_witness:
  "bw_oid (Some (dotted [6, 17, 3])) (bw_init 100) = bw_oid (Some (dotted [0, 1, 3])) (bw_init 100)"
  using oid_first_byte_wraps [of 17 "[3]" "bw_init 100"] by simp

end
