(* ===== verification/Snmp_Check.thy ===== *)
theory Snmp_Check
  imports Snmp_Wire Check_Queue
begin

text \<open>
  The SNMP check of snmp.c: opening a query, reading the answer, comparing it with the configured
  thresholds and giving the descriptor and the data back. The world holds what is outside of the
  program (name lookups, the socket calls, datagrams that have arrived, the clock) and the data of
  the checks in progress. The check is an instance of the scheduler's contract.
\<close>

abbreviation (input) SYSM_SNMP_TYPE_REBOOT :: int where "SYSM_SNMP_TYPE_REBOOT \<equiv> 1"
abbreviation (input) SYSM_SNMP_TYPE_HIGH :: int where "SYSM_SNMP_TYPE_HIGH \<equiv> 2"
abbreviation (input) SYSM_SNMP_TYPE_LOW :: int where "SYSM_SNMP_TYPE_LOW \<equiv> 3"
abbreviation (input) SYSM_SNMP_TYPE_RANGE :: int where "SYSM_SNMP_TYPE_RANGE \<equiv> 4"
abbreviation (input) SYSM_SNMP_TYPE_EXACT :: int where "SYSM_SNMP_TYPE_EXACT \<equiv> 5"
abbreviation (input) SYSM_SNMP_TYPE_COMPARE :: int where "SYSM_SNMP_TYPE_COMPARE \<equiv> 6"
abbreviation (input) SYSM_SNMP_TYPE_RATE :: int where "SYSM_SNMP_TYPE_RATE \<equiv> 7"
abbreviation (input) EINVAL :: errno_t where "EINVAL \<equiv> EOTHER 22"

section \<open>State\<close>

record snmpdata =
  d_reqid :: u64
  d_snmp_retval :: u64
  d_snmp_response_time :: int
  d_snmp_response :: bool

record snmp_world =
  w_reqid :: u64
  w_data :: "nat \<Rightarrow> snmpdata option"
  w_inbox :: "int \<Rightarrow> byte list list"
  w_open :: "int set"
  w_time :: int
  w_tv :: timeval
  w_resolve :: "string \<Rightarrow> my_hostent option"
  w_socket :: "errno_t + int"

section \<open>The query\<close>

text \<open>
  \<open>w_socket\<close> is what the calls after the lookup come to: the descriptor, or the error of the first
  that fails (the descriptor is closed again then). \<open>Inl\<close> is the value of \<open>errno\<close> for a result of -1.
\<close>

definition snmp_open_query ::
    "snmp_world \<Rightarrow> string \<Rightarrow> int \<Rightarrow> byte list option \<Rightarrow> u64 \<Rightarrow> string option \<Rightarrow> (errno_t + int) \<times> snmp_world" where
  "snmp_open_query w host version community reqid oid =
     (case snmp_build_get 1500 version community reqid oid of
        None \<Rightarrow> (Inl EINVAL, w)
      | Some packet \<Rightarrow>
          (case w_resolve w host of
             None \<Rightarrow> (Inl EHOSTUNREACH, w)
           | Some hp \<Rightarrow>
               if my_h_addr_v4 hp = [] then (Inl EHOSTUNREACH, w)
               else (case w_socket w of
                       Inl e \<Rightarrow> (Inl e, w)
                     | Inr fd \<Rightarrow> (Inr fd, w\<lparr>w_open := insert fd (w_open w)\<rparr>))))"

text \<open>
  \<open>recv\<close> takes the next datagram, cut to the buffer. \<open>Got\<close> carries what the function returns and, when
  that is true, the decoded value.
\<close>

definition snmp_read_response :: "int \<Rightarrow> u64 \<Rightarrow> snmp_world \<Rightarrow> (bool \<times> snmp_value) outcome \<times> snmp_world" where
  "snmp_read_response fd reqid w =
     (if fd = - 1 then (Got (False, zero_value), w)
      else case w_inbox w fd of
             [] \<Rightarrow> (Got (False, zero_value), w)
           | d # ds \<Rightarrow>
               let w' = w\<lparr>w_inbox := (w_inbox w)(fd := ds)\<rparr>; packet = take 4096 d
               in if packet = [] then (Got (False, zero_value), w')
                  else (snmp_parse_response packet reqid, w'))"

section \<open>The check\<close>

definition start_failure :: "errno_t \<Rightarrow> int" where
  "start_failure e = (if e = EHOSTUNREACH then SYSM_NODNS else if e = EINVAL then SYSM_ERR else errno_to_error e)"

definition start_test_snmp :: "snmp_world check_op" where
  "start_test_snmp now = (\<lambda>(m, h, w).
     if h_snmp_oid h = None \<or> h_snmp_community h = None
     then (m\<lparr>m_retval := SYSM_ERR\<rparr>, h, w)
     else
       let reqid = next_snmp_reqid (w_reqid w);
           d = \<lparr>d_reqid = reqid, d_snmp_retval = 0, d_snmp_response_time = 0, d_snmp_response = False\<rparr>;
           w1 = w\<lparr>w_reqid := reqid, w_data := (w_data w)(m_checkent m \<mapsto> d)\<rparr>;
           (r, w2) = snmp_open_query w1 (h_hostname h) (h_snmp_version h)
                       (map_option (map of_char) (h_snmp_community h)) reqid (h_snmp_oid h)
       in case r of
            Inl e \<Rightarrow> (m\<lparr>m_filedes := - 1, m_retval := start_failure e, m_monitordata := False\<rparr>, h,
                      w2\<lparr>w_data := (w_data w2)(m_checkent m := None)\<rparr>)
          | Inr fd \<Rightarrow> (m\<lparr>m_filedes := fd, m_monitordata := True, m_fd_state := 1\<rparr>, h, w2))"

definition stop_test_snmp :: "snmp_world check_op" where
  "stop_test_snmp now = (\<lambda>(m, h, w).
     let (m1, w1) = (if m_filedes m \<noteq> - 1
                     then (m\<lparr>m_filedes := - 1\<rparr>, w\<lparr>w_open := w_open w - {m_filedes m}\<rparr>) else (m, w));
         (m2, w2) = (if m_monitordata m1
                     then (m1\<lparr>m_monitordata := False\<rparr>, w1\<lparr>w_data := (w_data w1)(m_checkent m1 := None)\<rparr>) else (m1, w1))
     in (m2, h, w2))"

text \<open>The comparison of a value with the configuration: the result, if there is one, and the object.\<close>

definition snmp_verdict :: "u64 \<Rightarrow> int \<Rightarrow> hostinfo \<Rightarrow> int option \<times> hostinfo" where
  "snmp_verdict v resptime h =
     (let h1 = h\<lparr>h_system_uptime := v\<rparr>; t = h_snmp_test_type h in
      if t = SYSM_SNMP_TYPE_REBOOT then (Some (if h_system_uptime h > v then SYSM_SNMP_REBOOT else SYSM_OK), h1)
      else if t = SYSM_SNMP_TYPE_HIGH then (Some (if h_snmp_high h < v then SYSM_SNMP_HIGH else SYSM_OK), h1)
      else if t = SYSM_SNMP_TYPE_LOW then (Some (if h_snmp_low h > v then SYSM_SNMP_LOW else SYSM_OK), h1)
      else if t = SYSM_SNMP_TYPE_RANGE
           then (Some (if h_snmp_low h < v \<and> h_snmp_high h > v then SYSM_SNMP_OOR else SYSM_OK), h1)
      else if t = SYSM_SNMP_TYPE_EXACT then (Some (if h_snmp_exact h \<noteq> v then SYSM_SNMP_NOTEXACT else SYSM_OK), h1)
      else if t = SYSM_SNMP_TYPE_COMPARE then (None, h)
      else if t = SYSM_SNMP_TYPE_RATE then
        let rate_time = word_of_int (resptime - h_last_snmp_resptime h) :: u64;
            rate_time_val = v - h_system_uptime h;
            h2 = h1\<lparr>h_last_snmp_resptime := resptime\<rparr>
        in if rate_time = 0 then (Some SYSM_OK, h2)
           else let rate_avg_val = (if h_snmp_octets h then rate_time_val * 8 div rate_time
                                    else rate_time_val div rate_time)
                in (Some (if rate_avg_val > h_snmp_rate h then SYSM_SNMP_HIGHRATE else SYSM_OK), h2)
      else (Some SYSM_ERR, h))"

text \<open>What an answer does before it is compared: a result that needs no comparison, or a value to keep.\<close>

definition take_answer :: "int \<Rightarrow> snmp_value \<Rightarrow> monitorent \<times> snmpdata \<Rightarrow> monitorent \<times> snmpdata" where
  "take_answer tm v = (\<lambda>(m, d).
     if error_status v \<noteq> 0 then (m\<lparr>m_retval := SYSM_BAD_RESP\<rparr>, d)
     else if sv_exception v \<noteq> [] then (m\<lparr>m_retval := SYSM_BAD_RESP\<rparr>, d)
     else if \<not> have_value v then (m\<lparr>m_retval := SYSM_BAD_RESP\<rparr>, d)
     else (m, d\<lparr>d_snmp_retval := sv_value v, d_snmp_response := True, d_snmp_response_time := tm\<rparr>))"

text \<open>The last part of the service function: comparison or timeout, and giving up the resources.\<close>

definition snmp_finish :: "int \<Rightarrow> monitorent \<Rightarrow> snmpdata \<Rightarrow> hostinfo \<Rightarrow> snmp_world \<Rightarrow> monitorent \<times> hostinfo \<times> snmp_world" where
  "snmp_finish now m d h w =
     (let (m2, h2) = (if d_snmp_response d
                      then (case snmp_verdict (d_snmp_retval d) (d_snmp_response_time d) h of
                              (Some rv, h') \<Rightarrow> (m\<lparr>m_retval := rv\<rparr>, h') | (None, h') \<Rightarrow> (m, h'))
                      else if m_retval m = - 1 \<and> mydifftime (m_queueat m) (w_tv w) \<ge> 30 * 1000000
                      then (m\<lparr>m_retval := SYSM_NORESP\<rparr>, h) else (m, h))
      in if m_retval m2 \<noteq> - 1 then stop_test_snmp now (m2, h2, w) else (m2, h2, w))"

text \<open>
  A fault of the parser, which its safety rules out, would leave the entry as it is. The data of the
  check are written back under its object.
\<close>

definition service_test_snmp :: "snmp_world check_op" where
  "service_test_snmp now = (\<lambda>(m, h, w).
     if \<not> m_monitordata m then (m, h, w)
     else case w_data w (m_checkent m) of
       None \<Rightarrow> (m, h, w)
     | Some d \<Rightarrow>
         let (r, w1) = (if d_snmp_response d then (Got (False, zero_value), w)
                        else snmp_read_response (m_filedes m) (d_reqid d) w);
             (m1, d1) = (case r of Got (True, v) \<Rightarrow> take_answer (w_time w1) v (m, d) | _ \<Rightarrow> (m, d))
         in snmp_finish now m1 d1 h (w1\<lparr>w_data := (w_data w1)(m_checkent m \<mapsto> d1)\<rparr>))"

section \<open>The contract of the scheduler\<close>

lemma stop_test_snmp_keeps: "keeps_entry stop_test_snmp"
  by (rule keeps_entryI) (auto simp: stop_test_snmp_def Let_def split: if_splits)

lemma start_test_snmp_keeps: "keeps_entry start_test_snmp"
  by (rule keeps_entryI) (auto simp: start_test_snmp_def Let_def split: if_splits sum.splits prod.splits)

lemma snmp_verdict_frame:
  "h_queued (snd (snmp_verdict v t h)) = h_queued h" "h_queuetime (snd (snmp_verdict v t h)) = h_queuetime h"
  by (simp_all add: snmp_verdict_def Let_def)

lemma take_answer_cases:
  "take_answer tm v (m, d) =
     (if error_status v \<noteq> 0 \<or> sv_exception v \<noteq> [] \<or> \<not> have_value v then (m\<lparr>m_retval := SYSM_BAD_RESP\<rparr>, d)
      else (m, d\<lparr>d_snmp_retval := sv_value v, d_snmp_response := True, d_snmp_response_time := tm\<rparr>))"
  by (simp add: take_answer_def)

lemma service_test_snmp_finish:
  assumes "m_monitordata m" "w_data w (m_checkent m) = Some d"
    "(if d_snmp_response d then (Got (False, zero_value), w) else snmp_read_response (m_filedes m) (d_reqid d) w) = (r, w1)"
    "(case r of Got (True, v) \<Rightarrow> take_answer (w_time w1) v (m, d) | _ \<Rightarrow> (m, d)) = (m1, d1)"
  shows "service_test_snmp now (m, h, w) = snmp_finish now m1 d1 h (w1\<lparr>w_data := (w_data w1)(m_checkent m \<mapsto> d1)\<rparr>)"
  using assms by (simp add: service_test_snmp_def)

lemma answer_keeps:
  assumes "(case r of Got (True, v) \<Rightarrow> take_answer tm v (m, d) | _ \<Rightarrow> (m, d)) = (m1, d1)"
  shows "m1 = m \<or> m1 = m\<lparr>m_retval := SYSM_BAD_RESP\<rparr>"
  using assms by (auto simp: take_answer_cases split: outcome.splits prod.splits bool.splits if_splits)

lemma snmp_finish_keeps:
  assumes "snmp_finish now m d h w = (m', h', w')"
  shows "m_checkent m' = m_checkent m \<and> m_unique_name m' = m_unique_name m \<and> m_queueat m' = m_queueat m \<and>
     m_wakeup_count m' = m_wakeup_count m \<and> h_queued h' = h_queued h \<and> h_queuetime h' = h_queuetime h"
proof -
  obtain o1 h1 where v: "snmp_verdict (d_snmp_retval d) (d_snmp_response_time d) h = (o1, h1)" by fastforce
  have h1: "h_queued h1 = h_queued h" "h_queuetime h1 = h_queuetime h"
    using snmp_verdict_frame[of "d_snmp_retval d" "d_snmp_response_time d" h] v by simp_all
  show ?thesis
    using assms h1
    by (auto simp: snmp_finish_def v stop_test_snmp_def Let_def split: if_splits option.splits)
qed

lemma service_test_snmp_keeps: "keeps_entry service_test_snmp"
proof (rule keeps_entryI)
  fix now m h w m' h' w'
  assume r: "service_test_snmp now (m, h, w) = (m', h', w')"
  show "m_checkent m' = m_checkent m \<and> m_unique_name m' = m_unique_name m \<and> m_queueat m' = m_queueat m \<and>
     m_wakeup_count m' = m_wakeup_count m \<and> h_queued h' = h_queued h \<and> h_queuetime h' = h_queuetime h"
  proof (cases "m_monitordata m \<and> w_data w (m_checkent m) \<noteq> None")
    case False
    then have "service_test_snmp now (m, h, w) = (m, h, w)" by (auto simp: service_test_snmp_def)
    with r show ?thesis by simp
  next
    case True
    then obtain d where d: "w_data w (m_checkent m) = Some d" by blast
    obtain rd w1 where 1: "(if d_snmp_response d then (Got (False, zero_value), w)
        else snmp_read_response (m_filedes m) (d_reqid d) w) = (rd, w1)" by fastforce
    obtain m1 d1 where 2: "(case rd of Got (True, v) \<Rightarrow> take_answer (w_time w1) v (m, d) | _ \<Rightarrow> (m, d)) = (m1, d1)"
      by fastforce
    have "snmp_finish now m1 d1 h (w1\<lparr>w_data := (w_data w1)(m_checkent m \<mapsto> d1)\<rparr>) = (m', h', w')"
      using service_test_snmp_finish[OF _ d 1 2, of now h] True r by simp
    from snmp_finish_keeps[OF this] answer_keeps[OF 2] show ?thesis by auto
  qed
qed

interpretation snmp: check_protocol start_test_snmp service_test_snmp stop_test_snmp
  by unfold_locales (fact start_test_snmp_keeps service_test_snmp_keeps stop_test_snmp_keeps)+

section \<open>Giving everything back\<close>

definition released :: "monitorent \<Rightarrow> int \<Rightarrow> snmp_world \<Rightarrow> bool" where
  "released m fd w \<longleftrightarrow> m_filedes m = - 1 \<and> \<not> m_monitordata m \<and> w_data w (m_checkent m) = None \<and> fd \<notin> w_open w"

lemma stop_test_snmp_releases:
  assumes "m_filedes m \<noteq> - 1" "m_monitordata m"
  shows "stop_test_snmp now (m, h, w) =
     (m\<lparr>m_filedes := - 1, m_monitordata := False\<rparr>, h,
      w\<lparr>w_open := w_open w - {m_filedes m}, w_data := (w_data w)(m_checkent m := None)\<rparr>)"
  using assms by (simp add: stop_test_snmp_def)

lemma stop_released:
  assumes "m_filedes m \<noteq> - 1" "m_monitordata m" "stop_test_snmp now (m, h, w) = (m', h', w')"
  shows "released m' (m_filedes m) w' \<and> m_retval m' = m_retval m \<and> h' = h"
  using assms(3) unfolding stop_test_snmp_releases[OF assms(1,2)] by (auto simp: released_def)

section \<open>Answers on the wire\<close>

text \<open>
  \<open>get_response rid status t bs pkt\<close>: the datagram is a well-formed GetResponse to request \<open>rid\<close> whose
  first varbind has the value \<open>bs\<close> under tag \<open>t\<close>, of either version, with any community, error index
  and OID and anything after it, and fits the receive buffer.
\<close>

definition get_response :: "int \<Rightarrow> int \<Rightarrow> byte \<Rightarrow> byte list \<Rightarrow> byte list \<Rightarrow> bool" where
  "get_response rid status t bs pkt \<longleftrightarrow> (\<exists>version com idx subs etc.
     (version = SNMP_VERSION_1 \<or> version = SNMP_VERSION_2C) \<and> plain_oid subs \<and> length (dotted subs) < 191 \<and>
     t AND 0x1f \<noteq> 0x1f \<and> length com + length (oid_content subs) + length bs + length etc < 60000 \<and>
     LONG_MIN \<le> idx \<and> idx \<le> LONG_MAX \<and> length pkt \<le> 4096 \<and>
     pkt = response_message version com (response_pdu rid status idx (response_varbind subs t bs @ etc)))"

definition numeric_tag :: "byte \<Rightarrow> bool" where
  "numeric_tag t \<longleftrightarrow> t = 0x41 \<or> t = 0x42 \<or> t = 0x43 \<or> t = 0x46"

lemma get_response_nonempty: "get_response rid status t bs pkt \<Longrightarrow> pkt \<noteq> [] \<and> take 4096 pkt = pkt"
  by (auto simp: get_response_def response_message_def tlv_def tlv_header_def)

lemma get_response_parse:
  assumes "get_response rid 0 t bs pkt" "LONG_MIN \<le> rid \<and> rid \<le> LONG_MAX"
  obtains oid where "snmp_parse_response pkt reqid =
     (if rid = uint (reqid AND 0x7fffffff) then Got (True, snmp_value_from_tag t bs (zero_value\<lparr>sv_oid := oid\<rparr>))
      else Got (False, zero_value))"
proof -
  from assms(1) obtain version com idx subs etc where
    r: "version = SNMP_VERSION_1 \<or> version = SNMP_VERSION_2C" "plain_oid subs" "length (dotted subs) < 191"
      "t AND 0x1f \<noteq> 0x1f" "length com + length (oid_content subs) + length bs + length etc < 60000"
      "LONG_MIN \<le> idx \<and> idx \<le> LONG_MAX"
    and pkt: "pkt = response_message version com (response_pdu rid 0 idx (response_varbind subs t bs @ etc))"
    unfolding get_response_def by blast
  have "snmp_parse_response pkt reqid = (if rid = uint (reqid AND 0x7fffffff)
      then Got (True, snmp_value_from_tag t bs (zero_value\<lparr>error_status := 0, sv_oid := dotted subs\<rparr>))
      else Got (False, zero_value))"
    unfolding pkt by (rule response_read[OF r(1-5) assms(2) _ r(6)]) simp
  moreover have "zero_value\<lparr>error_status := 0, sv_oid := dotted subs\<rparr> = zero_value\<lparr>sv_oid := dotted subs\<rparr>"
    by (simp add: zero_value_def)
  ultimately have "snmp_parse_response pkt reqid = (if rid = uint (reqid AND 0x7fffffff)
      then Got (True, snmp_value_from_tag t bs (zero_value\<lparr>sv_oid := dotted subs\<rparr>)) else Got (False, zero_value))"
    by (simp only:)
  then show thesis by (rule that)
qed

lemma numeric_value:
  assumes "numeric_tag t"
  shows "error_status (snmp_value_from_tag t bs (zero_value\<lparr>sv_oid := oid\<rparr>)) = 0"
    "sv_exception (snmp_value_from_tag t bs (zero_value\<lparr>sv_oid := oid\<rparr>)) = []"
    "have_value (snmp_value_from_tag t bs (zero_value\<lparr>sv_oid := oid\<rparr>))"
    "sv_value (snmp_value_from_tag t bs (zero_value\<lparr>sv_oid := oid\<rparr>)) = snmp_ber_uint bs"
  using assms by (auto simp: numeric_tag_def snmp_value_from_tag_def zero_value_def)

lemma reqid_long: "LONG_MIN \<le> uint (reqid AND 0x7fffffff :: u64) \<and> uint (reqid AND 0x7fffffff :: u64) \<le> LONG_MAX"
  using reqid_range[of reqid] by linarith

text \<open>A check whose query is out and not answered yet.\<close>

definition waiting :: "monitorent \<Rightarrow> snmpdata \<Rightarrow> snmp_world \<Rightarrow> bool" where
  "waiting m d w \<longleftrightarrow> m_monitordata m \<and> m_filedes m \<noteq> - 1 \<and> m_retval m = - 1 \<and>
     w_data w (m_checkent m) = Some d \<and> \<not> d_snmp_response d"

lemma verdict_some: "h_snmp_test_type h \<noteq> SYSM_SNMP_TYPE_COMPARE \<Longrightarrow> \<exists>r. fst (snmp_verdict v t h) = Some r \<and> r \<noteq> - 1"
  by (simp add: snmp_verdict_def Let_def)

lemma finish_verdict:
  assumes "d_snmp_response d" "h_snmp_test_type h \<noteq> SYSM_SNMP_TYPE_COMPARE" "m_filedes m \<noteq> - 1" "m_monitordata m"
    "snmp_finish now m d h w = (m', h', w')"
  shows "Some (m_retval m') = fst (snmp_verdict (d_snmp_retval d) (d_snmp_response_time d) h) \<and>
     h' = snd (snmp_verdict (d_snmp_retval d) (d_snmp_response_time d) h) \<and> m_retval m' \<noteq> - 1 \<and>
     released m' (m_filedes m) w'"
proof -
  obtain r where r: "fst (snmp_verdict (d_snmp_retval d) (d_snmp_response_time d) h) = Some r" "r \<noteq> - 1"
    using verdict_some[OF assms(2)] by blast
  then obtain h1 where v: "snmp_verdict (d_snmp_retval d) (d_snmp_response_time d) h = (Some r, h1)"
    by (metis prod.collapse)
  have "stop_test_snmp now (m\<lparr>m_retval := r\<rparr>, h1, w) = (m', h', w')"
    using assms(1,5) r(2) by (simp add: snmp_finish_def v)
  from stop_released[OF _ _ this] assms(3,4) r(2) show ?thesis by (simp add: v)
qed


text \<open>
  Somebody else's answer changes nothing. When the next datagram for a waiting check is a
  GetResponse to another request, or not a message the parser accepts, and the 30 seconds are not
  over, servicing the check takes the datagram and leaves the check and the object as they are.
\<close>

theorem snmp_foreign_ignored:
  assumes "waiting m d w" "w_inbox w (m_filedes m) = pkt # ds"
    "(\<exists>rid t bs. get_response rid 0 t bs pkt \<and> LONG_MIN \<le> rid \<and> rid \<le> LONG_MAX \<and> rid \<noteq> uint (d_reqid d AND 0x7fffffff)) \<or>
     (\<exists>v. snmp_parse_response (take 4096 pkt) (d_reqid d) = Got (False, v))"
    "mydifftime (m_queueat m) (w_tv w) < 30 * 1000000"
  shows "\<exists>w'. service_test_snmp now (m, h, w) = (m, h, w') \<and> w_data w' = w_data w \<and> w_open w' = w_open w \<and>
     w_inbox w' (m_filedes m) = ds"
proof -
  have w: "m_monitordata m" "m_filedes m \<noteq> - 1" "w_data w (m_checkent m) = Some d" "\<not> d_snmp_response d" "m_retval m = - 1"
    using assms(1) by (simp_all add: waiting_def)
  let ?w1 = "w\<lparr>w_inbox := (w_inbox w)(m_filedes m := ds)\<rparr>"
  have "\<exists>v. (if take 4096 pkt = [] then Got (False, zero_value) else snmp_parse_response (take 4096 pkt) (d_reqid d)) = Got (False, v)"
    using assms(3)
  proof
    assume "\<exists>rid t bs. get_response rid 0 t bs pkt \<and> LONG_MIN \<le> rid \<and> rid \<le> LONG_MAX \<and> rid \<noteq> uint (d_reqid d AND 0x7fffffff)"
    then obtain rid t bs where r: "get_response rid 0 t bs pkt" "LONG_MIN \<le> rid \<and> rid \<le> LONG_MAX" "rid \<noteq> uint (d_reqid d AND 0x7fffffff)"
      by blast
    show ?thesis using get_response_parse[OF r(1,2), of "d_reqid d"] get_response_nonempty[OF r(1)] r(3) by auto
  qed auto
  then obtain v where "(if take 4096 pkt = [] then Got (False, zero_value)
      else snmp_parse_response (take 4096 pkt) (d_reqid d)) = Got (False, v)" by blast
  then have v: "snmp_read_response (m_filedes m) (d_reqid d) w = (Got (False, v), ?w1)"
    using w(2) by (cases "pkt = []") (simp_all add: snmp_read_response_def assms(2) Let_def)
  have 1: "(if d_snmp_response d then (Got (False, zero_value), w) else snmp_read_response (m_filedes m) (d_reqid d) w) =
      (Got (False, v), ?w1)" using w(4) v by simp
  have "service_test_snmp now (m, h, w) = snmp_finish now m d h (?w1\<lparr>w_data := (w_data ?w1)(m_checkent m \<mapsto> d)\<rparr>)"
    by (rule service_test_snmp_finish[OF w(1,3) 1]) simp
  moreover have "(w_data w)(m_checkent m \<mapsto> d) = w_data w" using w(3) by auto
  ultimately have "service_test_snmp now (m, h, w) = (m, h, ?w1\<lparr>w_data := w_data w\<rparr>)"
    using assms(4) w(4,5) by (simp add: snmp_finish_def)
  then show ?thesis by simp
qed

text \<open>
  A check that hears nothing ends. Once 30 seconds have passed since a waiting check was queued,
  servicing it gives a result whatever has or has not arrived, and everything it held is given back;
  unless the object asks for the comparison of two values, which the code has no case for.
\<close>

theorem snmp_check_ends:
  assumes "waiting m d w" "mydifftime (m_queueat m) (w_tv w) \<ge> 30 * 1000000"
    "h_snmp_test_type h \<noteq> SYSM_SNMP_TYPE_COMPARE" "service_test_snmp now (m, h, w) = (m', h', w')"
  shows "m_retval m' \<noteq> - 1 \<and> released m' (m_filedes m) w'"
proof -
  have w: "m_monitordata m" "m_filedes m \<noteq> - 1" "w_data w (m_checkent m) = Some d" "\<not> d_snmp_response d" "m_retval m = - 1"
    using assms(1) by (simp_all add: waiting_def)
  obtain r w1 where 1: "(if d_snmp_response d then (Got (False, zero_value), w)
      else snmp_read_response (m_filedes m) (d_reqid d) w) = (r, w1)" by fastforce
  obtain m1 d1 where 2: "(case r of Got (True, v) \<Rightarrow> take_answer (w_time w1) v (m, d) | _ \<Rightarrow> (m, d)) = (m1, d1)"
    by fastforce
  have tv: "w_tv w1 = w_tv w" using 1 w(4) by (auto simp: snmp_read_response_def Let_def split: if_splits list.splits)
  let ?w2 = "w1\<lparr>w_data := (w_data w1)(m_checkent m \<mapsto> d1)\<rparr>"
  have fin: "snmp_finish now m1 d1 h ?w2 = (m', h', w')"
    using service_test_snmp_finish[OF w(1,3) 1 2, of now h] assms(4) by simp
  have m1: "m_filedes m1 = m_filedes m" "m_monitordata m1" "m_queueat m1 = m_queueat m"
    using answer_keeps[OF 2] w(1) by auto
  show ?thesis
  proof (cases "d_snmp_response d1")
    case True
    from finish_verdict[OF True assms(3) _ m1(2) fin] w(2) m1(1) show ?thesis by simp
  next
    case False
    let ?m2 = "if m_retval m1 = - 1 then m1\<lparr>m_retval := SYSM_NORESP\<rparr> else m1"
    have "stop_test_snmp now (?m2, h, ?w2) = (m', h', w')"
      using fin False assms(2) tv m1(3) by (simp add: snmp_finish_def Let_def split: if_splits)
    from stop_released[OF _ _ this] m1 w(2) show ?thesis by (cases "m_retval m1 = - 1") simp_all
  qed
qed

section \<open>Where the comparison goes wrong\<close>

text \<open>
  The range test alarms inside the configured range and accepts every value outside of it.
\<close>

lemma range_test_inverted:
  assumes "h_snmp_test_type h = SYSM_SNMP_TYPE_RANGE"
  shows "h_snmp_low h < v \<and> v < h_snmp_high h \<Longrightarrow> fst (snmp_verdict v t h) = Some SYSM_SNMP_OOR"
    "v < h_snmp_low h \<or> h_snmp_high h < v \<Longrightarrow> fst (snmp_verdict v t h) = Some SYSM_OK"
  using assms by (auto simp: snmp_verdict_def Let_def)

text \<open>
  A comparison of two values never gets a result, whatever arrives and however long it takes.
\<close>

lemma compare_never_ends:
  assumes "h_snmp_test_type h = SYSM_SNMP_TYPE_COMPARE" "m_monitordata m" "w_data w (m_checkent m) = Some d"
    "d_snmp_response d" "m_retval m = - 1"
  shows "\<exists>w'. service_test_snmp now (m, h, w) = (m, h, w')"
proof -
  have "service_test_snmp now (m, h, w) = snmp_finish now m d h (w\<lparr>w_data := (w_data w)(m_checkent m \<mapsto> d)\<rparr>)"
    by (rule service_test_snmp_finish[OF assms(2,3), of "Got (False, zero_value)"]) (use assms(4) in simp_all)
  with assms(1,4,5) show ?thesis by (simp add: snmp_finish_def snmp_verdict_def Let_def)
qed

text \<open>
  A counter that starts again from a smaller value raises a rate alarm whatever the configured
  limit (below \<open>2 ^ 32\<close>): the difference is taken in 64 bits, while the counter has 32.
\<close>

theorem counter_restart_alarms:
  assumes "h_snmp_test_type h = SYSM_SNMP_TYPE_RATE" "\<not> h_snmp_octets h" "h_snmp_rate h < 2 ^ 32"
    "v < h_system_uptime h" "h_system_uptime h < 2 ^ 32"
    "h_last_snmp_resptime h < resptime" "resptime - h_last_snmp_resptime h < 2 ^ 31"
  shows "fst (snmp_verdict v resptime h) = Some SYSM_SNMP_HIGHRATE"
proof -
  let ?t = "word_of_int (resptime - h_last_snmp_resptime h) :: u64" and ?x = "v - h_system_uptime h"
  have ut: "uint ?t = resptime - h_last_snmp_resptime h"
    using assms(6,7) by (simp add: uint_word_of_int del: of_int_diff)
  have t: "?t \<noteq> 0" using ut assms(6) by (auto simp del: of_int_diff)
  have up: "uint (h_system_uptime h) < 2 ^ 32" "uint v < uint (h_system_uptime h)"
    using assms(4,5) by (simp_all add: word_less_def)
  have "uint ?x = uint v - uint (h_system_uptime h) + 2 ^ 64"
    using up uint_lt2p[of v] by (simp add: uint_sub_if')
  then have x: "uint ?x \<ge> 2 ^ 64 - 2 ^ 32" using up uint_ge_0[of v] by linarith
  then have "uint ?x div uint ?t \<ge> (2 ^ 64 - 2 ^ 32) div uint ?t"
    using ut assms(6) by (intro zdiv_mono1) (simp_all del: of_int_diff)
  moreover have "(2 ^ 64 - 2 ^ 32) div uint ?t \<ge> (2 ^ 64 - 2 ^ 32) div (2 ^ 31 :: int)"
    using ut assms(6,7) by (intro zdiv_mono2) (simp_all del: of_int_diff)
  ultimately have "uint (?x div ?t) > uint (h_snmp_rate h)"
    using assms(3) by (simp add: uint_div word_less_def del: of_int_diff)
  then show ?thesis using assms(1,2) t by (simp add: snmp_verdict_def Let_def word_less_def del: of_int_diff)
qed

section \<open>Witnesses\<close>

definition demo_answer :: "int \<Rightarrow> byte list" where
  "demo_answer rid =
     response_message 1 [] (response_pdu rid 0 0 (response_varbind [1, 3, 6, 1, 2, 1, 1, 3, 0] 0x43 [1, 0] @ []))"

definition demo_entry :: monitorent where
  "demo_entry = (new_entry 0 ''core'' (0, 0))\<lparr>m_filedes := 9, m_started := True, m_monitordata := True\<rparr>"

definition demo_data :: snmpdata where
  "demo_data = \<lparr>d_reqid = 7, d_snmp_retval = 0, d_snmp_response_time = 0, d_snmp_response = False\<rparr>"

definition demo_world :: "byte list list \<Rightarrow> timeval \<Rightarrow> snmp_world" where
  "demo_world inbox tv =
     \<lparr>w_reqid = 7, w_data = [0 \<mapsto> demo_data], w_inbox = (\<lambda>_. inbox), w_open = {9}, w_time = fst tv, w_tv = tv,
      w_resolve = (\<lambda>_. None), w_socket = Inl EINVAL\<rparr>"

definition demo_host :: hostinfo where
  "demo_host = zero_host\<lparr>h_snmp_test_type := SYSM_SNMP_TYPE_HIGH, h_snmp_high := 100\<rparr>"

lemma demo_waiting: "waiting demo_entry demo_data (demo_world inbox tv)"
  by (simp add: waiting_def demo_entry_def demo_data_def demo_world_def new_entry_def)

lemma demo_answer_response:
  assumes "LONG_MIN \<le> rid \<and> rid \<le> LONG_MAX"
  shows "get_response rid 0 0x43 [1, 0] (demo_answer rid)"
proof -
  let ?vb = "response_varbind [1, 3, 6, 1, 2, 1, 1, 3, 0] 0x43 [1, 0] @ []"
  have oid: "length (oid_content [1, 3, 6, 1, 2, 1, 1, 3, 0]) \<le> 40" by code_simp
  have vb: "length ?vb \<le> 60"
    using oid length_tlv_le[of SNMP_TAG_OID "oid_content [1, 3, 6, 1, 2, 1, 1, 3, 0]"] length_tlv_le[of "0x43" "[1, 0]"]
      length_tlv_le[of SNMP_TAG_SEQUENCE "tlv SNMP_TAG_OID (oid_content [1, 3, 6, 1, 2, 1, 1, 3, 0]) @ tlv 0x43 [1, 0]"]
    by (simp add: response_varbind_def)
  have pdu: "length (response_pdu rid 0 0 ?vb) \<le> 100"
    using vb length_int_tlv[of rid] length_int_tlv[of 0] length_tlv_le[of SNMP_TAG_SEQUENCE ?vb]
    by (simp add: response_pdu_def)
  let ?msg = "int_tlv 1 @ tlv SNMP_TAG_OCTETSTR [] @ tlv SNMP_PDU_RESPONSE (response_pdu rid 0 0 ?vb)"
  have "length (demo_answer rid) \<le> 4096"
    using pdu length_int_tlv[of 1] length_tlv_le[of SNMP_TAG_OCTETSTR "[]"]
      length_tlv_le[of SNMP_PDU_RESPONSE "response_pdu rid 0 0 ?vb"] length_tlv_le[of SNMP_TAG_SEQUENCE ?msg]
    by (simp add: demo_answer_def response_message_def)
  moreover have "(0x43 :: byte) AND 0x1f \<noteq> 0x1f" by simp
  ultimately show ?thesis
    unfolding get_response_def demo_answer_def using oid uptime_oid
    by (intro exI[of _ 1] exI[of _ "[]"] exI[of _ 0] exI[of _ "[1, 3, 6, 1, 2, 1, 1, 3, 0]"]) auto
qed


theorem snmp_foreign_ignored_witness:
  "\<exists>w'. service_test_snmp 5 (demo_entry, demo_host, demo_world [demo_answer 8] (5, 0)) = (demo_entry, demo_host, w')"
proof -
  have i: "w_inbox (demo_world [demo_answer 8] (5, 0)) (m_filedes demo_entry) = demo_answer 8 # []"
    by (simp add: demo_world_def)
  have "get_response 8 0 0x43 [1, 0] (demo_answer 8)" by (rule demo_answer_response) simp
  moreover have "8 \<noteq> uint (d_reqid demo_data AND 0x7fffffff)" by (simp add: demo_data_def)
  ultimately have f: "(\<exists>rid t bs. get_response rid 0 t bs (demo_answer 8) \<and> LONG_MIN \<le> rid \<and> rid \<le> LONG_MAX \<and>
       rid \<noteq> uint (d_reqid demo_data AND 0x7fffffff)) \<or>
     (\<exists>v. snmp_parse_response (take 4096 (demo_answer 8)) (d_reqid demo_data) = Got (False, v))"
    by (intro disjI1 exI[where x = 8] exI[where x = "0x43"] exI[where x = "[1, 0]"]) simp
  have "mydifftime (m_queueat demo_entry) (w_tv (demo_world [demo_answer 8] (5, 0))) < 30 * 1000000"
    by (simp add: mydifftime_def demo_entry_def demo_world_def new_entry_def)
  from snmp_foreign_ignored[OF demo_waiting i f this, of 5 demo_host] show ?thesis by blast
qed

theorem snmp_check_ends_witness:
  "m_retval (fst (service_test_snmp 31 (demo_entry, demo_host, demo_world [] (31, 0)))) \<noteq> - 1"
proof -
  obtain m' h' w' where r: "service_test_snmp 31 (demo_entry, demo_host, demo_world [] (31, 0)) = (m', h', w')"
    by (metis prod_cases3)
  have t: "mydifftime (m_queueat demo_entry) (w_tv (demo_world [] (31, 0))) \<ge> 30 * 1000000"
    by (simp add: mydifftime_def demo_entry_def demo_world_def new_entry_def)
  have "h_snmp_test_type demo_host \<noteq> SYSM_SNMP_TYPE_COMPARE" by (simp add: demo_host_def)
  from snmp_check_ends[OF demo_waiting t this r] r show ?thesis by simp
qed

theorem counter_restart_alarms_witness:
  "fst (snmp_verdict 10 60 (zero_host\<lparr>h_snmp_test_type := SYSM_SNMP_TYPE_RATE, h_snmp_rate := 4000000000,
      h_system_uptime := 1000, h_last_snmp_resptime := 30\<rparr>)) = Some SYSM_SNMP_HIGHRATE"
  by (rule counter_restart_alarms) (simp_all add: zero_host_def)

end
