(* ===== verification/Dns_Query.thy ===== *)
theory Dns_Query
  imports Icmp_Packet
begin

text \<open>
  The query packet of the DNS check (dns.c): the encoding of the name and the packet around it, and a reader of the format RFC 1035
  gives, which the packets are read back with.
\<close>

section \<open>The packet\<close>

definition byte_of :: "char \<Rightarrow> byte" where "byte_of ch = of_nat (of_char ch)"

text \<open>The loop: a length byte and the characters up to the next dot.\<close>

function qname_loop :: "string \<Rightarrow> byte list" where
  "qname_loop s =
     (if s = [] then []
      else let l = takeWhile (\<lambda>ch. ch \<noteq> CHR ''.'') s
           in of_nat (length l) # map byte_of l @ qname_loop (drop (length l + 1) s))"
  by pat_completeness auto
termination by (relation "measure length") auto

declare qname_loop.simps [simp del]

text \<open>The buffer of \<open>strlen + 2\<close> bytes is cleared first.\<close>

definition dns_make_qname :: "string option \<Rightarrow> byte list" where
  "dns_make_qname domain =
     (case domain of None \<Rightarrow> []
      | Some s \<Rightarrow> let e = qname_loop s in e @ replicate (length s + 2 - length e) 0)"

definition net16 :: "16 word \<Rightarrow> byte list" where
  "net16 v = [ucast (drop_bit 8 v), ucast v]"

definition dns_flags :: "bool \<Rightarrow> bool \<Rightarrow> byte" where
  "dns_flags aa rec = (if aa then 0x04 else 0) OR (if rec then 0x01 else 0)"

definition dns_packet :: "16 word \<Rightarrow> string option \<Rightarrow> bool \<Rightarrow> bool \<Rightarrow> byte list" where
  "dns_packet request_id domain aa rec =
     net16 request_id @ [dns_flags aa rec, 0] @ net16 1 @ net16 0 @ net16 0 @ net16 0 @ dns_make_qname domain @ net16 1 @ net16 1"

section \<open>Reading it back\<close>

definition char_at :: "byte \<Rightarrow> char" where "char_at b = char_of (unat b)"

text \<open>The labels of a name up to the empty one, and what follows.\<close>

function read_name :: "byte list \<Rightarrow> (string list \<times> byte list) option" where
  "read_name bs =
     (case bs of
        [] \<Rightarrow> None
      | n # rest \<Rightarrow>
          if n = 0 then Some ([], rest)
          else if n > 63 \<or> length rest < unat n then None
          else (case read_name (drop (unat n) rest) of
                  None \<Rightarrow> None
                | Some (ls, r) \<Rightarrow> Some (map char_at (take (unat n) rest) # ls, r)))"
  by pat_completeness auto
termination by (relation "measure length") auto

declare read_name.simps [simp del]

definition host16 :: "byte \<Rightarrow> byte \<Rightarrow> nat" where
  "host16 hi lo = 256 * unat hi + unat lo"

record dns_question =
  q_id :: nat
  q_authoritative :: bool
  q_recursive :: bool
  q_counts :: "nat list"
  q_name :: "string list"
  q_type :: nat
  q_class :: nat
  q_left :: "byte list"

definition read_query :: "byte list \<Rightarrow> dns_question option" where
  "read_query p =
     (case p of
        i1 # i2 # f # z # c1 # c2 # c3 # c4 # c5 # c6 # c7 # c8 # body \<Rightarrow>
          (case read_name body of
             Some (ls, t1 # t2 # k1 # k2 # left) \<Rightarrow>
               Some \<lparr>q_id = host16 i1 i2, q_authoritative = bit f 2, q_recursive = bit f 0,
                     q_counts = [host16 c1 c2, host16 c3 c4, host16 c5 c6, host16 c7 c8],
                     q_name = ls, q_type = host16 t1 t2, q_class = host16 k1 k2, q_left = left\<rparr>
           | _ \<Rightarrow> None)
      | _ \<Rightarrow> None)"

fun dotted :: "string list \<Rightarrow> string" where
  "dotted [] = []"
| "dotted [l] = l"
| "dotted (l # ls) = l @ CHR ''.'' # dotted ls"

definition label :: "string \<Rightarrow> bool" where
  "label l \<longleftrightarrow> l \<noteq> [] \<and> length l \<le> 63 \<and> list_all (\<lambda>ch. ch \<noteq> CHR ''.'') l"

definition label_bytes :: "string list \<Rightarrow> byte list" where
  "label_bytes ls = concat (map (\<lambda>l. of_nat (length l) # map byte_of l) ls)"

lemma takeWhile_label: "list_all (\<lambda>ch. ch \<noteq> CHR ''.'') l \<Longrightarrow> takeWhile (\<lambda>ch. ch \<noteq> CHR ''.'') (l @ CHR ''.'' # r) = l"
  "list_all (\<lambda>ch. ch \<noteq> CHR ''.'') l \<Longrightarrow> takeWhile (\<lambda>ch. ch \<noteq> CHR ''.'') l = l"
  by (induction l) simp_all

lemma qname_nil: "qname_loop [] = []"
  by (subst qname_loop.simps) simp

lemma qname_label:
  assumes "list_all (\<lambda>ch. ch \<noteq> CHR ''.'') l" "l \<noteq> []"
  shows "qname_loop l = of_nat (length l) # map byte_of l"
    "qname_loop (l @ CHR ''.'' # r) = of_nat (length l) # map byte_of l @ qname_loop r"
  unfolding qname_loop.simps[of l] qname_loop.simps[of "l @ CHR ''.'' # r"]
  using assms(2) by (simp_all add: takeWhile_label[OF assms(1)] qname_nil Let_def)

lemma qname_dotted: "ls \<noteq> [] \<Longrightarrow> list_all label ls \<Longrightarrow> qname_loop (dotted ls) = label_bytes ls \<and> qname_loop (dotted ls @ ''.'') = label_bytes ls"
proof (induction ls rule: dotted.induct)
  case (2 l)
  then have l: "list_all (\<lambda>ch. ch \<noteq> CHR ''.'') l" "l \<noteq> []" by (simp_all add: label_def)
  then show ?case by (simp add: label_bytes_def qname_label qname_nil)
next
  case (3 l v va)
  then have l: "list_all (\<lambda>ch. ch \<noteq> CHR ''.'') l" "l \<noteq> []" by (simp_all add: label_def)
  with 3 show ?case by (simp add: label_bytes_def qname_label)
qed simp

lemma label_bytes_length: "ls \<noteq> [] \<Longrightarrow> length (label_bytes ls) = length (dotted ls) + 1"
  by (induction ls rule: dotted.induct) (simp_all add: label_bytes_def)

lemma byte_of_inverse: "map char_at (map byte_of l) = l"
proof -
  have "char_at (byte_of ch) = ch" for ch
    using of_char_of[of "of_char ch :: nat"] by (simp add: char_at_def byte_of_def unat_of_nat)
  then show ?thesis by (simp add: map_idI)
qed

lemma read_label_bytes: "list_all label ls \<Longrightarrow> read_name (label_bytes ls @ 0 # rest) = Some (ls, rest)"
proof (induction ls)
  case Nil
  show ?case by (subst read_name.simps) (simp add: label_bytes_def)
next
  case (Cons l ls)
  then have l: "length l \<le> 63" "l \<noteq> []" by (simp_all add: label_def)
  have n: "unat (of_nat (length l) :: byte) = length l" using l(1) by (simp add: unat_of_nat)
  then have nz: "(of_nat (length l) :: byte) \<noteq> 0" "\<not> 63 < (of_nat (length l) :: byte)"
    using l by (auto simp: word_less_nat_alt dest!: arg_cong[where f = unat])
  have "label_bytes (l # ls) = of_nat (length l) # map byte_of l @ label_bytes ls" by (simp add: label_bytes_def)
  then show ?case using Cons nz n byte_of_inverse[of l] by (subst read_name.simps) simp
qed

lemma dns_name:
  assumes "ls \<noteq> []" "list_all label ls"
  shows "dns_make_qname (Some (dotted ls)) = label_bytes ls @ [0]" "dns_make_qname (Some (dotted ls @ ''.'')) = label_bytes ls @ [0, 0]"
  using qname_dotted[OF assms] label_bytes_length[OF assms(1)] by (simp_all add: dns_make_qname_def Let_def numeral_2_eq_2)

lemma host_net: "host16 (ucast (drop_bit 8 v)) (ucast v) = unat (v :: 16 word)"
proof -
  have "unat (ucast (drop_bit 8 v) :: byte) = unat v div 256"
  proof -
    have "unat v div 256 < 256" using unsigned_less[of v, where 'a = nat] by auto
    then show ?thesis unfolding unsigned_ucast_eq unsigned_drop_bit_eq by (simp add: take_bit_eq_mod drop_bit_eq_div)
  qed
  moreover have "unat (ucast v :: byte) = unat v mod 256" by (simp add: unsigned_ucast_eq take_bit_eq_mod)
  ultimately show ?thesis by (simp add: host16_def)
qed

lemma dns_flags_bits: "bit (dns_flags aa rec) 2 = aa" "bit (dns_flags aa rec) 0 = rec"
  by (cases aa; cases rec; simp add: dns_flags_def bit_simps)+

lemma query_read:
  assumes "list_all label ls" "tail = net16 1 @ net16 1" "rest = z @ tail" "rest = t1 # t2 # k1 # k2 # left"
    "dns_make_qname d = label_bytes ls @ 0 # z"
  shows "read_query (dns_packet i d aa rec) =
    Some \<lparr>q_id = unat i, q_authoritative = aa, q_recursive = rec, q_counts = [1, 0, 0, 0], q_name = ls,
          q_type = host16 t1 t2, q_class = host16 k1 k2, q_left = left\<rparr>"
proof -
  have r: "read_name (dns_make_qname d @ tail) = Some (ls, t1 # t2 # k1 # k2 # left)"
    using read_label_bytes[OF assms(1), of "z @ tail"] assms(3-5) by simp
  have c: "host16 0 1 = 1" "host16 0 0 = 0" by (simp_all add: host16_def)
  have n: "net16 1 = [0, 1]" "net16 0 = [0, 0]" by (simp_all add: net16_def drop_bit_eq_div)
  show ?thesis
    using r unfolding assms(2) by (simp add: dns_packet_def read_query_def net16_def[of i] n c host_net dns_flags_bits)
qed

section \<open>Properties\<close>


text \<open>
  A name that is written with its final dot gives a malformed query: a second zero byte follows the name, so that type and class are
  read as 0 and 256 and a byte is left over.
\<close>

theorem final_dot_malformed:
  assumes "ls \<noteq> []" "list_all label ls"
  shows "read_query (dns_packet i (Some (dotted ls @ ''.'')) aa rec) =
    Some \<lparr>q_id = unat i, q_authoritative = aa, q_recursive = rec, q_counts = [1, 0, 0, 0], q_name = ls, q_type = 0, q_class = 256, q_left = [1]\<rparr>"
proof -
  have n: "net16 1 = [0, 1]" by (simp add: net16_def drop_bit_eq_div)
  show ?thesis
    using query_read[OF assms(2) refl refl, of "[0]" 0 0 1 0 "[1]" "Some (dotted ls @ ''.'')" i aa rec] dns_name[OF assms] by (simp add: n host16_def)
qed

section \<open>Witnesses\<close>


theorem final_dot_malformed_witness:
  "map_option q_left (read_query (dns_packet 7 (Some ''sysmon.org.'') False True)) = Some [1]"
  using final_dot_malformed[of "[''sysmon'', ''org'']" 7 False True] by (simp add: label_def)

end
