(* ===== verification/Md5.thy ===== *)
theory Md5
  imports Sysmon_Prelude
begin

text \<open>
  The MD5 of md5.c, which the RADIUS check hides its password with. The type \<open>UINT4\<close> is \<open>unsigned long\<close> on every platform but one, so its width
  is a parameter here: the words have the length of the type \<open>'a\<close>. With 32 bits the streaming routines compute the digest of the padded
  message, with 64 bits they do not.
\<close>

section \<open>The transformation of one block\<close>

unbundle bit_operations_syntax

definition MD5_F :: "'a::len word \<Rightarrow> 'a word \<Rightarrow> 'a word \<Rightarrow> 'a word" where "MD5_F x y z = (x AND y) OR (NOT x AND z)"
definition MD5_G :: "'a::len word \<Rightarrow> 'a word \<Rightarrow> 'a word \<Rightarrow> 'a word" where "MD5_G x y z = (x AND z) OR (y AND NOT z)"
definition MD5_H :: "'a::len word \<Rightarrow> 'a word \<Rightarrow> 'a word \<Rightarrow> 'a word" where "MD5_H x y z = x XOR y XOR z"
definition MD5_I :: "'a::len word \<Rightarrow> 'a word \<Rightarrow> 'a word \<Rightarrow> 'a word" where "MD5_I x y z = y XOR (x OR NOT z)"

definition ROTATE_LEFT :: "'a::len word \<Rightarrow> nat \<Rightarrow> 'a word" where
  "ROTATE_LEFT x n = push_bit n x OR drop_bit (32 - n) x"

type_synonym 'a regs = "'a word \<times> 'a word \<times> 'a word \<times> 'a word"

text \<open>
  One use of the macros \<open>FF\<close>, \<open>GG\<close>, \<open>HH\<close> and \<open>II\<close>. The source passes the registers in a different order every time, which is a rotation.
\<close>

definition md5_step :: "('a::len word \<Rightarrow> 'a word \<Rightarrow> 'a word \<Rightarrow> 'a word) \<Rightarrow> 'a word list \<Rightarrow> nat \<times> nat \<times> 'a word \<Rightarrow> 'a regs \<Rightarrow> 'a regs" where
  "md5_step f x = (\<lambda>(k, s, ac) (a, b, c, d). (d, ROTATE_LEFT (a + f b c d + x ! k + ac) s + b, b, c))"

definition FF_table :: "(nat \<times> nat \<times> 'a::len word) list" where
  "FF_table =
     [(0, 7, 0xd76aa478), (1, 12, 0xe8c7b756), (2, 17, 0x242070db), (3, 22, 0xc1bdceee),
      (4, 7, 0xf57c0faf), (5, 12, 0x4787c62a), (6, 17, 0xa8304613), (7, 22, 0xfd469501),
      (8, 7, 0x698098d8), (9, 12, 0x8b44f7af), (10, 17, 0xffff5bb1), (11, 22, 0x895cd7be),
      (12, 7, 0x6b901122), (13, 12, 0xfd987193), (14, 17, 0xa679438e), (15, 22, 0x49b40821)]"

definition GG_table :: "(nat \<times> nat \<times> 'a::len word) list" where
  "GG_table =
     [(1, 5, 0xf61e2562), (6, 9, 0xc040b340), (11, 14, 0x265e5a51), (0, 20, 0xe9b6c7aa),
      (5, 5, 0xd62f105d), (10, 9, 0x2441453), (15, 14, 0xd8a1e681), (4, 20, 0xe7d3fbc8),
      (9, 5, 0x21e1cde6), (14, 9, 0xc33707d6), (3, 14, 0xf4d50d87), (8, 20, 0x455a14ed),
      (13, 5, 0xa9e3e905), (2, 9, 0xfcefa3f8), (7, 14, 0x676f02d9), (12, 20, 0x8d2a4c8a)]"

definition HH_table :: "(nat \<times> nat \<times> 'a::len word) list" where
  "HH_table =
     [(5, 4, 0xfffa3942), (8, 11, 0x8771f681), (11, 16, 0x6d9d6122), (14, 23, 0xfde5380c),
      (1, 4, 0xa4beea44), (4, 11, 0x4bdecfa9), (7, 16, 0xf6bb4b60), (10, 23, 0xbebfbc70),
      (13, 4, 0x289b7ec6), (0, 11, 0xeaa127fa), (3, 16, 0xd4ef3085), (6, 23, 0x4881d05),
      (9, 4, 0xd9d4d039), (12, 11, 0xe6db99e5), (15, 16, 0x1fa27cf8), (2, 23, 0xc4ac5665)]"

definition II_table :: "(nat \<times> nat \<times> 'a::len word) list" where
  "II_table =
     [(0, 6, 0xf4292244), (7, 10, 0x432aff97), (14, 15, 0xab9423a7), (5, 21, 0xfc93a039),
      (12, 6, 0x655b59c3), (3, 10, 0x8f0ccc92), (10, 15, 0xffeff47d), (1, 21, 0x85845dd1),
      (8, 6, 0x6fa87e4f), (15, 10, 0xfe2ce6e0), (6, 15, 0xa3014314), (13, 21, 0x4e0811a1),
      (4, 6, 0xf7537e82), (11, 10, 0xbd3af235), (2, 15, 0x2ad7d2bb), (9, 21, 0xeb86d391)]"

fun Decode :: "byte list \<Rightarrow> 'a::len word list" where
  "Decode (b0 # b1 # b2 # b3 # bs) =
     (ucast b0 OR push_bit 8 (ucast b1) OR push_bit 16 (ucast b2) OR push_bit 24 (ucast b3)) # Decode bs"
| "Decode _ = []"

fun Encode :: "'a::len word list \<Rightarrow> byte list" where
  "Encode [] = []"
| "Encode (v # vs) =
     [ucast (v AND 0xFF), ucast (drop_bit 8 v AND 0xFF), ucast (drop_bit 16 v AND 0xFF), ucast (drop_bit 24 v AND 0xFF)] @ Encode vs"

text \<open>The four rounds on the words of a block.\<close>

definition md5_rounds :: "'a::len word list \<Rightarrow> 'a regs \<Rightarrow> 'a regs" where
  "md5_rounds x st =
     fold (md5_step MD5_I x) II_table (fold (md5_step MD5_H x) HH_table (fold (md5_step MD5_G x) GG_table (fold (md5_step MD5_F x) FF_table st)))"

definition add_regs :: "'a::len regs \<Rightarrow> 'a regs \<Rightarrow> 'a regs" where
  "add_regs = (\<lambda>(a0, b0, c0, d0) (a, b, c, d). (a0 + a, b0 + b, c0 + c, d0 + d))"

definition MD5Transform :: "'a::len regs \<Rightarrow> byte list \<Rightarrow> 'a regs" where
  "MD5Transform st block = add_regs st (md5_rounds (Decode block) st)"

section \<open>The streaming interface\<close>

record (overloaded) 'a md5_ctx =
  md_state :: "'a regs"
  md_count0 :: "'a word"
  md_count1 :: "'a word"
  md_buffer :: "byte list"

definition MD5Init :: "byte list \<Rightarrow> 'a::len md5_ctx" where
  "MD5Init buffer =
     \<lparr>md_state = (0x67452301, 0xefcdab89, 0x98badcfe, 0x10325476), md_count0 = 0, md_count1 = 0, md_buffer = buffer\<rparr>"

text \<open>\<open>memcpy\<close> into an array at an index.\<close>

definition copy_at :: "nat \<Rightarrow> byte list \<Rightarrow> byte list \<Rightarrow> byte list" where
  "copy_at i bs arr = take i arr @ bs @ drop (i + length bs) arr"

text \<open>The loop over whole blocks of the input; the rest is what the buffer takes.\<close>

function whole_blocks :: "'a::len regs \<Rightarrow> byte list \<Rightarrow> 'a regs \<times> byte list" where
  "whole_blocks st bs = (if length bs < 64 then (st, bs) else whole_blocks (MD5Transform st (take 64 bs)) (drop 64 bs))"
  by pat_completeness auto
termination by (relation "measure (\<lambda>(_, bs). length bs)") auto

declare whole_blocks.simps [simp del]

definition md5_index :: "'a::len word \<Rightarrow> nat" where
  "md5_index c = unat (drop_bit 3 c AND 0x3F)"

definition MD5Update :: "byte list \<Rightarrow> 'a::len md5_ctx \<Rightarrow> 'a md5_ctx" where
  "MD5Update input ctx =
     (let index = md5_index (md_count0 ctx);
          bits = push_bit 3 (of_nat (length input)) :: 'a word;
          c0 = md_count0 ctx + bits;
          c1 = (if c0 < bits then md_count1 ctx + 1 else md_count1 ctx) + drop_bit 29 (of_nat (length input));
          partLen = 64 - index
      in if length input \<ge> partLen
         then let filled = copy_at index (take partLen input) (md_buffer ctx);
                  (st, rest) = whole_blocks (MD5Transform (md_state ctx) filled) (drop partLen input)
              in \<lparr>md_state = st, md_count0 = c0, md_count1 = c1, md_buffer = copy_at 0 rest filled\<rparr>
         else ctx\<lparr>md_count0 := c0, md_count1 := c1, md_buffer := copy_at index input (md_buffer ctx)\<rparr>)"

definition PADDING :: "byte list" where
  "PADDING = 0x80 # replicate 63 0"

definition state_words :: "'a::len regs \<Rightarrow> 'a word list" where
  "state_words = (\<lambda>(a, b, c, d). [a, b, c, d])"

definition MD5Final :: "'a::len md5_ctx \<Rightarrow> byte list" where
  "MD5Final ctx =
     (let bits = Encode [md_count0 ctx, md_count1 ctx];
          index = md5_index (md_count0 ctx);
          padLen = (if index < 56 then 56 - index else 120 - index)
      in Encode (state_words (md_state (MD5Update bits (MD5Update (take padLen PADDING) ctx)))))"

text \<open>The context is a local variable, so that the buffer starts with anything.\<close>

definition md5_calc :: "'a::len itself \<Rightarrow> byte list \<Rightarrow> byte list \<Rightarrow> byte list" where
  "md5_calc w buffer input = MD5Final (MD5Update input (MD5Init buffer :: 'a md5_ctx))"

section \<open>The streaming interface computes the digest of the padded message\<close>

lemma whole_blocks_short: "length bs < 64 \<Longrightarrow> whole_blocks st bs = (st, bs)"
  by (subst whole_blocks.simps) simp

lemma whole_blocks_long: "64 \<le> length bs \<Longrightarrow> whole_blocks st bs = whole_blocks (MD5Transform st (take 64 bs)) (drop 64 bs)"
  by (subst whole_blocks.simps) simp

lemma whole_blocks_rest: "length (snd (whole_blocks st bs)) = length bs mod 64"
proof (induction st bs rule: whole_blocks.induct)
  case (1 st bs)
  show ?case
  proof (cases "length bs < 64")
    case False
    with 1 show ?thesis by (simp add: whole_blocks_long mod_if)
  qed (simp add: whole_blocks_short)
qed

lemma whole_blocks_append:
  "whole_blocks st (xs @ ys) = whole_blocks (fst (whole_blocks st xs)) (snd (whole_blocks st xs) @ ys)"
proof (induction st xs rule: whole_blocks.induct)
  case (1 st bs)
  show ?case
  proof (cases "length bs < 64")
    case False
    with 1 show ?thesis by (simp add: whole_blocks_long)
  qed (simp add: whole_blocks_short)
qed

text \<open>The context after the message \<open>M\<close>: its whole blocks are in the state, the rest is in the buffer, and the count is its length in bits.\<close>

definition absorbed :: "32 regs \<Rightarrow> byte list \<Rightarrow> 32 md5_ctx \<Rightarrow> bool" where
  "absorbed st0 M ctx \<longleftrightarrow> length (md_buffer ctx) = 64 \<and> md_state ctx = fst (whole_blocks st0 M) \<and>
     take (length M mod 64) (md_buffer ctx) = snd (whole_blocks st0 M) \<and>
     md_count0 ctx = of_nat (8 * length M) \<and> md_count1 ctx = of_nat (8 * length M div 2 ^ 32)"

lemma unat_bits: "unat (of_nat (8 * n) :: u32) = 8 * n mod 2 ^ 32"
  by (simp only: unat_of_nat) simp

lemma md5_index_count: "md5_index (of_nat (8 * n) :: u32) = n mod 64"
proof -
  have m: "0x3F = (mask 6 :: u32)" by (simp add: mask_eq_exp_minus_1)
  have "unat (drop_bit 3 (of_nat (8 * n) :: u32) AND 0x3F) = (8 * n mod 2 ^ 32) div 8 mod 64"
    unfolding m take_bit_eq_mask[symmetric] unsigned_take_bit_eq unsigned_drop_bit_eq unat_bits by (simp add: take_bit_eq_mod drop_bit_eq_div)
  also have "8 * n mod 2 ^ 32 = 8 * (n mod 2 ^ 29)" using mult_mod_right[of 8 n "2 ^ 29"] by simp
  also have "8 * (n mod 2 ^ 29) div 8 mod 64 = n mod 64" by (simp add: mod_mod_cancel)
  finally show ?thesis by (simp add: md5_index_def)
qed

lemma carry_iff: "(x :: u32) + y < y \<longleftrightarrow> 2 ^ 32 \<le> unat x + unat y"
proof -
  have "unat (x + y) = (unat x + unat y) mod 2 ^ 32" by (simp add: unat_word_ariths)
  moreover have "unat x < 2 ^ 32" "unat y < 2 ^ 32" using unsigned_less[of x, where 'a = nat] unsigned_less[of y, where 'a = nat] by simp_all
  ultimately show ?thesis unfolding word_less_nat_alt by (auto simp: mod_if not_less)
qed

lemma carry_count:
  fixes n L :: nat
  assumes "n < 2 ^ 32"
  shows "(if (of_nat (8 * L) :: u32) + push_bit 3 (of_nat n) < push_bit 3 (of_nat n) then of_nat (8 * L div 2 ^ 32) + 1 else of_nat (8 * L div 2 ^ 32)) +
      drop_bit 29 (of_nat n) = (of_nat (8 * (L + n) div 2 ^ 32) :: u32)"
proof -
  let ?a = "8 * L mod 2 ^ 32" and ?b = "8 * n mod 2 ^ 32"
  have b: "push_bit 3 (of_nat n :: u32) = of_nat (8 * n)" by (simp add: push_bit_eq_mult)
  have c: "(of_nat (8 * L) :: u32) + of_nat (8 * n) < of_nat (8 * n) \<longleftrightarrow> 2 ^ 32 \<le> ?a + ?b"
    unfolding carry_iff unat_bits by simp
  have d: "drop_bit 29 (of_nat n :: u32) = of_nat (n div 2 ^ 29)"
  proof (rule word_unat_eq_iff[THEN iffD2])
    have "n div 2 ^ 29 < 2 ^ 32" using assms by auto
    then show "unat (drop_bit 29 (of_nat n :: u32)) = unat (of_nat (n div 2 ^ 29) :: u32)"
      using assms unfolding unsigned_drop_bit_eq unat_of_nat by (simp add: drop_bit_eq_div take_bit_nat_eq_self)
  qed
  have split: "8 * (L + n) div 2 ^ 32 = 8 * L div 2 ^ 32 + n div 2 ^ 29 + (if 2 ^ 32 \<le> ?a + ?b then 1 else 0)"
  proof -
    have 1: "8 * L = 2 ^ 32 * (8 * L div 2 ^ 32) + ?a" "8 * n = 2 ^ 32 * (8 * n div 2 ^ 32) + ?b" by (rule mult_div_mod_eq[symmetric])+
    have 2: "8 * n div 2 ^ 32 = n div 2 ^ 29" using div_mult_mult1[of 8 n "2 ^ 29"] by simp
    have 3: "?a < 2 ^ 32" "?b < 2 ^ 32" by simp_all
    have eq: "8 * (L + n) = 2 ^ 32 * (8 * L div 2 ^ 32 + n div 2 ^ 29) + (?a + ?b)" using 1 2 by (simp add: algebra_simps)
    have "8 * (L + n) div 2 ^ 32 = 8 * L div 2 ^ 32 + n div 2 ^ 29 + (?a + ?b) div 2 ^ 32" unfolding eq by (rule div_mult_self4) simp
    moreover have "(?a + ?b) div 2 ^ 32 = (if 2 ^ 32 \<le> ?a + ?b then 1 else 0)" using 3 by auto
    ultimately show ?thesis by simp
  qed
  show ?thesis unfolding b c d split by simp
qed

lemma init_absorbed: "length buffer = 64 \<Longrightarrow> absorbed (md_state (MD5Init buffer)) [] (MD5Init buffer)"
  by (simp add: absorbed_def MD5Init_def whole_blocks_short)

lemma copy_at_front: "length bs \<le> length arr \<Longrightarrow> length (copy_at 0 bs arr) = length arr" "take (length bs) (copy_at 0 bs arr) = bs"
  by (simp_all add: copy_at_def)

lemma update_absorbed:
  assumes abs: "absorbed st0 M ctx" and len: "length input < 2 ^ 32"
  shows "absorbed st0 (M @ input) (MD5Update input ctx)"
proof -
  let ?i = "length M mod 64" and ?buf = "md_buffer ctx"
  define st r where "st = fst (whole_blocks st0 M)" and "r = snd (whole_blocks st0 M)"
  have a: "length ?buf = 64" "md_state ctx = st" "take ?i ?buf = r" "md_count0 ctx = of_nat (8 * length M)" "md_count1 ctx = of_nat (8 * length M div 2 ^ 32)"
    using abs by (simp_all add: absorbed_def st_def r_def)
  have i: "md5_index (md_count0 ctx) = ?i" "?i < 64" "length r = ?i" using md5_index_count a(4) whole_blocks_rest[of st0 M] by (simp_all add: r_def)
  have wb: "whole_blocks st0 (M @ input) = whole_blocks st (r @ input)" unfolding st_def r_def by (rule whole_blocks_append)
  define c0 c1 where "c0 = md_count0 ctx + push_bit 3 (of_nat (length input))"
    and "c1 = (if c0 < push_bit 3 (of_nat (length input)) then md_count1 ctx + 1 else md_count1 ctx) + drop_bit 29 (of_nat (length input))"
  have c: "c0 = of_nat (8 * length (M @ input))" "c1 = of_nat (8 * length (M @ input) div 2 ^ 32)"
    using carry_count[OF len, of "length M"] unfolding c0_def c1_def a(4,5) by (simp_all add: push_bit_eq_mult algebra_simps)
  show ?thesis
  proof (cases "64 - ?i \<le> length input")
    case True
    let ?f = "r @ take (64 - ?i) input" and ?rest = "drop (64 - ?i) input"
    have f: "copy_at ?i (take (64 - ?i) input) ?buf = ?f" using True a(1,3) i by (simp add: copy_at_def)
    have w: "whole_blocks st0 (M @ input) = whole_blocks (MD5Transform st ?f) ?rest" unfolding wb using True i(2,3) by (subst whole_blocks_long) simp_all
    obtain st' r' where w': "whole_blocks (MD5Transform st ?f) ?rest = (st', r')" by fastforce
    have r': "length r' = (length M + length input) mod 64" using whole_blocks_rest[of st0 "M @ input"] by (simp add: w w')
    have u: "MD5Update input ctx = \<lparr>md_state = st', md_count0 = c0, md_count1 = c1, md_buffer = copy_at 0 r' ?f\<rparr>"
      using True f w' a(2) i(1) by (simp add: MD5Update_def Let_def c0_def c1_def)
    have "length ?f = 64" "length r' \<le> 64" using r' True i(2,3) by (simp_all add: less_imp_le)
    then have b: "length (copy_at 0 r' ?f) = 64" "take (length r') (copy_at 0 r' ?f) = r'" by (simp_all only: copy_at_front)
    show ?thesis unfolding absorbed_def u w w' using b c r' by (simp only: md5_ctx.simps fst_conv snd_conv length_append simp_thms)
  next
    case False
    have w: "whole_blocks st0 (M @ input) = (st, r @ input)" unfolding wb using False i(3) by (simp add: whole_blocks_short)
    have m: "(length M + length input) mod 64 = ?i + length input" using False by (metis mod_add_left_eq mod_less not_le less_diff_conv add.commute)
    have u: "MD5Update input ctx = ctx\<lparr>md_count0 := c0, md_count1 := c1, md_buffer := copy_at ?i input ?buf\<rparr>"
      using False i(1) by (simp add: MD5Update_def Let_def c0_def c1_def)
    have "copy_at ?i input ?buf = r @ input @ drop (?i + length input) ?buf" using a(3) by (simp add: copy_at_def)
    then show ?thesis using u c w m a(1,2) i(3) False by (simp add: absorbed_def)
  qed
qed

text \<open>The padded message, and the digest of its blocks.\<close>

definition md5_padded :: "byte list \<Rightarrow> byte list" where
  "md5_padded M =
     M @ take (if length M mod 64 < 56 then 56 - length M mod 64 else 120 - length M mod 64) PADDING @
     Encode [of_nat (8 * length M) :: u32, of_nat (8 * length M div 2 ^ 32)]"

definition md5_digest :: "byte list \<Rightarrow> byte list" where
  "md5_digest M =
     Encode (state_words (fold (\<lambda>i st. MD5Transform st (take 64 (drop (64 * i) (md5_padded M)))) [0..<length (md5_padded M) div 64]
       (0x67452301, 0xefcdab89, 0x98badcfe, 0x10325476 :: u32)))"

lemma whole_blocks_fold:
  "fst (whole_blocks st bs) = fold (\<lambda>i st. MD5Transform st (take 64 (drop (64 * i) bs))) [0..<length bs div 64] st"
proof (induction st bs rule: whole_blocks.induct)
  case (1 st bs)
  show ?case
  proof (cases "length bs < 64")
    case True
    then show ?thesis by (simp add: whole_blocks_short)
  next
    case False
    then have d: "length bs div 64 = Suc (length (drop 64 bs) div 64)" by (simp add: le_div_geq)
    have "fold (\<lambda>i st. MD5Transform st (take 64 (drop (64 * i) bs))) [0..<length bs div 64] st =
        fold (\<lambda>i st. MD5Transform st (take 64 (drop (64 * i) (drop 64 bs)))) [0..<length (drop 64 bs) div 64] (MD5Transform st (take 64 bs))"
      unfolding d upt_conv_Cons[OF zero_less_Suc] map_Suc_upt[symmetric] by (simp add: fold_map comp_def algebra_simps)
    with 1 False show ?thesis by (simp add: whole_blocks_long)
  qed
qed

lemma md5_padded_whole: "length (md5_padded M) mod 64 = 0"
proof -
  let ?i = "length M mod 64"
  let ?p = "if ?i < 56 then 56 - ?i else 120 - ?i"
  have l: "length (Encode [a, b :: u32]) = 8" for a b by simp
  have p: "?p \<le> 64" "?i + (?p + 8) = (if ?i < 56 then 64 else 128)" using mod_less_divisor[of 64 "length M"] by auto
  have "length (md5_padded M) = length M + (?p + 8)"
    unfolding md5_padded_def length_append l length_take using p(1) by (simp add: PADDING_def)
  then have "length (md5_padded M) mod 64 = (?i + (?p + 8)) mod 64" by (simp only: mod_add_left_eq)
  then show ?thesis unfolding p(2) by simp
qed

lemma md5_final:
  fixes ctx :: "32 md5_ctx"
  assumes "absorbed st0 M ctx"
  shows "MD5Final ctx = Encode (state_words (fst (whole_blocks st0 (md5_padded M))))"
proof -
  let ?pad = "take (if length M mod 64 < 56 then 56 - length M mod 64 else 120 - length M mod 64) PADDING"
  let ?bits = "Encode [md_count0 ctx, md_count1 ctx]"
  have c: "md_count0 ctx = of_nat (8 * length M)" "md_count1 ctx = of_nat (8 * length M div 2 ^ 32)" using assms by (simp_all add: absorbed_def)
  have small: "length ?pad < 2 ^ 32" "length ?bits < 2 ^ 32" by (simp_all add: PADDING_def)
  from update_absorbed[OF update_absorbed[OF assms small(1)] small(2)]
  have "absorbed st0 (md5_padded M) (MD5Update ?bits (MD5Update ?pad ctx))" unfolding md5_padded_def c append_assoc .
  moreover have "MD5Final ctx = Encode (state_words (md_state (MD5Update ?bits (MD5Update ?pad ctx))))"
    unfolding MD5Final_def Let_def c md5_index_count ..
  ultimately show ?thesis by (simp only: absorbed_def)
qed

lemma md5_calc_padded:
  assumes "length M < 2 ^ 32" "length buffer = 64"
  shows "md5_calc TYPE(32) buffer M = md5_digest M"
proof -
  let ?st = "(0x67452301, 0xefcdab89, 0x98badcfe, 0x10325476) :: 32 regs"
  have "absorbed (md_state (MD5Init buffer)) ([] @ M) (MD5Update M (MD5Init buffer))"
    by (rule update_absorbed[OF init_absorbed[OF assms(2)] assms(1)])
  then have "absorbed ?st M (MD5Update M (MD5Init buffer))" by (simp add: MD5Init_def)
  from md5_final[OF this] show ?thesis by (simp add: md5_calc_def md5_digest_def whole_blocks_fold)
qed

section \<open>Properties\<close>

text \<open>
  C22. With 32-bit words the MD5 routines are right: for every message shorter than four gigabytes and whatever the buffer of the context
  held, the result is the digest of the padded message, block after block.
\<close>

theorem md5_calc_digest:
  assumes "length M < 2 ^ 32" "length buffer = 64"
  shows "md5_calc TYPE(32) buffer M = md5_digest M"
  by (rule md5_calc_padded[OF assms])

lemma md5_empty_32:
  "md5_calc TYPE(32) (replicate 64 0) [] = [0xd4, 0x1d, 0x8c, 0xd9, 0x8f, 0x00, 0xb2, 0x04, 0xe9, 0x80, 0x09, 0x98, 0xec, 0xf8, 0x42, 0x7e]"
  by code_simp

lemma md5_empty_64:
  "md5_calc TYPE(64) (replicate 64 0) [] = [0xe4, 0xc2, 0x37, 0x62, 0xed, 0x28, 0x23, 0xa2, 0x7e, 0x62, 0xa6, 0x4b, 0x95, 0xc0, 0x24, 0xe7]"
  by code_simp

text \<open>
  With 64-bit words they are not: \<open>md5.h\<close> makes \<open>UINT4\<close> an \<open>unsigned long\<close>, and where that has 64 bits the digest of the empty message is
  not the one of RFC 1321, which 32-bit words give.
\<close>

theorem md5_wrong_with_64_bits:
  "md5_calc TYPE(32) (replicate 64 0) [] = [0xd4, 0x1d, 0x8c, 0xd9, 0x8f, 0x00, 0xb2, 0x04, 0xe9, 0x80, 0x09, 0x98, 0xec, 0xf8, 0x42, 0x7e] \<and>
   md5_calc TYPE(64) (replicate 64 0) [] \<noteq> md5_calc TYPE(32) (replicate 64 0) []"
  unfolding md5_empty_32 md5_empty_64 by simp


section \<open>Witnesses\<close>

theorem md5_calc_digest_witness:
  "md5_digest [] = [0xd4, 0x1d, 0x8c, 0xd9, 0x8f, 0x00, 0xb2, 0x04, 0xe9, 0x80, 0x09, 0x98, 0xec, 0xf8, 0x42, 0x7e]"
  using md5_calc_digest[of "[]" "replicate 64 0"] md5_empty_32 by simp

end
