(* ===== verification/Radius_Packet.thy ===== *)
theory Radius_Packet
  imports Md5
begin

text \<open>
  The access request of the RADIUS check (radius.c): hiding the password with MD5 and laying out the attributes, and the reading of such a packet by a
  server as RFC 2138 gives it. The 16 random bytes and the digest are arguments.
\<close>

section \<open>Hiding the password\<close>

text \<open>The loop of \<open>gen_passwd\<close>: every 16 bytes are combined with the digest of the secret and the 16 bytes before.\<close>

fun hide :: "(byte list \<Rightarrow> byte list) \<Rightarrow> byte list \<Rightarrow> byte list \<Rightarrow> nat \<Rightarrow> byte list \<Rightarrow> byte list" where
  "hide digest secret prev 0 ptr = ptr"
| "hide digest secret prev (Suc passes) ptr =
     (let c = map2 (XOR) (take 16 ptr) (digest (secret @ prev)) in c @ hide digest secret c passes (drop 16 ptr))"

text \<open>The buffer of the caller from the place of the password on, and the length used.\<close>

definition gen_passwd :: "(byte list \<Rightarrow> byte list) \<Rightarrow> byte list \<Rightarrow> byte list \<Rightarrow> byte list \<Rightarrow> byte list \<times> nat" where
  "gen_passwd digest cleartext secret ra =
     (let pw_len = min 255 (length cleartext); passes = max 1 ((pw_len + 15) div 16)
      in (hide digest secret ra passes (cleartext @ replicate (256 - length cleartext) 0), passes * 16))"

section \<open>The packet\<close>

definition sysmon_bytes :: "byte list" where
  "sysmon_bytes = [0x73, 0x79, 0x73, 0x6d, 0x6f, 0x6e]"

definition radius_attributes :: "(byte list \<Rightarrow> byte list) \<Rightarrow> byte list \<Rightarrow> byte list \<Rightarrow> byte list \<Rightarrow> byte list \<Rightarrow> byte list" where
  "radius_attributes digest ra username password secret =
     (let ul = (of_nat (length username + 2) :: byte); (pw, pwlen) = gen_passwd digest password secret ra
      in [1, ul] @ take (unat ul - 2) username @ [2, of_nat (2 + pwlen)] @ take pwlen pw @ [6, 6, 0, 0, 0, 8] @ [32, 8] @ sysmon_bytes @ [61, 6, 0, 0, 0, 5])"

definition radius_request :: "(byte list \<Rightarrow> byte list) \<Rightarrow> byte \<Rightarrow> byte list \<Rightarrow> byte list \<Rightarrow> byte list \<Rightarrow> byte list \<Rightarrow> byte list" where
  "radius_request digest seq ra username password secret =
     (let body = radius_attributes digest ra username password secret in [1, seq, 0, of_nat (20 + length body)] @ ra @ body)"

section \<open>The server's side\<close>

function reveal :: "(byte list \<Rightarrow> byte list) \<Rightarrow> byte list \<Rightarrow> byte list \<Rightarrow> byte list \<Rightarrow> byte list" where
  "reveal digest secret prev bs =
     (if bs = [] then [] else map2 (XOR) (take 16 bs) (digest (secret @ prev)) @ reveal digest secret (take 16 bs) (drop 16 bs))"
  by pat_completeness auto
termination by (relation "measure (\<lambda>(_, _, _, bs). length bs)") auto

declare reveal.simps [simp del]

function read_attributes :: "byte list \<Rightarrow> (byte \<times> byte list) list option" where
  "read_attributes bs =
     (case bs of
        [] \<Rightarrow> Some []
      | [_] \<Rightarrow> None
      | ty # l # rest \<Rightarrow>
          if unat l < 2 \<or> length rest < unat l - 2 then None
          else map_option ((#) (ty, take (unat l - 2) rest)) (read_attributes (drop (unat l - 2) rest)))"
  by pat_completeness auto
termination by (relation "measure length") auto

declare read_attributes.simps [simp del]

text \<open>A server drops a packet whose length field does not agree with what arrived.\<close>

definition read_request :: "byte list \<Rightarrow> (byte \<times> byte list \<times> (byte \<times> byte list) list) option" where
  "read_request p =
     (case p of
        c # i # l1 # l2 # rest \<Rightarrow>
          if c \<noteq> 1 \<or> length rest < 16 \<or> 256 * unat l1 + unat l2 \<noteq> length p then None
          else map_option (\<lambda>as. (i, take 16 rest, as)) (read_attributes (drop 16 rest))
      | _ \<Rightarrow> None)"

lemma read_attribute:
  assumes "length v \<le> 253" "l = of_nat (length v + 2)"
  shows "read_attributes (ty # l # v @ rest) = map_option ((#) (ty, v)) (read_attributes rest)"
proof -
  have "unat l = length v + 2" using assms by (simp only: unat_of_nat) simp
  then show ?thesis by (subst read_attributes.simps) simp
qed

lemma xor_twice: "length as \<le> length ks \<Longrightarrow> map2 (XOR) (map2 (XOR) as ks) ks = (as :: byte list)"
  by (induction as ks rule: list_induct2') (simp_all add: xor.assoc)

lemma reveal_hide:
  assumes "\<And>m. length (digest m) = 16"
  shows "16 * passes \<le> length ptr \<Longrightarrow> reveal digest secret prev (take (16 * passes) (hide digest secret prev passes ptr)) = take (16 * passes) ptr"
proof (induction passes arbitrary: prev ptr)
  case 0
  then show ?case by (subst reveal.simps) simp
next
  case (Suc passes)
  let ?c = "map2 (XOR) (take 16 ptr) (digest (secret @ prev))"
  have c: "length ?c = 16" using Suc.prems assms by simp
  have t: "take (16 * Suc passes) (hide digest secret prev (Suc passes) ptr) = ?c @ take (16 * passes) (hide digest secret ?c passes (drop 16 ptr))"
    using c by (simp add: Let_def)
  have x: "map2 (XOR) ?c (digest (secret @ prev)) = take 16 ptr" by (rule xor_twice) (simp add: assms)
  have ne: "?c \<noteq> []" using c by auto
  have "reveal digest secret prev (?c @ ys) = take 16 ptr @ reveal digest secret ?c ys" for ys
    by (subst reveal.simps) (use c ne x in simp)
  with Suc.IH[of "drop 16 ptr" ?c] Suc.prems show ?case unfolding t by (simp add: take_add)
qed

lemma read_fixed_attributes:
  "read_attributes [6, 6, 0, 0, 0, 8, 32, 8, 115, 121, 115, 109, 111, 110, 61, 6, 0, 0, 0, 5] =
     Some [(6, [0, 0, 0, 8]), (32, [115, 121, 115, 109, 111, 110]), (61, [0, 0, 0, 5])]"
  by code_simp

lemma reveal_cong:
  assumes "\<And>prev. length prev \<le> 16 \<Longrightarrow> digest (secret @ prev) = digest' (secret @ prev)"
  shows "length prev \<le> 16 \<Longrightarrow> reveal digest secret prev bs = reveal digest' secret prev bs"
proof (induction "length bs" arbitrary: prev bs rule: less_induct)
  case less
  from less.hyps[of "drop 16 bs" "take 16 bs"] assms[OF less.prems] show ?case by (subst (1 2) reveal.simps) auto
qed

lemma md5_calc_length: "length (md5_calc w buffer m) = 16"
  by (simp add: md5_calc_def MD5Final_def Let_def state_words_def split: prod.split)

definition passes_of :: "nat \<Rightarrow> nat" where
  "passes_of len = max 1 ((min 255 len + 15) div 16)"

lemma passes_bound: "16 * passes_of len \<le> 256" "len \<le> 255 \<Longrightarrow> len \<le> 16 * passes_of len"
  by (auto simp: passes_of_def max_def min_def)

text \<open>The password filled up with zero bytes to whole blocks of 16.\<close>

definition padded :: "byte list \<Rightarrow> byte list" where
  "padded pw = pw @ replicate (16 * passes_of (length pw) - length pw) 0"

lemma gen_passwd_revealed:
  assumes "\<And>m. length (digest m) = 16" "length pw \<le> 255" "gen_passwd digest pw secret ra = (buf, n)"
  shows "n = 16 * passes_of (length pw) \<and> length (take n buf) = n \<and> reveal digest secret ra (take n buf) = padded pw"
proof -
  let ?ptr = "pw @ replicate (256 - length pw) 0" and ?p = "passes_of (length pw)"
  have n: "n = 16 * ?p" and buf: "buf = hide digest secret ra ?p ?ptr" using assms(3) by (simp_all add: gen_passwd_def Let_def passes_of_def)
  have len: "length (hide digest secret prev k ptr) = length ptr" if "16 * k \<le> length ptr" for prev k ptr
    using that by (induction k arbitrary: prev ptr) (simp_all add: Let_def assms(1))
  have b: "16 * ?p \<le> length ?ptr" using passes_bound(1)[of "length pw"] assms(2) by simp
  have "take (16 * ?p) ?ptr = padded pw"
    using passes_bound[of "length pw"] assms(2) by (simp add: padded_def take_append min_def)
  with reveal_hide[where secret = secret and prev = ra, OF assms(1) b] len[OF b] b show ?thesis by (simp add: n buf)
qed

section \<open>Properties\<close>


text \<open>
  A long user name or password breaks the request: only the low byte of the length is written, so that a packet of more than 255 bytes
  says that it is shorter than it is, and a server drops it.
\<close>

theorem radius_long_request_dropped:
  assumes "length ra = 16" "\<And>m. length (digest m) = 16" "length username \<le> 253" "length password \<le> 255"
    "211 < length username + 16 * passes_of (length password)"
  shows "read_request (radius_request digest seq ra username password secret) = None"
proof -
  obtain buf n where g: "gen_passwd digest password secret ra = (buf, n)" by fastforce
  from gen_passwd_revealed[OF assms(2,4) g] have n: "n = 16 * passes_of (length password)" "length (take n buf) = n" by blast+
  have u: "unat (of_nat (length username + 2) :: byte) = length username + 2" using assms(3) by (simp only: unat_of_nat) simp
  have "length (radius_attributes digest ra username password secret) = 24 + length username + n"
    unfolding radius_attributes_def Let_def g prod.case u length_append n(2) by (simp add: sysmon_bytes_def)
  then have "length (radius_request digest seq ra username password secret) = 44 + length username + n"
    unfolding radius_request_def Let_def using assms(1) by simp
  then have big: "255 < length (radius_request digest seq ra username password secret)" using assms(5) n(1) by linarith
  have "unat l \<noteq> length (radius_request digest seq ra username password secret)" for l :: byte
  proof -
    have "unat l < 256" using unsigned_less[of l, where 'a = nat] by simp
    with big show ?thesis by linarith
  qed
  then show ?thesis by (simp add: read_request_def radius_request_def Let_def del: of_nat_add)
qed

section \<open>Witnesses\<close>


theorem radius_long_request_dropped_witness:
  "read_request (radius_request (\<lambda>m. replicate 16 0) 9 (replicate 16 7) (replicate 200 0x61) [0x70, 0x77] [0x73]) = None"
  by (rule radius_long_request_dropped) (simp_all add: passes_of_def)

end
