(* ===== verification/Udp_Checks.thy ===== *)
theory Udp_Checks
  imports Tcp_Checks Dns_Query Radius_Packet
begin

text \<open>
  The checks that talk with datagrams: udp.c, dns.c and radius.c. Each sends a packet once a second until something comes back
  or it has tried often enough. Two of them free their data without clearing the pointer, so the model keeps apart the pointer
  (\<open>m_monitordata\<close>) and the data it points to: a pointer without data is dangling, and using it sets \<open>uw_broken\<close>.
\<close>

section \<open>State\<close>

record udpdata =
  u_start :: int
  u_lastsent :: int
  u_tries :: nat
  u_packet :: "byte list"
  u_seq :: byte

text \<open>What \<open>recv\<close> or \<open>read\<close> returns.\<close>

datatype dgram = Datagram "byte list" | Recv_error errno_t

text \<open>\<open>uw_broken\<close> also stands for \<open>ABORT\<close> and for reading through a null pointer.\<close>

record udp_world =
  uw_data :: "nat \<Rightarrow> udpdata option"
  uw_open :: "int set"
  uw_socket :: int
  uw_resolve :: "string \<Rightarrow> my_hostent option"
  uw_connect :: "errno_t option"
  uw_inbox :: "int \<Rightarrow> dgram list"
  uw_send :: "errno_t option"
  uw_sent :: "int \<Rightarrow> byte list list"
  uw_time :: int
  uw_globtimeout :: int
  uw_ident :: "16 word"
  uw_rad_seq :: byte
  uw_rand :: "nat \<Rightarrow> byte list"
  uw_rands :: nat
  uw_digest :: "byte list \<Rightarrow> byte list"
  uw_broken :: bool

type_synonym udp_op = "udp_world check_op"

abbreviation (input) MAX_TRIES :: nat where "MAX_TRIES \<equiv> 7"

definition put_udp :: "nat \<Rightarrow> udpdata option \<Rightarrow> udp_world \<Rightarrow> udp_world" where
  "put_udp p u w = w\<lparr>uw_data := (uw_data w)(p := u)\<rparr>"

definition udp_close :: "int \<Rightarrow> udp_world \<Rightarrow> udp_world" where
  "udp_close fd w = w\<lparr>uw_open := uw_open w - {fd}\<rparr>"

definition udp_send :: "int \<Rightarrow> byte list \<Rightarrow> udp_world \<Rightarrow> udp_world" where
  "udp_send fd p w = (if uw_send w = None then w\<lparr>uw_sent := (uw_sent w)(fd := uw_sent w fd @ [p])\<rparr> else w)"

definition breaks :: "udp_world \<Rightarrow> udp_world" where
  "breaks w = w\<lparr>uw_broken := True\<rparr>"

definition no_data :: udpdata where
  "no_data = \<lparr>u_start = 0, u_lastsent = 0, u_tries = 0, u_packet = [], u_seq = 0\<rparr>"

definition listed :: "errno_t \<Rightarrow> bool" where
  "listed e \<longleftrightarrow> e \<in> {ECONNREFUSED, EINTR, ENETUNREACH, EHOSTDOWN, EHOSTUNREACH, ETIMEDOUT}"

section \<open>The plain UDP check\<close>

definition start_test_udp :: udp_op where
  "start_test_udp now = (\<lambda>(m, h, w).
     let fd = uw_socket w; m1 = m\<lparr>m_filedes := fd, m_monitordata := True\<rparr>; p = m_checkent m
     in if fd = - 1 then (m1, h, breaks w)
        else let w1 = w\<lparr>uw_open := insert fd (uw_open w)\<rparr>
             in if uw_resolve w (h_hostname h) = None then (m1\<lparr>m_retval := SYSM_NODNS\<rparr>, h, put_udp p None w1)
                else (case uw_connect w of
                        Some e \<Rightarrow>
                          if e \<noteq> EINPROGRESS
                          then (m1\<lparr>m_filedes := - 1, m_retval := listed_error e (m_retval m), m_monitordata := False\<rparr>, h, put_udp p None (udp_close fd w1))
                          else (m1, h, put_udp p (Some (no_data\<lparr>u_start := now, u_lastsent := now\<rparr>)) w1)
                      | None \<Rightarrow> (m1, h, put_udp p (Some (no_data\<lparr>u_start := now, u_lastsent := now\<rparr>)) w1)))"

definition udp_finish :: "int \<Rightarrow> monitorent \<Rightarrow> hostinfo \<Rightarrow> udp_world \<Rightarrow> monitorent \<times> hostinfo \<times> udp_world" where
  "udp_finish r m h w = (m\<lparr>m_retval := r, m_filedes := - 1, m_monitordata := False\<rparr>, h, put_udp (m_checkent m) None (udp_close (m_filedes m) w))"

text \<open>The \<open>switch\<close> of the service function, which knows two more errors.\<close>

definition udp_error :: "errno_t \<Rightarrow> int \<Rightarrow> int" where
  "udp_error e r = (if e = EINPROGRESS then SYSM_INPROG else if e = EBADF then - 1 else listed_error e r)"

text \<open>The end of a turn: an error ends the check, even one that is not known, and so does the global timeout.\<close>

definition udp_late :: "int \<Rightarrow> errno_t option \<Rightarrow> udpdata \<Rightarrow> monitorent \<Rightarrow> hostinfo \<Rightarrow> udp_world \<Rightarrow> monitorent \<times> hostinfo \<times> udp_world" where
  "udp_late now err u m h w =
     (let r = (case err of None \<Rightarrow> m_retval m | Some e \<Rightarrow> udp_error e (m_retval m))
      in if err \<noteq> None \<and> r \<noteq> 0 then udp_finish r m h w
         else if now - u_start u \<ge> uw_globtimeout w then udp_finish SYSM_TIMEDOUT m h w
         else (m\<lparr>m_retval := r\<rparr>, h, put_udp (m_checkent m) (Some u) w))"

definition service_test_udp :: udp_op where
  "service_test_udp now = (\<lambda>(m, h, w).
     if \<not> m_monitordata m then (m, h, w)
     else case uw_data w (m_checkent m) of
       None \<Rightarrow> (m, h, breaks w)
     | Some u \<Rightarrow>
         if now - u_lastsent u < 1 then (m, h, w)
         else (case uw_inbox w (m_filedes m) of
                 x # xs \<Rightarrow>
                   let w1 = w\<lparr>uw_inbox := (uw_inbox w)(m_filedes m := xs)\<rparr>
                   in (case x of
                         Datagram bs \<Rightarrow> if bs \<noteq> [] then udp_finish SYSM_OK m h w1 else udp_late now None u m h w1
                       | Recv_error e \<Rightarrow> udp_late now (Some e) u m h w1)
               | [] \<Rightarrow>
                   let w1 = udp_send (m_filedes m) (replicate 100 0x33) w; u1 = u\<lparr>u_lastsent := now, u_tries := u_tries u + 1\<rparr>
                   in if u_tries u1 \<ge> MAX_TRIES then udp_finish SYSM_TIMEDOUT m h w1 else udp_late now (uw_send w) u1 m h w1))"

definition stop_test_udp :: udp_op where
  "stop_test_udp now = (\<lambda>(m, h, w).
     if \<not> m_monitordata m then (m, h, w)
     else if uw_data w (m_checkent m) = None then (m, h, breaks w)
     else udp_finish (m_retval m) m h w)"

section \<open>The DNS and the RADIUS check\<close>

text \<open>
  The start functions are alike: the name is looked up before the socket is opened, and a failed \<open>connect\<close> frees the data and leaves the pointer. \<open>first\<close>
  is what follows a connection.
\<close>

definition start_datagrams :: "(monitorent \<Rightarrow> hostinfo \<Rightarrow> udp_world \<Rightarrow> udpdata \<times> udp_world) \<Rightarrow> udp_op" where
  "start_datagrams first now = (\<lambda>(m, h, w).
     let fd = uw_socket w; m1 = m\<lparr>m_filedes := fd, m_monitordata := True\<rparr>; p = m_checkent m
     in if uw_resolve w (h_hostname h) = None then (m\<lparr>m_retval := SYSM_NODNS\<rparr>, h, w)
        else if fd = - 1 then (m1, h, breaks w)
        else let w1 = w\<lparr>uw_open := insert fd (uw_open w)\<rparr>
             in (case uw_connect w of
                   Some e \<Rightarrow> (m1\<lparr>m_retval := listed_error e (m_retval m)\<rparr>, h, put_udp p None (udp_close fd w1))
                 | None \<Rightarrow> (case first m1 h w1 of (u, w2) \<Rightarrow> (m1, h, put_udp p (Some u) w2))))"

definition start_check_dns :: udp_op where
  "start_check_dns = start_datagrams (\<lambda>m h w.
     let i = generate_ident (uw_ident w)
     in (no_data\<lparr>u_packet := dns_packet i (h_dns_query h) (h_dns_aa h) (h_dns_recursion h)\<rparr>, w\<lparr>uw_ident := i\<rparr>))"

definition string_bytes :: "string \<Rightarrow> byte list" where
  "string_bytes s = map byte_of s"

text \<open>The packet; user name, password and secret must be there. The random bytes are those of the next sixteen calls of \<open>rand\<close>, which
  \<open>uw_rands\<close> counts.\<close>

definition send_radius_packet :: "int \<Rightarrow> byte \<Rightarrow> hostinfo \<Rightarrow> udp_world \<Rightarrow> udp_world" where
  "send_radius_packet fd seq h w =
     (case (h_username h, h_password h, h_secret h) of
        (Some user, Some pw, Some secret) \<Rightarrow>
          udp_send fd (radius_request (uw_digest w) seq (uw_rand w (uw_rands w)) (string_bytes user) (string_bytes pw) (string_bytes secret))
            (w\<lparr>uw_rands := uw_rands w + 1\<rparr>)
      | _ \<Rightarrow> breaks w)"

definition start_check_radius :: udp_op where
  "start_check_radius now = start_datagrams (\<lambda>m h w.
     let seq = uw_rad_seq w
     in (no_data\<lparr>u_seq := seq, u_tries := 1, u_lastsent := now\<rparr>, send_radius_packet (m_filedes m) seq h (w\<lparr>uw_rad_seq := seq + 1\<rparr>))) now"

text \<open>The end with a result and with the pointer cleared, and the end that leaves the pointer.\<close>

definition dgram_finish :: "int \<Rightarrow> monitorent \<Rightarrow> hostinfo \<Rightarrow> udp_world \<Rightarrow> monitorent \<times> hostinfo \<times> udp_world" where
  "dgram_finish r m h w = (m\<lparr>m_retval := r, m_monitordata := False\<rparr>, h, put_udp (m_checkent m) None (udp_close (m_filedes m) w))"

definition dgram_dangle :: "int \<Rightarrow> monitorent \<Rightarrow> hostinfo \<Rightarrow> udp_world \<Rightarrow> monitorent \<times> hostinfo \<times> udp_world" where
  "dgram_dangle r m h w = (m\<lparr>m_retval := r\<rparr>, h, put_udp (m_checkent m) None (udp_close (m_filedes m) w))"

text \<open>\<open>answer\<close> is what the code makes of the bytes of a datagram, given the result so far.\<close>

definition read_answer :: "(byte list \<Rightarrow> int \<Rightarrow> int) \<Rightarrow> dgram \<Rightarrow> hostinfo \<Rightarrow> int \<Rightarrow> int" where
  "read_answer answer x h r =
     (case x of
        Recv_error e \<Rightarrow> if listed e then listed_error e r else sint (h_lastcheck h)
      | Datagram bs \<Rightarrow> if bs = [] then r else answer bs r)"

definition dns_answer :: "byte list \<Rightarrow> int \<Rightarrow> int" where
  "dns_answer bs r = SYSM_OK"

definition radius_answer :: "byte list \<Rightarrow> int \<Rightarrow> int" where
  "radius_answer bs r = (if hd bs = 2 then SYSM_OK else if hd bs = 3 then SYSM_BAD_AUTH else r)"

definition service_datagrams :: "(byte list \<Rightarrow> int \<Rightarrow> int) \<Rightarrow> (udpdata \<Rightarrow> monitorent \<Rightarrow> hostinfo \<Rightarrow> udp_world \<Rightarrow> udpdata \<times> udp_world) \<Rightarrow>
    int \<Rightarrow> monitorent \<times> hostinfo \<times> udp_world \<Rightarrow> monitorent \<times> hostinfo \<times> udp_world" where
  "service_datagrams answer again now = (\<lambda>(m, h, w).
     case uw_data w (m_checkent m) of
       None \<Rightarrow> (m, h, breaks w)
     | Some u \<Rightarrow>
         if now - u_lastsent u < 1 then (m, h, w)
         else if u_tries u > 10 then dgram_finish SYSM_NORESP m h w
         else (case uw_inbox w (m_filedes m) of
                 x # xs \<Rightarrow> dgram_dangle (read_answer answer x h (m_retval m)) m h (w\<lparr>uw_inbox := (uw_inbox w)(m_filedes m := xs)\<rparr>)
               | [] \<Rightarrow> (case again u m h w of (u1, w1) \<Rightarrow> (m, h, put_udp (m_checkent m) (Some u1) w1))))"

text \<open>\<open>service_check_dns\<close> asks for the time itself; a failed \<open>write\<close> counts for nothing.\<close>

definition service_check_dns :: udp_op where
  "service_check_dns now = (\<lambda>(m, h, w).
     if \<not> m_monitordata m then (m, h, w)
     else service_datagrams dns_answer (\<lambda>u m h w.
            (if uw_send w = None then u\<lparr>u_tries := u_tries u + 1, u_lastsent := uw_time w\<rparr> else u, udp_send (m_filedes m) (u_packet u) w))
          (uw_time w) (m, h, w))"

definition service_check_radius :: udp_op where
  "service_check_radius now = (\<lambda>(m, h, w).
     if \<not> m_monitordata m then (m, h, breaks w)
     else service_datagrams radius_answer (\<lambda>u m h w.
            (u\<lparr>u_tries := u_tries u + 1, u_lastsent := now\<rparr>, send_radius_packet (m_filedes m) (u_seq u) h w)) now (m, h, w))"

text \<open>Freeing what is freed already breaks the memory of the process.\<close>

definition stop_check_dns :: udp_op where
  "stop_check_dns now = (\<lambda>(m, h, w).
     let w1 = udp_close (m_filedes m) w
     in if \<not> m_monitordata m then (m, h, w1)
        else if uw_data w (m_checkent m) = None then (m, h, breaks w1)
        else dgram_finish (m_retval m) m h w)"

definition stop_check_radius :: udp_op where
  "stop_check_radius now = (\<lambda>(m, h, w).
     if \<not> m_monitordata m then (m, h, w)
     else if uw_data w (m_checkent m) = None then (m, h, breaks w)
     else dgram_finish (m_retval m) m h w)"

section \<open>The contract of the scheduler\<close>

lemmas udp_steps = udp_finish_def dgram_finish_def dgram_dangle_def udp_late_def Let_def

lemma udp_keeps: "keeps_entry start_test_udp" "keeps_entry service_test_udp" "keeps_entry stop_test_udp"
  by (rule keeps_entryI, auto simp: start_test_udp_def service_test_udp_def stop_test_udp_def udp_steps
      split: if_splits option.splits list.splits dgram.splits)+

lemma start_datagrams_keeps: "keeps_entry (\<lambda>now. start_datagrams (first now) now)"
  by (rule keeps_entryI) (auto simp: start_datagrams_def Let_def split: if_splits option.splits prod.splits)

lemma service_datagrams_keeps:
  "service_datagrams answer again now (m, h, w) = (m', h', w') \<Longrightarrow> m_checkent m' = m_checkent m \<and> m_unique_name m' = m_unique_name m \<and> m_queueat m' = m_queueat m \<and>
     m_wakeup_count m' = m_wakeup_count m \<and> h_queued h' = h_queued h \<and> h_queuetime h' = h_queuetime h"
  by (auto simp: service_datagrams_def udp_steps split: if_splits option.splits list.splits prod.splits)

lemma dns_keeps: "keeps_entry start_check_dns" "keeps_entry service_check_dns" "keeps_entry stop_check_dns"
proof -
  show "keeps_entry start_check_dns" unfolding start_check_dns_def by (rule start_datagrams_keeps)
  show "keeps_entry service_check_dns" by (rule keeps_entryI) (auto simp: service_check_dns_def dest: service_datagrams_keeps split: if_splits)
  show "keeps_entry stop_check_dns" by (rule keeps_entryI) (auto simp: stop_check_dns_def udp_steps split: if_splits)
qed

lemma radius_keeps: "keeps_entry start_check_radius" "keeps_entry service_check_radius" "keeps_entry stop_check_radius"
proof -
  show "keeps_entry start_check_radius" unfolding start_check_radius_def[abs_def] by (rule start_datagrams_keeps)
  show "keeps_entry service_check_radius" by (rule keeps_entryI) (auto simp: service_check_radius_def dest: service_datagrams_keeps split: if_splits)
  show "keeps_entry stop_check_radius" by (rule keeps_entryI) (auto simp: stop_check_radius_def udp_steps split: if_splits)
qed

interpretation udp: check_protocol start_test_udp service_test_udp stop_test_udp
  by unfold_locales (rule udp_keeps)+

interpretation dns: check_protocol start_check_dns service_check_dns stop_check_dns
  by unfold_locales (rule dns_keeps)+

interpretation radius: check_protocol start_check_radius service_check_radius stop_check_radius
  by unfold_locales (rule radius_keeps)+

section \<open>Properties\<close>

definition holds_data :: "monitorent \<Rightarrow> udpdata \<Rightarrow> udp_world \<Rightarrow> bool" where
  "holds_data m u w \<longleftrightarrow> m_retval m = - 1 \<and> m_monitordata m \<and> uw_data w (m_checkent m) = Some u"

lemma udp_finish_ends:
  "udp_finish r m h w = (m', h', w') \<Longrightarrow> \<not> m_monitordata m' \<and> uw_data w' (m_checkent m) = None \<and> m_filedes m \<notin> uw_open w' \<and> m_retval m' = r"
  by (auto simp: udp_finish_def put_udp_def udp_close_def)

lemma udp_late_ends:
  assumes "uw_globtimeout w \<le> now - u_start u" "udp_late now err u m h w = (m', h', w')"
  shows "\<not> m_monitordata m' \<and> uw_data w' (m_checkent m) = None \<and> m_filedes m \<notin> uw_open w' \<and>
    (m_retval m' = - 1 \<longrightarrow> (\<exists>e. err = Some e \<and> \<not> listed e))"
  using assms
  by (auto simp: udp_late_def Let_def udp_error_def listed_error_def listed_def split: if_splits option.splits errno_t.splits dest!: udp_finish_ends)

text \<open>
  The UDP check ends with the global timeout. The first turn then, a second or more after the last packet, closes the socket and frees the
  data whatever has arrived or failed; there is a result unless receiving or sending failed with an error the code does not list.
\<close>

theorem udp_check_ends:
  assumes "holds_data m u w" "uw_globtimeout w \<le> now - u_start u" "1 \<le> now - u_lastsent u" "service_test_udp now (m, h, w) = (m', h', w')"
  shows "\<not> m_monitordata m' \<and> uw_data w' (m_checkent m) = None \<and> m_filedes m \<notin> uw_open w' \<and>
    (m_retval m' = - 1 \<longrightarrow> (\<exists>e. \<not> listed e \<and> (uw_send w = Some e \<or> hd (uw_inbox w (m_filedes m)) = Recv_error e)))"
proof -
  have d: "m_monitordata m" "uw_data w (m_checkent m) = Some u" "\<not> now - u_lastsent u < 1" using assms(1,3) by (simp_all add: holds_data_def)
  show ?thesis
  proof (cases "uw_inbox w (m_filedes m)")
    case Nil
    let ?w = "udp_send (m_filedes m) (replicate 100 0x33) w" and ?u = "u\<lparr>u_lastsent := now, u_tries := u_tries u + 1\<rparr>"
    have g: "uw_globtimeout ?w \<le> now - u_start ?u" using assms(2) by (simp add: udp_send_def)
    have eq: "service_test_udp now (m, h, w) = (if MAX_TRIES \<le> u_tries ?u then udp_finish SYSM_TIMEDOUT m h ?w else udp_late now (uw_send w) ?u m h ?w)"
      using d Nil by (simp add: service_test_udp_def Let_def)
    consider "udp_finish SYSM_TIMEDOUT m h ?w = (m', h', w')" | "udp_late now (uw_send w) ?u m h ?w = (m', h', w')"
      using assms(4)[unfolded eq] by (cases "MAX_TRIES \<le> u_tries ?u") (simp_all only: if_True if_False)
    then show ?thesis
    proof cases
      case 1
      from udp_finish_ends[OF this] show ?thesis by simp
    next
      case 2
      from udp_late_ends[OF g this] show ?thesis by blast
    qed
  next
    case (Cons x xs)
    let ?w = "w\<lparr>uw_inbox := (uw_inbox w)(m_filedes m := xs)\<rparr>"
    have g: "uw_globtimeout ?w \<le> now - u_start u" using assms(2) by simp
    have eq: "service_test_udp now (m, h, w) = (case x of Datagram bs \<Rightarrow> if bs \<noteq> [] then udp_finish SYSM_OK m h ?w else udp_late now None u m h ?w
        | Recv_error e \<Rightarrow> udp_late now (Some e) u m h ?w)"
      using d Cons by (simp add: service_test_udp_def Let_def)
    consider "udp_finish SYSM_OK m h ?w = (m', h', w')" | "udp_late now None u m h ?w = (m', h', w')"
      | e where "x = Recv_error e" "udp_late now (Some e) u m h ?w = (m', h', w')" 
      using assms(4)[unfolded eq] by (cases x) (simp_all only: dgram.case split: if_split_asm)
    then show ?thesis
    proof cases
      case 1
      from udp_finish_ends[OF this] show ?thesis by simp
    next
      case 2
      from udp_late_ends[OF g this] show ?thesis by simp
    next
      case 3
      from udp_late_ends[OF g 3(2)] 3(1) Cons show ?thesis by auto
    qed
  qed
qed

text \<open>
  A RADIUS server can make the daemon use freed memory. After an answer that is neither an accept nor a reject, such as a challenge, the check has no
  result, its data are freed and its pointer is kept; its next turn reads them.
\<close>

theorem radius_challenge_breaks:
  assumes "holds_data m u w" "1 \<le> now - u_lastsent u" "u_tries u \<le> 10" "uw_inbox w (m_filedes m) = Datagram (c # bs) # xs" "c \<noteq> 2" "c \<noteq> 3"
    "service_check_radius now (m, h, w) = (m', h', w')"
  shows "m_retval m' = - 1 \<and> m_monitordata m' \<and> uw_data w' (m_checkent m') = None \<and> uw_broken (snd (snd (service_check_radius now' (m', h', w'))))"
proof -
  have d: "m_retval m = - 1" "m_monitordata m" "uw_data w (m_checkent m) = Some u" "\<not> now - u_lastsent u < 1" "\<not> 10 < u_tries u"
    using assms(1-3) by (simp_all add: holds_data_def)
  have "service_check_radius now (m, h, w) = dgram_dangle (- 1) m h (w\<lparr>uw_inbox := (uw_inbox w)(m_filedes m := xs)\<rparr>)"
    using d assms(4-6) by (simp add: service_check_radius_def service_datagrams_def read_answer_def radius_answer_def)
  then have m': "m' = m\<lparr>m_retval := - 1\<rparr>" "uw_data w' (m_checkent m) = None" using assms(7) by (auto simp: dgram_dangle_def put_udp_def)
  then show ?thesis using d by (simp add: service_check_radius_def service_datagrams_def breaks_def)
qed

section \<open>Witnesses\<close>

definition udp_net :: "dgram list \<Rightarrow> udp_world" where
  "udp_net xs =
     \<lparr>uw_data = (\<lambda>_. None)(0 := Some no_data), uw_open = {7}, uw_socket = 8, uw_resolve = \<lambda>_. None, uw_connect = None, uw_inbox = \<lambda>_. xs,
      uw_send = None, uw_sent = \<lambda>_. [], uw_time = 40, uw_globtimeout = 30, uw_ident = 0, uw_rad_seq = 1, uw_rand = \<lambda>_. replicate 16 0, uw_rands = 0,
      uw_digest = \<lambda>_. replicate 16 0, uw_broken = False\<rparr>"

definition udp_entry :: monitorent where
  "udp_entry = (new_entry 0 ''auth'' (0, 0))\<lparr>m_filedes := 7, m_monitordata := True\<rparr>"

lemma udp_entry_holds: "holds_data udp_entry no_data (udp_net xs)"
  by (simp add: holds_data_def udp_entry_def new_entry_def udp_net_def)

theorem udp_check_ends_witness:
  "\<exists>m' w'. service_test_udp 40 (udp_entry, zero_host, udp_net []) = (m', zero_host, w') \<and> m_retval m' \<noteq> - 1 \<and> 7 \<notin> uw_open w'"
proof -
  obtain m' h' w' where r: "service_test_udp 40 (udp_entry, zero_host, udp_net []) = (m', h', w')" by (metis prod_cases3)
  have e: "m_retval (fst (service_test_udp 40 (udp_entry, zero_host, udp_net []))) = SYSM_TIMEDOUT"
    "fst (snd (service_test_udp 40 (udp_entry, zero_host, udp_net []))) = zero_host"
    by (simp_all add: service_test_udp_def udp_entry_def new_entry_def udp_net_def no_data_def udp_send_def udp_late_def udp_finish_def)
  from udp_check_ends[OF udp_entry_holds _ _ r] have "7 \<notin> uw_open w'" by (simp add: udp_net_def no_data_def udp_entry_def)
  with e r show ?thesis by simp
qed

theorem radius_challenge_breaks_witness:
  "uw_broken (snd (snd (service_check_radius 41 (service_check_radius 40 (udp_entry, zero_host, udp_net [Datagram [11]])))))"
proof -
  obtain m' h' w' where r: "service_check_radius 40 (udp_entry, zero_host, udp_net [Datagram [11]]) = (m', h', w')" by (metis prod_cases3)
  from radius_challenge_breaks[OF udp_entry_holds _ _ _ _ _ r, of 11 "[]" "[]" 41] r show ?thesis by (simp add: udp_net_def no_data_def)
qed

end
