(* ===== verification/Daemon_Checks.thy ===== *)
theory Daemon_Checks
  imports Ping6_Check Snmp_Check Udp_Checks
begin

text \<open>
  The checks the scheduler of syswatch.c really runs: every type of object with its start, service and stop function, each on its own part
  of the world. With this table the scheduler's hypothesis about the checks is no longer one.
\<close>

section \<open>The world of all checks\<close>

record daemon_world =
  dw_icmp :: icmp_world
  dw_ping6 :: ping6_world
  dw_snmp :: snmp_world
  dw_tcp :: tcp_world
  dw_udp :: udp_world

text \<open>An operation on a part of the world. Only some ICMP checks number a change of the object.\<close>

definition on_part :: "('d \<Rightarrow> 'w) \<Rightarrow> ('w \<Rightarrow> 'd \<Rightarrow> 'd) \<Rightarrow> 'w check_op \<Rightarrow> (u64 \<times> 'd) check_op" where
  "on_part get put f now = (\<lambda>(m, h, q, d). case f now (m, h, get d) of (m', h', w') \<Rightarrow> (m', h', q, put w' d))"

definition on_numbered_part :: "('d \<Rightarrow> 'w) \<Rightarrow> ('w \<Rightarrow> 'd \<Rightarrow> 'd) \<Rightarrow> (u64 \<times> 'w) check_op \<Rightarrow> (u64 \<times> 'd) check_op" where
  "on_numbered_part get put f now = (\<lambda>(m, h, q, d). case f now (m, h, q, get d) of (m', h', q', w') \<Rightarrow> (m', h', q', put w' d))"

definition on_protocol :: "('w check_op \<Rightarrow> 'v check_op) \<Rightarrow> 'w check_op \<Rightarrow> 'w check_op \<Rightarrow> 'w check_op \<Rightarrow> 'v protocol" where
  "on_protocol lift start service stop = \<lparr>start_test = lift start, service_test = lift service, stop_test = lift stop\<rparr>"

abbreviation (input) icmp_part :: "icmp_op \<Rightarrow> (u64 \<times> daemon_world) check_op" where
  "icmp_part \<equiv> on_numbered_part dw_icmp (\<lambda>w d. d\<lparr>dw_icmp := w\<rparr>)"

abbreviation (input) ping6_part :: "ping6_op \<Rightarrow> (u64 \<times> daemon_world) check_op" where
  "ping6_part \<equiv> on_part (\<lambda>d. (dw_icmp d, dw_ping6 d)) (\<lambda>(iw, w) d. d\<lparr>dw_icmp := iw, dw_ping6 := w\<rparr>)"

abbreviation (input) tcp_part :: "tcp_op \<Rightarrow> (u64 \<times> daemon_world) check_op" where
  "tcp_part \<equiv> on_part dw_tcp (\<lambda>w d. d\<lparr>dw_tcp := w\<rparr>)"

abbreviation (input) udp_part :: "udp_op \<Rightarrow> (u64 \<times> daemon_world) check_op" where
  "udp_part \<equiv> on_part dw_udp (\<lambda>w d. d\<lparr>dw_udp := w\<rparr>)"

abbreviation (input) snmp_part :: "snmp_world check_op \<Rightarrow> (u64 \<times> daemon_world) check_op" where
  "snmp_part \<equiv> on_part dw_snmp (\<lambda>w d. d\<lparr>dw_snmp := w\<rparr>)"

section \<open>Dispatch\<close>

definition daemon_protocol :: "int \<Rightarrow> (u64 \<times> daemon_world) protocol" where
  "daemon_protocol type =
     (if type = SYSM_TYPE_PING then on_protocol icmp_part start_test_ping service_test_ping stop_test_ping
      else if type = SYSM_TYPE_PKTLOSS then on_protocol icmp_part start_test_pktloss service_test_pktloss stop_test_pktloss
      else if type = SYSM_TYPE_PING_LATENCY then on_protocol icmp_part start_test_rtt service_test_rtt stop_test_rtt
      else if type = SYSM_TYPE_PINGv6 then on_protocol ping6_part start_test_pingv6 service_test_pingv6 stop_test_pingv6
      else if type = SYSM_TYPE_SNMP then on_protocol snmp_part start_test_snmp service_test_snmp stop_test_snmp
      else if type = SYSM_TYPE_UDP then on_protocol udp_part start_test_udp service_test_udp stop_test_udp
      else if type = SYSM_TYPE_DNS then on_protocol udp_part start_check_dns service_check_dns stop_check_dns
      else if type = SYSM_TYPE_RADIUS then on_protocol udp_part start_check_radius service_check_radius stop_check_radius
      else let p = tcp_protocol type in on_protocol tcp_part (start_test p) (service_test p) (stop_test p))"

lemma on_part_keeps: "keeps_entry f \<Longrightarrow> keeps_entry (on_part get put f)"
  by (rule keeps_entryI) (auto simp: on_part_def split: prod.splits dest: keeps_entryD)

lemma on_numbered_part_keeps: "keeps_entry f \<Longrightarrow> keeps_entry (on_numbered_part get put f)"
  by (rule keeps_entryI) (auto simp: on_numbered_part_def split: prod.splits dest: keeps_entryD)

lemma on_protocol_good:
  assumes "check_protocol start service stop" "\<And>f. keeps_entry f \<Longrightarrow> keeps_entry (lift f)"
  shows "check_protocol (start_test (on_protocol lift start service stop)) (service_test (on_protocol lift start service stop))
    (stop_test (on_protocol lift start service stop))"
  using assms by (simp add: check_protocol_def on_protocol_def)

lemma daemon_checks_good: "good_checks daemon_protocol"
proof -
  have "check_protocol (start_test (daemon_protocol ty)) (service_test (daemon_protocol ty)) (stop_test (daemon_protocol ty))" for ty
    unfolding daemon_protocol_def Let_def
    by (simp add: on_protocol_good on_part_keeps on_numbered_part_keeps ping.check_protocol_axioms pktloss.check_protocol_axioms
        rtt.check_protocol_axioms ping6.check_protocol_axioms snmp.check_protocol_axioms udp.check_protocol_axioms dns.check_protocol_axioms
        radius.check_protocol_axioms tcp_protocol_good)
  then show ?thesis by (simp add: good_checks_def)
qed

end
