(* ===== verification/Spec2Isabelle.thy ===== *)
theory Spec2Isabelle
  imports Trap_Receive Save_State Conf_Wire Icmp_Correct Client_Poll Tcp_Correct Daemon_Checks
begin

text \<open>
  A verification development for sysmond.
\<close>

section \<open>The scheduler with the checks of the daemon\<close>


section \<open>Outages across a restart\<close>


section \<open>Witnesses\<close>

definition first_sched :: "daemon_world \<Rightarrow> daemon_world sched" where
  "first_sched d =
     \<lparr>s_graph = one_object zero_host, s_root = 0, s_queue = [], s_numqueued = 0, s_maxqueued = 75, s_last_queued_at = 0,
      s_last_queued_warn = False, s_warnlog = False, s_killafter = 61, s_killed = 0, s_pageinterval = 60,
      s_last_wakeup_t = 0, s_last_periodic_t = 0, s_seq = 0, s_effects = [], s_world = d\<rparr>"

lemma first_sched_inv: "loop_inv (first_sched d)"
proof -
  have "\<not> h_queued zero_host" by (simp add: zero_host_def)
  then show ?thesis by (auto simp: loop_inv_def queue_inv_def first_sched_def flags_def host_at_one)
qed


definition down_host :: hostinfo where
  "down_host = zero_host\<lparr>h_contacted := True, h_lastcheck := 4, h_deathtime := 40\<rparr>"

lemma down_host_line: "line_ok ''core'' down_host"
proof -
  have "length (state_line ''core'' down_host) < 4096"
    by (simp add: down_host_def state_line_def state_pairs_def zero_host_def dec_string.simps int_string_def bool_digit_def)
  then show ?thesis by (simp add: down_host_def line_ok_def times_ok_def is_time_def zero_host_def)
qed


end
